(* ===== verification/Prelude.thy ===== *)
theory Prelude
  imports Main "HOL-Library.Word"
begin

text \<open>
  Shared vocabulary of the development: the C integers and character classes the program uses,
  C strings, the decimal conversions of \<^verbatim>\<open>printf\<close> and \<^verbatim>\<open>strtol\<close>, the outcome of a call that may
  run into undefined behaviour, and the state-passing monad of the file system layer with its
  weakest-precondition calculus. Collections: \<open>char_class\<close> (character classes and literals),
  \<open>wp_rules\<close> (symbolic execution of the monad).
\<close>

named_theorems char_class \<open>evaluation of character classes\<close>
named_theorems wp_rules \<open>weakest preconditions of monadic operations\<close>

section \<open>Outcomes\<close>

text \<open>
  What can go wrong in the C code without an error return: a null pointer is dereferenced, a read
  or write leaves its object, a fixed buffer overflows, an \<^verbatim>\<open>assert\<close> fails, a \<^verbatim>\<open>va_arg\<close> does
  not find an argument of its type.
\<close>

datatype fault = NullDeref | OutOfBounds | BufferOverflow | AssertFailure | BadVarArg | Thrown string

datatype 'a outcome = Ok 'a | Fault fault

fun obind :: "'a outcome \<Rightarrow> ('a \<Rightarrow> 'b outcome) \<Rightarrow> 'b outcome" where
  "obind (Ok x) f = f x"
| "obind (Fault e) f = Fault e"

lemma obind_eq_Ok [simp]: "obind m f = Ok y \<longleftrightarrow> (\<exists>x. m = Ok x \<and> f x = Ok y)"
  by (cases m) auto

lemma obind_cong [fundef_cong]:
  "m = m' \<Longrightarrow> (\<And>x. m' = Ok x \<Longrightarrow> f x = f' x) \<Longrightarrow> obind m f = obind m' f'"
  by (cases m') auto

section \<open>Integers and characters\<close>

type_synonym clong = "64 word"
type_synonym cint = "32 word"

text \<open>The terminating NUL of a C string.\<close>

abbreviation NUL :: char where "NUL \<equiv> CHR 0x00"
abbreviation CR :: char where "CR \<equiv> CHR 0x0D"
abbreviation LF :: char where "LF \<equiv> CHR 0x0A"

abbreviation byte :: "char \<Rightarrow> nat" where "byte c \<equiv> of_char c"

text \<open>\<^verbatim>\<open>isspace\<close>, \<^verbatim>\<open>isdigit\<close>, \<^verbatim>\<open>isprint\<close>, \<^verbatim>\<open>tolower\<close> and \<^verbatim>\<open>toupper\<close> in the C locale.\<close>

definition isspace :: "char \<Rightarrow> bool" where
  "isspace c \<longleftrightarrow> byte c = 32 \<or> (9 \<le> byte c \<and> byte c \<le> 13)"

definition isdigit :: "char \<Rightarrow> bool" where
  "isdigit c \<longleftrightarrow> 48 \<le> byte c \<and> byte c \<le> 57"

definition isprint :: "char \<Rightarrow> bool" where
  "isprint c \<longleftrightarrow> 32 \<le> byte c \<and> byte c \<le> 126"

definition tolower :: "char \<Rightarrow> char" where
  "tolower c = (if 65 \<le> byte c \<and> byte c \<le> 90 then char_of (byte c + 32) else c)"

definition toupper :: "char \<Rightarrow> char" where
  "toupper c = (if 97 \<le> byte c \<and> byte c \<le> 122 then char_of (byte c - 32) else c)"

lemmas [char_class] = isspace_def isdigit_def isprint_def

lemma byte_less [simp]: "byte c < 256"
  by (rule nat_of_char_less_256)

lemma byte_inject [simp]: "byte c = byte d \<longleftrightarrow> c = d"
  by simp

text \<open>The character of a decimal digit, \<^verbatim>\<open>'0' + d\<close>.\<close>

definition digit_char :: "nat \<Rightarrow> char" where
  "digit_char d = char_of (48 + d)"

lemma byte_digit_char: "d < 10 \<Longrightarrow> byte (digit_char d) = 48 + d"
  by (simp add: digit_char_def)

lemma digit_char_literals [simp]:
  "digit_char 0 = CHR ''0''" "digit_char (Suc 0) = CHR ''1''" "digit_char 1 = CHR ''1''"
  "digit_char 2 = CHR ''2''" "digit_char 3 = CHR ''3''" "digit_char 4 = CHR ''4''"
  "digit_char 5 = CHR ''5''" "digit_char 6 = CHR ''6''" "digit_char 7 = CHR ''7''"
  "digit_char 8 = CHR ''8''" "digit_char 9 = CHR ''9''"
  by (simp_all add: digit_char_def char_of_def bit_iff_odd)

lemma isdigit_digit_char [simp]: "d < 10 \<Longrightarrow> isdigit (digit_char d)"
  by (simp add: isdigit_def byte_digit_char)

section \<open>C strings\<close>

text \<open>The contents of a C string that starts at the given characters: up to the first NUL.\<close>

definition c_str :: "string \<Rightarrow> string" where
  "c_str s = takeWhile (\<lambda>c. c \<noteq> NUL) s"

definition no_nul :: "string \<Rightarrow> bool" where
  "no_nul s \<longleftrightarrow> NUL \<notin> set s"

lemma c_str_no_nul [simp]: "no_nul s \<Longrightarrow> c_str s = s"
  by (simp add: c_str_def no_nul_def takeWhile_eq_all_conv) blast

lemma no_nul_c_str [simp]: "no_nul (c_str s)"
  by (auto simp: c_str_def no_nul_def dest: set_takeWhileD)

lemma no_nul_simps [simp]:
  "no_nul []" "no_nul (c # s) \<longleftrightarrow> c \<noteq> NUL \<and> no_nul s" "no_nul (s @ t) \<longleftrightarrow> no_nul s \<and> no_nul t"
  by (auto simp: no_nul_def)

lemma no_nul_take [intro]: "no_nul s \<Longrightarrow> no_nul (take n s)"
  by (auto simp: no_nul_def dest: in_set_takeD)

lemma no_nul_drop [intro]: "no_nul s \<Longrightarrow> no_nul (drop n s)"
  by (auto simp: no_nul_def dest: in_set_dropD)

lemma c_str_idem [simp]: "c_str (c_str s) = c_str s"
  by simp

lemma length_c_str_le: "length (c_str s) \<le> length s"
  by (simp add: c_str_def length_takeWhile_le)

lemma c_str_append_nul: "no_nul s \<Longrightarrow> c_str (s @ NUL # t) = s"
  by (simp add: c_str_def no_nul_def) (subst takeWhile_append2, auto)

text \<open>\<^verbatim>\<open>strncmp(a, b, n) == 0\<close>.\<close>

definition strncmp_eq :: "string \<Rightarrow> string \<Rightarrow> nat \<Rightarrow> bool" where
  "strncmp_eq a b n \<longleftrightarrow> take n (c_str a) = take n (c_str b)"

lemma find_append [simp]:
  "find P (xs @ ys) = (case find P xs of None \<Rightarrow> find P ys | Some x \<Rightarrow> Some x)"
  by (induction xs) auto

section \<open>Decimal numbers\<close>

text \<open>The decimal digits of a number, as \<^verbatim>\<open>printf\<close> writes them.\<close>

fun dec :: "nat \<Rightarrow> string" where
  "dec n = (if n < 10 then [digit_char n] else dec (n div 10) @ [digit_char (n mod 10)])"

declare dec.simps [simp del]

text \<open>The value of a string of digits.\<close>

definition undec :: "string \<Rightarrow> nat" where
  "undec s = foldl (\<lambda>v c. 10 * v + (byte c - 48)) 0 s"

lemma undec_snoc [simp]: "undec (s @ [c]) = 10 * undec s + (byte c - 48)"
  by (simp add: undec_def)

lemma undec_Nil [simp]: "undec [] = 0"
  by (simp add: undec_def)

lemma dec_nonempty [simp]: "dec n \<noteq> []"
  by (subst dec.simps) simp

lemma dec_isdigit: "c \<in> set (dec n) \<Longrightarrow> isdigit c"
proof (induction n rule: dec.induct)
  case (1 n)
  show ?case
  proof (cases "n < 10")
    case True
    then show ?thesis using "1.prems" by (subst (asm) dec.simps) simp
  next
    case False
    then show ?thesis using 1 by (subst (asm) dec.simps) auto
  qed
qed

lemma undec_dec [simp]: "undec (dec n) = n"
proof (induction n rule: dec.induct)
  case (1 n)
  show ?case
  proof (cases "n < 10")
    case True
    then show ?thesis
      by (subst dec.simps) (simp add: undec_def byte_digit_char)
  next
    case False
    then show ?thesis using 1
      by (subst dec.simps) (simp add: byte_digit_char)
  qed
qed

lemma dec_inject [simp]: "dec m = dec n \<longleftrightarrow> m = n"
  by (metis undec_dec)

lemma isdigit_not [simp]: "\<not> isdigit CR" "\<not> isdigit LF" "\<not> isdigit NUL"
    "\<not> isdigit CHR ''_''" "\<not> isdigit CHR ''-''" "\<not> isdigit CHR ''+''" "\<not> isdigit CHR '' ''"
    "\<not> isdigit CHR ''/''" "\<not> isdigit CHR 0x22" "\<not> isdigit CHR ''$''"
  by (simp_all add: isdigit_def)

lemma isdigit_not_space: "isdigit c \<Longrightarrow> \<not> isspace c"
  by (simp add: isdigit_def isspace_def)

lemma no_nul_dec [simp]: "no_nul (dec n)"
  using dec_isdigit [of NUL n] by (auto simp: no_nul_def)

lemma takeWhile_dec [simp]:
  "\<not> isdigit c \<Longrightarrow> takeWhile isdigit (dec n @ c # s) = dec n"
  by (subst takeWhile_append2) (auto simp: dec_isdigit)

lemma takeWhile_dec_all [simp]: "takeWhile isdigit (dec n) = dec n"
  by (auto simp: takeWhile_eq_all_conv dec_isdigit)

text \<open>A digit string and a terminator split uniquely.\<close>

lemma dec_append_eqD:
  assumes "dec m @ c # s = dec n @ d # t" and "\<not> isdigit c" and "\<not> isdigit d"
  shows "m = n \<and> c = d \<and> s = t"
proof -
  have "takeWhile isdigit (dec m @ c # s) = takeWhile isdigit (dec n @ d # t)"
    using assms(1) by simp
  then have "m = n" using assms(2,3) by simp
  with assms(1) show ?thesis by simp
qed

text \<open>\<^verbatim>\<open>%lu\<close> and \<^verbatim>\<open>%ld\<close> of a \<^verbatim>\<open>long\<close>, \<^verbatim>\<open>%d\<close> of an integer.\<close>

definition show_int :: "int \<Rightarrow> string" where
  "show_int i = (if i < 0 then CHR ''-'' # dec (nat (- i)) else dec (nat i))"

definition show_ulong :: "clong \<Rightarrow> string" where
  "show_ulong w = dec (unat w)"

definition show_long :: "clong \<Rightarrow> string" where
  "show_long w = show_int (sint w)"

lemma show_ulong_inject [simp]: "show_ulong v = show_ulong w \<longleftrightarrow> v = w"
  by (simp add: show_ulong_def word_unat_eq_iff)

lemma no_nul_show_ulong [simp]: "no_nul (show_ulong w)"
  by (simp add: show_ulong_def)

lemma no_nul_show_long [simp]: "no_nul (show_long w)"
  by (simp add: show_long_def show_int_def)

lemma clong_sint_bounds: "- (2 ^ 63) \<le> sint (w :: clong)" "sint (w :: clong) < 2 ^ 63"
  using sint_ge [of w] sint_lt [of w] by simp_all

lemma sint_nonneg_unat: "0 \<le> sint (w :: clong) \<Longrightarrow> nat (sint w) = unat w"
  using clong_sint_bounds [of w]
  by (simp add: unat_eq_nat_uint uint_sint take_bit_int_eq_self)

lemma show_long_nonneg: "0 \<le> sint w \<Longrightarrow> show_long w = show_ulong w"
  by (simp add: show_long_def show_int_def show_ulong_def sint_nonneg_unat)


text \<open>\<^verbatim>\<open>strtol(s, NULL, 10)\<close>: blanks, an optional sign, digits, clamped to the range of \<^verbatim>\<open>long\<close>.\<close>

definition strtol :: "string \<Rightarrow> clong" where
  "strtol s =
     (let t = dropWhile isspace s;
          neg = (t \<noteq> [] \<and> hd t = CHR ''-'');
          u = (if t \<noteq> [] \<and> (hd t = CHR ''-'' \<or> hd t = CHR ''+'') then tl t else t);
          v = int (undec (takeWhile isdigit u))
      in word_of_int (if neg then max (- (2 ^ 63)) (- v) else min (2 ^ 63 - 1) v))"

lemma dec_hd: "\<exists>c cs. dec n = c # cs \<and> isdigit c"
  by (metis dec_isdigit dec_nonempty list.set_intros(1) neq_Nil_conv)

lemma isdigit_not_sign: "isdigit c \<Longrightarrow> c \<noteq> CHR ''-'' \<and> c \<noteq> CHR ''+''"
  by (auto simp: isdigit_def)

lemma strtol_dec_gen:
  assumes "takeWhile isdigit (dec n @ t) = dec n"
  shows "strtol (dec n @ t) = word_of_int (min (2 ^ 63 - 1) (int n))"
proof -
  obtain c cs where c: "dec n = c # cs" "isdigit c" using dec_hd by blast
  have "dropWhile isspace (dec n @ t) = dec n @ t"
    using c by (simp add: isdigit_not_space)
  moreover have "hd (dec n @ t) = c" using c by simp
  ultimately show ?thesis
    using assms isdigit_not_sign [OF c(2)] c by (simp add: strtol_def Let_def) (metis undec_dec)
qed

lemma strtol_neg_dec_gen:
  assumes "takeWhile isdigit (dec n @ t) = dec n"
  shows "strtol (CHR ''-'' # dec n @ t) = word_of_int (max (- (2 ^ 63)) (- int n))"
  using assms by (simp add: strtol_def isspace_def)

text \<open>\<^verbatim>\<open>strtol\<close> reads back what \<^verbatim>\<open>%ld\<close> wrote, whatever the value, and what \<^verbatim>\<open>%lu\<close> wrote when the
  value is not negative; a negative one comes back as \<^verbatim>\<open>LONG_MAX\<close>.\<close>

lemma strtol_show_long [simp]: "strtol (show_long w) = w"
proof (cases "sint w < 0")
  case True
  have "show_long w = CHR ''-'' # dec (nat (- sint w)) @ []"
    using True by (simp add: show_long_def show_int_def)
  then show ?thesis
    using True strtol_neg_dec_gen [of "nat (- sint w)" "[]"] clong_sint_bounds [of w]
    by (simp add: max_def)
next
  case False
  have "show_long w = dec (nat (sint w)) @ []"
    using False by (simp add: show_long_def show_int_def)
  moreover have "min (2 ^ 63 - 1) (sint w) = sint w"
    using clong_sint_bounds [of w] by (simp add: min_def)
  ultimately show ?thesis
    using False strtol_dec_gen [of "nat (sint w)" "[]"] by simp
qed

lemma strtol_show_ulong:
  "strtol (show_ulong w) = (if 0 \<le> sint w then w else 9223372036854775807)"
proof (cases "0 \<le> sint w")
  case True
  then show ?thesis by (simp add: show_long_nonneg [symmetric])
next
  case False
  have "uint w = sint w + 2 ^ 64"
  proof -
    have "uint w = (sint w) mod 2 ^ 64" by (simp add: uint_sint take_bit_eq_mod)
    also have "\<dots> = (sint w + 2 ^ 64) mod 2 ^ 64" by simp
    also have "\<dots> = sint w + 2 ^ 64"
      using False clong_sint_bounds [of w] by (intro mod_pos_pos_trivial) auto
    finally show ?thesis .
  qed
  then have "2 ^ 63 - 1 \<le> int (unat w)" using clong_sint_bounds [of w] by simp
  then show ?thesis
    using False strtol_dec_gen [of "unat w" "[]"]
    by (simp add: show_ulong_def min_def)
qed

lemma strtol_show_ulong_nonneg [simp]: "0 \<le> sint w \<Longrightarrow> strtol (show_ulong w) = w"
  by (simp add: strtol_show_ulong)

text \<open>\<^verbatim>\<open>strtol\<close> on a string of digits; dropping digits from the front never makes it larger.\<close>

lemma strtol_digits:
  assumes "\<And>c. c \<in> set s \<Longrightarrow> isdigit c"
  shows "strtol s = word_of_int (min (2 ^ 63 - 1) (int (undec s)))"
proof (cases s)
  case Nil
  then show ?thesis by (simp add: strtol_def)
next
  case (Cons c cs)
  then have "isdigit c" using assms by simp
  then have "dropWhile isspace s = s" and "hd s \<noteq> CHR ''-''" and "hd s \<noteq> CHR ''+''"
    using Cons by (auto simp: isdigit_not_space dest: isdigit_not_sign)
  moreover have "takeWhile isdigit s = s" using assms by (auto simp: takeWhile_eq_all_conv)
  ultimately show ?thesis by (simp add: strtol_def del: takeWhile_eq_all_conv)
qed

lemma undec_foldl: "foldl (\<lambda>v c. 10 * v + (byte c - 48)) v s = v * 10 ^ length s + undec s"
proof (induction s arbitrary: v rule: rev_induct)
  case (snoc c s)
  then show ?case by (simp add: algebra_simps)
qed simp

lemma undec_tl_le: "undec (drop 1 s) \<le> undec s"
proof (cases s)
  case (Cons c cs)
  then have "undec s = (byte c - 48) * 10 ^ length cs + undec cs"
    using undec_foldl [of "byte c - 48" cs] by (simp add: undec_def)
  then show ?thesis using Cons by simp
qed simp

lemma strtol_drop1_le:
  assumes "0 \<le> sint w"
  shows "uint (strtol (drop 1 (show_ulong w))) \<le> uint w"
proof -
  have "strtol (drop 1 (show_ulong w)) = word_of_int (min (2 ^ 63 - 1) (int (undec (drop 1 (dec (unat w))))))"
    unfolding show_ulong_def by (rule strtol_digits) (auto dest: in_set_dropD dec_isdigit)
  moreover have "undec (drop 1 (dec (unat w))) \<le> unat w"
    using undec_tl_le [of "dec (unat w)"] by simp
  then have "int (undec (drop 1 (dec (unat w)))) \<le> uint w" by (simp only: uint_nat of_nat_le_iff)
  ultimately show ?thesis
    by (simp add: uint_word_of_int take_bit_int_eq_self min_def)
qed

lemma strtol_drop1_digit: "unat w < 10 \<Longrightarrow> strtol (drop 1 (show_ulong w)) = 0"
  by (simp add: show_ulong_def dec.simps [of "unat w"] strtol_def)

section \<open>Stateful operations that may fault\<close>

text \<open>
  An operation of the file system layer runs against a state (the database server as seen through
  the connection) and returns a value or faults. \<open>wp m Q s\<close>: from \<open>s\<close> the operation \<open>m\<close> returns
  without fault and its value and final state satisfy \<open>Q\<close>.
\<close>

type_synonym ('s, 'a) op = "'s \<Rightarrow> 'a outcome \<times> 's"

definition ret :: "'a \<Rightarrow> ('s, 'a) op" where
  "ret x = (\<lambda>s. (Ok x, s))"

definition fail :: "fault \<Rightarrow> ('s, 'a) op" where
  "fail e = (\<lambda>s. (Fault e, s))"

definition lift :: "'a outcome \<Rightarrow> ('s, 'a) op" where
  "lift r = (\<lambda>s. (r, s))"

definition bind :: "('s, 'a) op \<Rightarrow> ('a \<Rightarrow> ('s, 'b) op) \<Rightarrow> ('s, 'b) op" where
  "bind m f = (\<lambda>s. case m s of (Ok x, s') \<Rightarrow> f x s' | (Fault e, s') \<Rightarrow> (Fault e, s'))"

definition wp :: "('s, 'a) op \<Rightarrow> ('a \<Rightarrow> 's \<Rightarrow> bool) \<Rightarrow> 's \<Rightarrow> bool" where
  "wp m Q s \<longleftrightarrow> (case m s of (Ok x, s') \<Rightarrow> Q x s' | (Fault e, s') \<Rightarrow> False)"

lemma wp_ret [wp_rules, simp]: "wp (ret x) Q = Q x"
  by (simp add: wp_def ret_def fun_eq_iff)

lemma wp_bind [wp_rules, simp]: "wp (bind m f) Q s = wp m (\<lambda>x. wp (f x) Q) s"
  by (auto simp: wp_def bind_def split: prod.splits outcome.splits)

lemma wp_fail [wp_rules, simp]: "\<not> wp (fail e) Q s"
  by (simp add: wp_def fail_def)

lemma wp_lift [wp_rules, simp]: "wp (lift r) Q s \<longleftrightarrow> (\<exists>x. r = Ok x \<and> Q x s)"
  by (cases r) (auto simp: wp_def lift_def)

lemma wp_mono: "wp m Q s \<Longrightarrow> (\<And>x s'. Q x s' \<Longrightarrow> R x s') \<Longrightarrow> wp m R s"
  by (auto simp: wp_def split: prod.splits outcome.splits)

lemma wp_run: "wp m Q s \<Longrightarrow> \<exists>x s'. m s = (Ok x, s') \<and> Q x s'"
  by (auto simp: wp_def split: prod.splits outcome.splits)

lemma wp_if [wp_rules]:
  "wp (if b then m else n) Q s = (if b then wp m Q s else wp n Q s)"
  by simp

lemma bind_ret [simp]: "bind (ret x) f = f x"
  by (simp add: bind_def ret_def)

lemma bind_fail [simp]: "bind (fail e) f = fail e"
  by (simp add: bind_def fail_def)

lemma bind_assoc: "bind (bind m f) g = bind m (\<lambda>x. bind (f x) g)"
  by (auto simp: bind_def fun_eq_iff split: prod.splits outcome.splits)

text \<open>\<open>wlp m Q s\<close>: if \<open>m\<close> returns from \<open>s\<close> without fault, its value and final state satisfy \<open>Q\<close>.\<close>

definition wlp :: "('s, 'a) op \<Rightarrow> ('a \<Rightarrow> 's \<Rightarrow> bool) \<Rightarrow> 's \<Rightarrow> bool" where
  "wlp m Q s \<longleftrightarrow> (case m s of (Ok x, s') \<Rightarrow> Q x s' | (Fault e, s') \<Rightarrow> True)"

lemma wlp_simps [simp]:
  "wlp (ret x) Q = Q x" "wlp (fail e) Q s"
  "wlp (lift r) Q s \<longleftrightarrow> (\<forall>x. r = Ok x \<longrightarrow> Q x s)"
  "wlp (bind m f) Q s = wlp m (\<lambda>x. wlp (f x) Q) s"
  by (auto simp: wlp_def ret_def fail_def lift_def bind_def fun_eq_iff
      split: prod.splits outcome.splits)

lemma wp_wlp: "wp m Q s \<Longrightarrow> wlp m Q s"
  by (auto simp: wp_def wlp_def split: prod.splits outcome.splits)

lemma wlp_mono: "wlp m Q s \<Longrightarrow> (\<And>x s'. Q x s' \<Longrightarrow> R x s') \<Longrightarrow> wlp m R s"
  by (auto simp: wlp_def split: prod.splits outcome.splits)

lemma wlpD: "wlp m Q s \<Longrightarrow> m s = (Ok x, s') \<Longrightarrow> Q x s'"
  by (simp add: wlp_def)

section \<open>Operations that may not end\<close>

type_synonym ('s, 'a) pop = "'s \<Rightarrow> ('a outcome \<times> 's) option"

definition ended :: "('s, 'a) op \<Rightarrow> ('s, 'a) pop" where
  "ended m s = Some (m s)"

definition pbind :: "('s, 'a) pop \<Rightarrow> ('a \<Rightarrow> ('s, 'b) pop) \<Rightarrow> ('s, 'b) pop" where
  "pbind m f s =
     (case m s of
        None \<Rightarrow> None
      | Some (Fault e, s') \<Rightarrow> Some (Fault e, s')
      | Some (Ok x, s') \<Rightarrow> f x s')"

text \<open>The run ends, without a fault, and the result satisfies the postcondition.\<close>

definition pwp :: "('s, 'a) pop \<Rightarrow> ('a \<Rightarrow> 's \<Rightarrow> bool) \<Rightarrow> 's \<Rightarrow> bool" where
  "pwp m Q s \<longleftrightarrow> (\<exists>x s'. m s = Some (Ok x, s') \<and> Q x s')"

lemma pwp_ended [simp]: "pwp (ended m) Q s \<longleftrightarrow> wp m Q s"
  by (cases "m s") (auto simp: pwp_def ended_def wp_def split: outcome.split)

lemma pwp_pbind [simp]: "pwp (pbind m f) Q s \<longleftrightarrow> pwp m (\<lambda>x. pwp (f x) Q) s"
  by (auto simp: pwp_def pbind_def split: option.splits outcome.splits)

lemma pwp_mono: "pwp m Q s \<Longrightarrow> (\<And>x s'. Q x s' \<Longrightarrow> R x s') \<Longrightarrow> pwp m R s"
  by (auto simp: pwp_def)

lemma pwp_run_eq: "pwp m (\<lambda>x s'. x = y \<and> R s') s \<Longrightarrow> \<exists>s'. m s = Some (Ok y, s') \<and> R s'"
  by (auto simp: pwp_def)

end
