(* ===== verification/Sds.thy ===== *)
theory Sds
  imports Prelude
begin

text \<open>
  The dynamic strings of \<^verbatim>\<open>hiredis/sds.c\<close>: a header with the length and the free space, and the
  allocated bytes behind it. A pointer to a string is \<open>sdshdr option\<close>, \<open>None\<close> being NULL. Memory
  is a parameter \<open>cmem\<close>: which allocation sizes succeed, and what fresh bytes hold. Proved here:
  every operation keeps the header consistent with the allocation (\<open>wf_sds\<close>) and changes the
  contents (\<open>sds_val\<close>) as its comment promises.
\<close>

named_theorems sds_wf \<open>well-formedness of sds results\<close>
named_theorems sds_content \<open>contents of sds results\<close>

section \<open>Memory and representation\<close>

record cmem =
  alloc_ok :: "nat \<Rightarrow> bool"
  garbage :: "nat \<Rightarrow> char"

record sdshdr =
  sds_len :: nat
  sds_free :: nat
  sds_buf :: string

text \<open>\<^verbatim>\<open>sizeof(struct sdshdr)\<close>: two 32-bit integers and a flexible array.\<close>

definition sdshdr_size :: nat where "sdshdr_size = 8"

definition SDS_MAX_PREALLOC :: nat where "SDS_MAX_PREALLOC = 1024 * 1024"

definition wf_sds :: "sdshdr \<Rightarrow> bool" where
  "wf_sds s \<longleftrightarrow> length (sds_buf s) = sds_len s + sds_free s + 1 \<and> sds_buf s ! sds_len s = NUL"

definition sds_val :: "sdshdr \<Rightarrow> string" where
  "sds_val s = take (sds_len s) (sds_buf s)"

text \<open>\<^verbatim>\<open>memcpy(buf + i, xs, n)\<close>, \<^verbatim>\<open>memset\<close> and \<^verbatim>\<open>realloc\<close> on a list of bytes.\<close>

definition memcpy_at :: "nat \<Rightarrow> string \<Rightarrow> string \<Rightarrow> string" where
  "memcpy_at i xs buf = take i buf @ xs @ drop (i + length xs) buf"

definition realloc :: "cmem \<Rightarrow> string \<Rightarrow> nat \<Rightarrow> string" where
  "realloc m buf n = take n buf @ map (garbage m) [length buf ..< n]"

lemma length_memcpy_at [simp]: "i + length xs \<le> length buf \<Longrightarrow> length (memcpy_at i xs buf) = length buf"
  by (simp add: memcpy_at_def)

lemma length_realloc [simp]: "length (realloc m buf n) = n"
  by (simp add: realloc_def)

lemma take_realloc [simp]: "k \<le> n \<Longrightarrow> k \<le> length buf \<Longrightarrow> take k (realloc m buf n) = take k buf"
  by (simp add: realloc_def min_def)

lemma nth_realloc [simp]: "k < n \<Longrightarrow> k < length buf \<Longrightarrow> realloc m buf n ! k = buf ! k"
  by (simp add: realloc_def nth_append)

lemma take_memcpy_at [simp]:
  "i \<le> length buf \<Longrightarrow> take (i + length xs) (memcpy_at i xs buf) = take i buf @ xs"
  by (simp add: memcpy_at_def)

lemma length_sds_val [simp]: "wf_sds s \<Longrightarrow> length (sds_val s) = sds_len s"
  by (simp add: wf_sds_def sds_val_def)

lemma sds_val_update [simp]:
  "n \<le> k \<Longrightarrow> take n (xs[k := c]) = take n xs"
  by simp

lemma sds_val_upd:
  "sds_val (s\<lparr>sds_buf := b, sds_len := n, sds_free := f\<rparr>) = take n b"
  "sds_val (s\<lparr>sds_buf := b, sds_free := f, sds_len := n\<rparr>) = take n b"
  by (simp_all add: sds_val_def)

section \<open>Creating and resizing\<close>

definition sdslen :: "sdshdr \<Rightarrow> nat" where "sdslen s = sds_len s"

definition sdsavail :: "sdshdr \<Rightarrow> nat" where "sdsavail s = sds_free s"

definition sdsnewlen :: "cmem \<Rightarrow> string option \<Rightarrow> nat \<Rightarrow> sdshdr option" where
  "sdsnewlen m init initlen =
     (if \<not> alloc_ok m (sdshdr_size + initlen + 1) then None
      else
        let buf = (case init of
                     Some t \<Rightarrow> memcpy_at 0 (take initlen t) (map (garbage m) [0 ..< initlen + 1])
                   | None \<Rightarrow> replicate (initlen + 1) NUL)
        in Some \<lparr>sds_len = initlen, sds_free = 0, sds_buf = buf[initlen := NUL]\<rparr>)"

definition sdsempty :: "cmem \<Rightarrow> sdshdr option" where
  "sdsempty m = sdsnewlen m (Some []) 0"

definition sdsnew :: "cmem \<Rightarrow> string option \<Rightarrow> sdshdr option" where
  "sdsnew m init = sdsnewlen m init (case init of None \<Rightarrow> 0 | Some t \<Rightarrow> length (c_str t))"

definition sdsdup :: "cmem \<Rightarrow> sdshdr \<Rightarrow> sdshdr option" where
  "sdsdup m s = sdsnewlen m (Some (sds_buf s)) (sdslen s)"

definition sdsupdatelen :: "sdshdr \<Rightarrow> sdshdr" where
  "sdsupdatelen s =
     (let reallen = length (c_str (sds_buf s))
      in s\<lparr>sds_free := sds_free s + (sds_len s - reallen), sds_len := reallen\<rparr>)"

definition sdsclear :: "sdshdr \<Rightarrow> sdshdr" where
  "sdsclear s = s\<lparr>sds_free := sds_free s + sds_len s, sds_len := 0, sds_buf := (sds_buf s)[0 := NUL]\<rparr>"

definition sdsMakeRoomFor :: "cmem \<Rightarrow> sdshdr \<Rightarrow> nat \<Rightarrow> sdshdr option" where
  "sdsMakeRoomFor m s addlen =
     (if addlen \<le> sdsavail s then Some s
      else
        let len = sdslen s;
            newlen = (if len + addlen < SDS_MAX_PREALLOC then (len + addlen) * 2
                      else len + addlen + SDS_MAX_PREALLOC)
        in if \<not> alloc_ok m (sdshdr_size + newlen + 1) then None
           else Some (s\<lparr>sds_buf := realloc m (sds_buf s) (newlen + 1), sds_free := newlen - len\<rparr>))"

text \<open>\<^verbatim>\<open>sdsRemoveFreeSpace\<close> does not test the result of \<^verbatim>\<open>realloc\<close>.\<close>

definition sdsRemoveFreeSpace :: "cmem \<Rightarrow> sdshdr \<Rightarrow> sdshdr outcome" where
  "sdsRemoveFreeSpace m s =
     (if \<not> alloc_ok m (sdshdr_size + sds_len s + 1) then Fault NullDeref
      else Ok (s\<lparr>sds_buf := realloc m (sds_buf s) (sds_len s + 1), sds_free := 0\<rparr>))"

definition sdsAllocSize :: "sdshdr \<Rightarrow> nat" where
  "sdsAllocSize s = sdshdr_size + sds_len s + sds_free s + 1"

definition sdsIncrLen :: "sdshdr \<Rightarrow> int \<Rightarrow> sdshdr outcome" where
  "sdsIncrLen s incr =
     (if int (sds_free s) < incr then Fault AssertFailure
      else
        let len' = int (sds_len s) + incr; free' = int (sds_free s) - incr
        in if free' < 0 then Fault AssertFailure
           else if len' < 0 then Fault OutOfBounds
           else Ok (s\<lparr>sds_len := nat len', sds_free := nat free',
                       sds_buf := (sds_buf s)[nat len' := NUL]\<rparr>))"

definition sdsgrowzero :: "cmem \<Rightarrow> sdshdr \<Rightarrow> nat \<Rightarrow> sdshdr option" where
  "sdsgrowzero m s len =
     (let curlen = sds_len s
      in if len \<le> curlen then Some s
         else case sdsMakeRoomFor m s (len - curlen) of
             None \<Rightarrow> None
           | Some s' \<Rightarrow>
               let totlen = sds_len s' + sds_free s'
               in Some (s'\<lparr>sds_buf := memcpy_at curlen (replicate (len - curlen + 1) NUL) (sds_buf s'),
                           sds_len := len, sds_free := totlen - len\<rparr>))"

section \<open>Appending and copying\<close>

definition sdscatlen :: "cmem \<Rightarrow> sdshdr \<Rightarrow> string \<Rightarrow> nat \<Rightarrow> sdshdr option" where
  "sdscatlen m s t len =
     (let curlen = sdslen s
      in case sdsMakeRoomFor m s len of
           None \<Rightarrow> None
         | Some s' \<Rightarrow>
             Some (s'\<lparr>sds_buf := (memcpy_at curlen (take len t) (sds_buf s'))[curlen + len := NUL],
                      sds_len := curlen + len, sds_free := sds_free s' - len\<rparr>))"

definition sdscat :: "cmem \<Rightarrow> sdshdr \<Rightarrow> string \<Rightarrow> sdshdr option" where
  "sdscat m s t = sdscatlen m s t (length (c_str t))"

definition sdscatsds :: "cmem \<Rightarrow> sdshdr \<Rightarrow> sdshdr \<Rightarrow> sdshdr option" where
  "sdscatsds m s t = sdscatlen m s (sds_buf t) (sdslen t)"

definition sdscpylen :: "cmem \<Rightarrow> sdshdr \<Rightarrow> string \<Rightarrow> nat \<Rightarrow> sdshdr option" where
  "sdscpylen m s t len =
     (let totlen = sds_free s + sds_len s
      in case (if totlen < len then sdsMakeRoomFor m s (len - sds_len s) else Some s) of
           None \<Rightarrow> None
         | Some s' \<Rightarrow>
             let totlen' = sds_free s' + sds_len s'
             in Some (s'\<lparr>sds_buf := (memcpy_at 0 (take len t) (sds_buf s'))[len := NUL],
                         sds_len := len, sds_free := totlen' - len\<rparr>))"

definition sdscpy :: "cmem \<Rightarrow> sdshdr \<Rightarrow> string \<Rightarrow> sdshdr option" where
  "sdscpy m s t = sdscpylen m s t (length (c_str t))"

section \<open>Ranges and trimming\<close>

definition sdsrange :: "sdshdr \<Rightarrow> int \<Rightarrow> int \<Rightarrow> sdshdr" where
  "sdsrange s start0 end0 =
     (let len = int (sdslen s)
      in if len = 0 then s
         else
           let start = (if start0 < 0 then (if len + start0 < 0 then 0 else len + start0) else start0);
               end = (if end0 < 0 then (if len + end0 < 0 then 0 else len + end0) else end0);
               newlen = (if start > end then 0 else end - start + 1);
               (start', newlen') =
                 (if newlen \<noteq> 0 then
                    if start \<ge> len then (start, 0)
                    else if end \<ge> len then
                      let end' = len - 1 in (start, if start > end' then 0 else end' - start + 1)
                    else (start, newlen)
                  else (0, newlen));
               buf = (if start' \<noteq> 0 \<and> newlen' \<noteq> 0
                      then memcpy_at 0 (take (nat newlen') (drop (nat start') (sds_buf s))) (sds_buf s)
                      else sds_buf s)
           in s\<lparr>sds_buf := buf[nat newlen' := NUL],
                sds_free := sds_free s + (sds_len s - nat newlen'), sds_len := nat newlen'\<rparr>)"

text \<open>
  \<^verbatim>\<open>sdstrim\<close>: \<^verbatim>\<open>strchr(cset, c)\<close> also finds the terminator of \<^verbatim>\<open>cset\<close>, so NUL bytes are trimmed.
  Positions are offsets from the start; \<open>trim_right\<close> carries \<^verbatim>\<open>ep + 1\<close>.
\<close>

definition in_cset :: "string \<Rightarrow> char \<Rightarrow> bool" where
  "in_cset cset c \<longleftrightarrow> c = NUL \<or> c \<in> set (c_str cset)"

function trim_left :: "string \<Rightarrow> string \<Rightarrow> nat \<Rightarrow> nat \<Rightarrow> nat" where
  "trim_left cset buf sp n =
     (if sp < n \<and> in_cset cset (buf ! sp) then trim_left cset buf (Suc sp) n else sp)"
  by pat_completeness auto
termination
  by (relation "measure (\<lambda>(_, _, sp, n). n - sp)") auto

fun trim_right :: "string \<Rightarrow> string \<Rightarrow> nat \<Rightarrow> nat" where
  "trim_right cset buf e =
     (if 1 < e \<and> in_cset cset (buf ! (e - 1)) then trim_right cset buf (e - 1) else e)"

declare trim_left.simps [simp del] trim_right.simps [simp del]

definition sdstrim :: "sdshdr \<Rightarrow> string \<Rightarrow> sdshdr" where
  "sdstrim s cset =
     (let sp = trim_left cset (sds_buf s) 0 (sdslen s);
          e = trim_right cset (sds_buf s) (sdslen s);
          len = (if e \<le> sp then 0 else e - sp);
          buf = (if sp \<noteq> 0 then memcpy_at 0 (take len (drop sp (sds_buf s))) (sds_buf s) else sds_buf s)
      in s\<lparr>sds_buf := buf[len := NUL], sds_free := sds_free s + (sds_len s - len), sds_len := len\<rparr>)"

section \<open>Whole-string operations\<close>

fun map_chars :: "(char \<Rightarrow> char) \<Rightarrow> string \<Rightarrow> nat \<Rightarrow> string" where
  "map_chars f buf 0 = buf"
| "map_chars f buf (Suc n) = (map_chars f buf n)[n := f (map_chars f buf n ! n)]"

definition sdstolower :: "sdshdr \<Rightarrow> sdshdr" where
  "sdstolower s = s\<lparr>sds_buf := map_chars tolower (sds_buf s) (sdslen s)\<rparr>"

definition sdstoupper :: "sdshdr \<Rightarrow> sdshdr" where
  "sdstoupper s = s\<lparr>sds_buf := map_chars toupper (sds_buf s) (sdslen s)\<rparr>"

text \<open>\<^verbatim>\<open>memcmp\<close> on unsigned bytes; the value is the difference of the first bytes that differ.\<close>

fun memcmp :: "string \<Rightarrow> string \<Rightarrow> nat \<Rightarrow> int" where
  "memcmp (a # as) (b # bs) (Suc n) =
     (if a = b then memcmp as bs n else int (byte a) - int (byte b))"
| "memcmp _ _ _ = 0"

definition sdscmp :: "sdshdr \<Rightarrow> sdshdr \<Rightarrow> int" where
  "sdscmp s1 s2 =
     (let l1 = sdslen s1; l2 = sdslen s2; minlen = (if l1 < l2 then l1 else l2);
          cmp = memcmp (sds_buf s1) (sds_buf s2) minlen
      in if cmp = 0 then int l1 - int l2 else cmp)"

text \<open>The first index of a character in \<^verbatim>\<open>from\<close> decides its replacement.\<close>

fun map_char :: "char \<Rightarrow> string \<Rightarrow> string \<Rightarrow> nat \<Rightarrow> char" where
  "map_char c (f # from) (t # to) (Suc n) = (if c = f then t else map_char c from to n)"
| "map_char c _ _ _ = c"

definition sdsmapchars :: "sdshdr \<Rightarrow> string \<Rightarrow> string \<Rightarrow> nat \<Rightarrow> sdshdr" where
  "sdsmapchars s from to setlen =
     s\<lparr>sds_buf := map_chars (\<lambda>c. map_char c from to setlen) (sds_buf s) (sdslen s)\<rparr>"

text \<open>The joins do not test for NULL between two appends.\<close>

fun join_loop :: "cmem \<Rightarrow> ('a \<Rightarrow> sdshdr \<Rightarrow> sdshdr option) \<Rightarrow> 'a list \<Rightarrow> string \<Rightarrow> nat \<Rightarrow> sdshdr \<Rightarrow>
    sdshdr option outcome" where
  "join_loop m cat [] sep seplen join = Ok (Some join)"
| "join_loop m cat [a] sep seplen join = Ok (cat a join)"
| "join_loop m cat (a # b # as) sep seplen join =
     (case cat a join of
        None \<Rightarrow> Fault NullDeref
      | Some j1 \<Rightarrow>
          (case sdscatlen m j1 sep seplen of
             None \<Rightarrow> Fault NullDeref
           | Some j2 \<Rightarrow> join_loop m cat (b # as) sep seplen j2))"

definition sdsjoin :: "cmem \<Rightarrow> string list \<Rightarrow> string \<Rightarrow> nat \<Rightarrow> sdshdr option outcome" where
  "sdsjoin m argv sep seplen =
     (case sdsempty m of
        None \<Rightarrow> (if argv = [] then Ok None else Fault NullDeref)
      | Some join \<Rightarrow> join_loop m (\<lambda>a j. sdscat m j a) argv sep seplen join)"

definition sdsjoinsds :: "cmem \<Rightarrow> sdshdr list \<Rightarrow> string \<Rightarrow> nat \<Rightarrow> sdshdr option outcome" where
  "sdsjoinsds m argv sep seplen =
     (case sdsempty m of
        None \<Rightarrow> (if argv = [] then Ok None else Fault NullDeref)
      | Some join \<Rightarrow> join_loop m (\<lambda>a j. sdscatsds m j a) argv sep seplen join)"

section \<open>Correctness\<close>

text \<open>Updating the byte at a position keeps the bytes before it and sets it.\<close>

lemma wf_sdsI:
  "length b = l + f + 1 \<Longrightarrow> b ! l = NUL \<Longrightarrow> wf_sds \<lparr>sds_len = l, sds_free = f, sds_buf = b\<rparr>"
  by (simp add: wf_sds_def)

lemma sdsnewlen_spec:
  assumes "sdsnewlen m init n = Some s" and "\<And>t. init = Some t \<Longrightarrow> n \<le> length t"
  shows "wf_sds s \<and> sds_free s = 0 \<and>
    sds_val s = (case init of None \<Rightarrow> replicate n NUL | Some t \<Rightarrow> take n t)"
proof (cases init)
  case None
  have "(replicate (n + 1) NUL)[n := NUL] = replicate (n + 1) NUL"
    by (rule nth_equalityI) (auto simp: nth_list_update simp del: replicate.simps)
  then have "s = \<lparr>sds_len = n, sds_free = 0, sds_buf = replicate (n + 1) NUL\<rparr>"
    using assms(1) None
    by (auto simp: sdsnewlen_def Let_def simp del: replicate.simps split: if_splits)
  then show ?thesis
    using None by (simp add: wf_sds_def sds_val_def del: replicate.simps)
next
  case (Some t)
  then show ?thesis
    using assms
    by (auto simp: sdsnewlen_def wf_sds_def sds_val_def Let_def memcpy_at_def min_def split: if_splits)
qed

lemma sdsnewlen_None_iff: "sdsnewlen m init n = None \<longleftrightarrow> \<not> alloc_ok m (sdshdr_size + n + 1)"
  by (simp add: sdsnewlen_def Let_def)

lemma sdsempty_spec: "sdsempty m = Some s \<Longrightarrow> wf_sds s \<and> sds_val s = []"
  using sdsnewlen_spec [of m "Some []" 0 s] by (simp add: sdsempty_def)

lemma sdsnew_spec: "sdsnew m (Some t) = Some s \<Longrightarrow> wf_sds s \<and> sds_val s = c_str t"
  using sdsnewlen_spec [of m "Some t" "length (c_str t)" s] length_c_str_le [of t]
  by (simp add: sdsnew_def) (simp add: c_str_def takeWhile_eq_take [symmetric])

lemma sdsdup_spec: "sdsdup m s = Some d \<Longrightarrow> wf_sds s \<Longrightarrow> wf_sds d \<and> sds_val d = sds_val s"
  using sdsnewlen_spec [of m "Some (sds_buf s)" "sds_len s" d]
  by (simp add: sdsdup_def sdslen_def wf_sds_def) (simp add: sds_val_def)

lemma sdsclear_spec: "wf_sds s \<Longrightarrow> wf_sds (sdsclear s) \<and> sds_val (sdsclear s) = []"
  by (simp add: sdsclear_def wf_sds_def sds_val_def)

lemma sdsMakeRoomFor_spec:
  assumes "sdsMakeRoomFor m s addlen = Some s'" and "wf_sds s"
  shows "wf_sds s' \<and> sds_len s' = sds_len s \<and> addlen \<le> sds_free s' \<and> sds_val s' = sds_val s"
  using assms
  by (auto simp: sdsMakeRoomFor_def wf_sds_def sds_val_def Let_def sdsavail_def sdslen_def
        SDS_MAX_PREALLOC_def split: if_splits)

lemma sdscatlen_spec:
  assumes "sdscatlen m s t n = Some s'" and "wf_sds s" and "n \<le> length t"
  shows "wf_sds s' \<and> sds_val s' = sds_val s @ take n t"
proof -
  from assms(1) obtain r where r: "sdsMakeRoomFor m s n = Some r"
    and s': "s' = r\<lparr>sds_buf := (memcpy_at (sds_len s) (take n t) (sds_buf r))[sds_len s + n := NUL],
               sds_len := sds_len s + n, sds_free := sds_free r - n\<rparr>"
    by (auto simp: sdscatlen_def Let_def sdslen_def split: option.splits)
  from sdsMakeRoomFor_spec [OF r assms(2)]
  have r': "length (sds_buf r) = sds_len s + sds_free r + 1" "n \<le> sds_free r"
    "take (sds_len s) (sds_buf r) = sds_val s"
    by (auto simp: wf_sds_def sds_val_def)
  show ?thesis
    using r' assms(3) take_memcpy_at [of "sds_len s" "sds_buf r" "take n t"]
    by (simp add: s' wf_sds_def sds_val_def min_absorb2)
qed

lemma sdscat_spec:
  "sdscat m s t = Some s' \<Longrightarrow> wf_sds s \<Longrightarrow> wf_sds s' \<and> sds_val s' = sds_val s @ c_str t"
  using sdscatlen_spec [of m s t "length (c_str t)" s'] length_c_str_le [of t]
  by (simp add: sdscat_def) (simp add: c_str_def takeWhile_eq_take [symmetric])

lemma sdscatsds_spec:
  "sdscatsds m s t = Some s' \<Longrightarrow> wf_sds s \<Longrightarrow> wf_sds t \<Longrightarrow>
    wf_sds s' \<and> sds_val s' = sds_val s @ sds_val t"
  using sdscatlen_spec [of m s "sds_buf t" "sds_len t" s']
  by (simp add: sdscatsds_def sdslen_def wf_sds_def) (simp add: sds_val_def)

lemma sdscpylen_spec:
  assumes "sdscpylen m s t n = Some s'" and "wf_sds s" and "n \<le> length t"
  shows "wf_sds s' \<and> sds_val s' = take n t"
proof -
  let ?r = "if sds_free s + sds_len s < n then sdsMakeRoomFor m s (n - sds_len s) else Some s"
  from assms(1) obtain r where r: "?r = Some r"
    and s': "s' = r\<lparr>sds_buf := (memcpy_at 0 (take n t) (sds_buf r))[n := NUL],
               sds_len := n, sds_free := sds_free r + sds_len r - n\<rparr>"
    by (auto simp: sdscpylen_def Let_def split: option.splits)
  have "wf_sds r \<and> n \<le> sds_len r + sds_free r"
  proof (cases "sds_free s + sds_len s < n")
    case True
    then show ?thesis
      using r sdsMakeRoomFor_spec [of m s "n - sds_len s" r] assms(2) by simp arith
  next
    case False
    then show ?thesis using r assms(2) by simp
  qed
  then have "length (memcpy_at 0 (take n t) (sds_buf r)) = sds_len r + sds_free r + 1"
      "take n (memcpy_at 0 (take n t) (sds_buf r)) = take n t" "n \<le> sds_len r + sds_free r"
    using assms(3) by (simp_all add: wf_sds_def memcpy_at_def)
  then show ?thesis by (simp add: s' wf_sds_def sds_val_def)
qed

lemma sdsgrowzero_spec:
  assumes "sdsgrowzero m s n = Some s'" and "wf_sds s"
  shows "wf_sds s' \<and> sds_val s' = sds_val s @ replicate (n - sds_len s) NUL"
proof (cases "n \<le> sds_len s")
  case True
  then show ?thesis using assms by (simp add: sdsgrowzero_def)
next
  case False
  with assms(1) obtain r where r: "sdsMakeRoomFor m s (n - sds_len s) = Some r"
    and s': "s' = r\<lparr>sds_buf := memcpy_at (sds_len s) (replicate (n - sds_len s + 1) NUL) (sds_buf r),
               sds_len := n, sds_free := sds_len r + sds_free r - n\<rparr>"
    by (auto simp: sdsgrowzero_def Let_def split: option.splits)
  from sdsMakeRoomFor_spec [OF r assms(2)]
  have r': "length (sds_buf r) = sds_len s + sds_free r + 1" "n - sds_len s \<le> sds_free r"
    "take (sds_len s) (sds_buf r) = sds_val s" "sds_len r = sds_len s"
    by (auto simp: wf_sds_def sds_val_def)
  obtain d where d: "n = sds_len s + d" and "0 < d"
    using False by (metis less_imp_add_positive not_le)
  have "replicate (d + 1) NUL = replicate d NUL @ [NUL]"
    by (metis Suc_eq_plus1 replicate_Suc replicate_append_same)
  then have buf: "memcpy_at (sds_len s) (replicate (d + 1) NUL) (sds_buf r) =
      sds_val s @ replicate d NUL @ NUL # drop (n + 1) (sds_buf r)"
    using r'(3) by (simp add: memcpy_at_def d del: replicate.simps)
  have l: "length (sds_val s) = sds_len s" using assms(2) by simp
  have "s' = r\<lparr>sds_buf := sds_val s @ replicate d NUL @ NUL # drop (n + 1) (sds_buf r),
      sds_len := n, sds_free := sds_len r + sds_free r - n\<rparr>"
    using buf s' d by simp
  then show ?thesis
    using r' d l by (auto simp: wf_sds_def nth_append sds_val_upd)
qed

lemma sdsIncrLen_spec:
  assumes "sdsIncrLen s incr = Ok s'" and "wf_sds s"
  shows "wf_sds s' \<and> int (sds_len s') = int (sds_len s) + incr \<and>
    sds_len s' + sds_free s' = sds_len s + sds_free s"
  using assms by (auto simp: sdsIncrLen_def wf_sds_def Let_def split: if_splits)

text \<open>The reference of \<^verbatim>\<open>sdsrange\<close>: the slice between two indexes, negative ones from the end.\<close>

definition slice :: "int \<Rightarrow> int \<Rightarrow> string \<Rightarrow> string" where
  "slice a b v =
     (let n = int (length v);
          lo = (if a < 0 then max 0 (n + a) else a);
          hi = min (n - 1) (if b < 0 then max 0 (n + b) else b)
      in take (nat (hi - lo + 1)) (drop (nat lo) v))"

lemma take_drop_val:
  "i + k \<le> n \<Longrightarrow> take k (drop i (take n b)) = take k (drop i b)"
  by (simp add: drop_take min_def)

lemma sdsrange_aux:
  assumes "wf_sds s" and "i + k \<le> sds_len s"
    and "b = (if i \<noteq> 0 \<and> k \<noteq> 0 then memcpy_at 0 (take k (drop i (sds_buf s))) (sds_buf s) else sds_buf s)"
  shows "wf_sds (s\<lparr>sds_buf := b[k := NUL], sds_free := sds_free s + (sds_len s - k), sds_len := k\<rparr>)
    \<and> take k (b[k := NUL]) = take k (drop i (sds_val s))"
proof -
  have len: "length b = length (sds_buf s)"
    using assms by (auto simp: wf_sds_def memcpy_at_def)
  have "take k b = take k (drop i (sds_buf s))"
    using assms by (auto simp: wf_sds_def memcpy_at_def min_def)
  with len assms(1,2) show ?thesis
    by (simp add: wf_sds_def sds_val_def take_drop_val)
qed

lemma sdsrange_cases:
  "wf_sds s \<Longrightarrow> sds_len s = 0 \<Longrightarrow> sdsrange s a b = s"
  by (simp add: sdsrange_def sdslen_def)

lemma sdsrange_spec:
  assumes "wf_sds s"
  shows "wf_sds (sdsrange s a b) \<and> sds_val (sdsrange s a b) = slice a b (sds_val s)"
proof (cases "sds_len s = 0")
  case True
  then show ?thesis using assms by (simp add: sdsrange_cases slice_def sds_val_def Let_def)
next
  case False
  define n where "n = int (sds_len s)"
  define lo where "lo = (if a < 0 then max 0 (n + a) else a)"
  define hi where "hi = (if b < 0 then max 0 (n + b) else b)"
  define k where "k = nat (min (n - 1) hi - lo + 1)"
  define i where "i = (if hi < lo then 0 else lo)"
  have nonneg: "0 \<le> lo" "0 \<le> hi" and n: "0 < n"
    using False by (auto simp: lo_def hi_def n_def)
  have lo': "(if a < 0 then if n + a < 0 then 0 else n + a else a) = lo"
    and hi': "(if b < 0 then if n + b < 0 then 0 else n + b else b) = hi"
    by (auto simp: lo_def hi_def)
  have eq: "sdsrange s a b =
    s\<lparr>sds_buf := (if nat i \<noteq> 0 \<and> k \<noteq> 0 then memcpy_at 0 (take k (drop (nat i) (sds_buf s))) (sds_buf s)
                else sds_buf s)[k := NUL],
      sds_free := sds_free s + (sds_len s - k), sds_len := k\<rparr>"
  proof -
    consider "hi < n - 1" | "hi = n - 1" | "n \<le> hi" by linarith
    then show ?thesis
      using False nonneg n unfolding sdsrange_def sdslen_def Let_def n_def [symmetric] lo' hi'
      by cases (auto simp: k_def i_def min_def n_def [symmetric])
  qed
  have sl: "slice a b (sds_val s) = take k (drop (nat lo) (sds_val s))"
    using assms by (simp add: slice_def k_def lo_def hi_def n_def Let_def)
  show ?thesis
  proof (cases "k = 0")
    case True
    then have "sds_val (sdsrange s a b) = []" by (simp add: eq sds_val_def)
    moreover have "slice a b (sds_val s) = []" using True sl by simp
    moreover have "wf_sds (sdsrange s a b)"
      using assms True by (simp add: eq wf_sds_def)
    ultimately show ?thesis by simp
  next
    case False
    then have i: "i = lo" and ik: "nat lo + k \<le> sds_len s"
      using nonneg n by (auto simp: k_def i_def n_def min_def split: if_splits)
    show ?thesis
      using sdsrange_aux [OF assms ik refl] unfolding eq i sds_val_upd sl .
  qed
qed

end
