(* ===== verification/Format.thy ===== *)
theory Format
  imports Sds
begin

text \<open>
  The command formatter of \<^verbatim>\<open>hiredis/hiredis.c\<close>: \<^verbatim>\<open>redisvFormatCommand\<close> splits a printf-like
  format at blanks, interpolates the arguments and writes the request in the Redis protocol. The
  variadic arguments are a list of tagged values; taking one of the wrong type is a fault. The
  printf conversions the formatter hands to the C library are \<open>printf_conv\<close>. The reference
  \<open>fmt_argv\<close> computes the argument vector on plain strings; the formatter refines it.
\<close>

section \<open>Variadic arguments and printf conversions\<close>

text \<open>
  \<open>ArgStr\<close> is a pointer to characters (a terminating NUL follows the listed ones; \<^verbatim>\<open>%b\<close> reading
  past the listed ones is out of bounds), \<open>ArgSize\<close> a \<^verbatim>\<open>size_t\<close>; a \<^verbatim>\<open>double\<close> is given by what printf writes for it under each conversion.
\<close>

datatype fmtarg =
    ArgStr string
  | ArgSize nat
  | ArgInt cint
  | ArgLong clong
  | ArgLLong clong
  | ArgDouble "string \<Rightarrow> string"

fun digits_base :: "nat \<Rightarrow> (nat \<Rightarrow> char) \<Rightarrow> nat \<Rightarrow> string" where
  "digits_base b d n =
     (if b < 2 \<or> n < b then [d n] else digits_base b d (n div b) @ [d (n mod b)])"

declare digits_base.simps [simp del]

definition hex_char :: "nat \<Rightarrow> nat \<Rightarrow> char" where
  "hex_char a d = (if d < 10 then digit_char d else char_of (a + (d - 10)))"

text \<open>
  One integer conversion \<^verbatim>\<open>%[flags][width][.precision][length]conv\<close>: sign, prefix and digits, then
  padding to the precision and to the width.
\<close>

definition printf_digits :: "char \<Rightarrow> nat \<Rightarrow> string" where
  "printf_digits conv n =
     (if conv = CHR ''o'' then digits_base 8 digit_char n
      else if conv = CHR ''x'' then digits_base 16 (hex_char 97) n
      else if conv = CHR ''X'' then digits_base 16 (hex_char 65) n
      else dec n)"

definition printf_int :: "string \<Rightarrow> nat \<Rightarrow> nat option \<Rightarrow> char \<Rightarrow> int \<Rightarrow> string" where
  "printf_int flags width prec conv v =
     (let signed = (conv = CHR ''d'' \<or> conv = CHR ''i'');
          sign = (if \<not> signed then [] else if v < 0 then ''-''
                  else if CHR ''+'' \<in> set flags then ''+''
                  else if CHR '' '' \<in> set flags then '' '' else []);
          n = nat \<bar>v\<bar>;
          ds = (if prec = Some 0 \<and> n = 0 then [] else printf_digits conv n);
          ds1 = (case prec of None \<Rightarrow> ds | Some p \<Rightarrow> replicate (p - length ds) CHR ''0'' @ ds);
          alt = (CHR ''#'' \<in> set flags);
          ds2 = (if alt \<and> conv = CHR ''o'' \<and> (ds1 = [] \<or> hd ds1 \<noteq> CHR ''0'') then CHR ''0'' # ds1 else ds1);
          prefix = (if alt \<and> n \<noteq> 0 \<and> conv = CHR ''x'' then ''0x''
                    else if alt \<and> n \<noteq> 0 \<and> conv = CHR ''X'' then ''0X'' else []);
          body = sign @ prefix @ ds2;
          pad = width - length body
      in if CHR ''-'' \<in> set flags then body @ replicate pad CHR '' ''
         else if CHR ''0'' \<in> set flags \<and> prec = None then sign @ prefix @ replicate pad CHR ''0'' @ ds2
         else replicate pad CHR '' '' @ body)"

text \<open>The value an integer argument has under a length modifier, signed or unsigned.\<close>

definition int_value :: "nat \<Rightarrow> bool \<Rightarrow> int \<Rightarrow> int" where
  "int_value bits sgnd v =
     (if sgnd then signed_take_bit (bits - 1) v else take_bit bits v)"

definition is_int_conv :: "char \<Rightarrow> bool" where
  "is_int_conv c \<longleftrightarrow> c \<in> set ''diouxX''"

definition is_flag :: "char \<Rightarrow> bool" where
  "is_flag c \<longleftrightarrow> c \<in> set ''#0-+ ''"

lemmas [char_class] = is_int_conv_def is_flag_def

text \<open>\<^verbatim>\<open>vsnprintf\<close> for a format that is one conversion, as the formatter cuts it out.\<close>

definition printf_conv :: "string \<Rightarrow> fmtarg \<Rightarrow> string" where
  "printf_conv spec a =
     (let flags = takeWhile is_flag (tl spec);
          r1 = dropWhile is_flag (tl spec);
          width = undec (takeWhile isdigit r1);
          r2 = dropWhile isdigit r1;
          dot = (r2 \<noteq> [] \<and> hd r2 = CHR ''.'');
          prec = (if dot then Some (undec (takeWhile isdigit (tl r2))) else None);
          r3 = (if dot then dropWhile isdigit (tl r2) else r2);
          conv = last spec;
          sgnd = (conv = CHR ''d'' \<or> conv = CHR ''i'');
          bits = (if take 2 r3 = ''hh'' then 8 else if take 1 r3 = ''h'' then 16 else 32)
      in case a of
           ArgInt w \<Rightarrow> printf_int flags width prec conv (int_value bits sgnd (sint w))
         | ArgLong w \<Rightarrow> printf_int flags width prec conv (int_value 64 sgnd (sint w))
         | ArgLLong w \<Rightarrow> printf_int flags width prec conv (int_value 64 sgnd (sint w))
         | ArgDouble f \<Rightarrow> f spec
         | _ \<Rightarrow> [])"

section \<open>One conversion of the command format\<close>

text \<open>What a conversion does to the current argument, and where the scan goes on.\<close>

datatype append =
    AppNone
  | AppLen string nat
  | AppCat string
  | AppPrintf string

datatype conv_result =
    ConvErr
  | Conv append string "fmtarg list"

text \<open>
  The position of the conversion character after flags, width and precision, and the type of the
  argument it takes. \<^verbatim>\<open>strchr(intfmts, *_p)\<close> also succeeds at the end of the format, where it
  finds the terminator of \<^verbatim>\<open>intfmts\<close>.
\<close>

datatype va_type = VaInt | VaDouble | VaLLong | VaLong

definition scan_spec :: "string \<Rightarrow> string" where
  "scan_spec r =
     (let p1 = dropWhile is_flag r; p2 = dropWhile isdigit p1
      in if p2 \<noteq> [] \<and> hd p2 = CHR ''.'' then dropWhile isdigit (tl p2) else p2)"

definition starts_int_conv :: "string \<Rightarrow> bool" where
  "starts_int_conv p \<longleftrightarrow> p \<noteq> [] \<and> is_int_conv (hd p)"

definition conv_type :: "string \<Rightarrow> (va_type \<times> string) option" where
  "conv_type p =
     (if p = [] \<or> is_int_conv (hd p) then Some (VaInt, p)
      else if hd p \<in> set ''eEfFgGaA'' then Some (VaDouble, p)
      else if take 2 p = ''hh'' then
        (if starts_int_conv (drop 2 p) then Some (VaInt, drop 2 p) else None)
      else if hd p = CHR ''h'' then
        (if starts_int_conv (drop 1 p) then Some (VaInt, drop 1 p) else None)
      else if take 2 p = ''ll'' then
        (if starts_int_conv (drop 2 p) then Some (VaLLong, drop 2 p) else None)
      else if hd p = CHR ''l'' then
        (if starts_int_conv (drop 1 p) then Some (VaLong, drop 1 p) else None)
      else None)"

fun va_matches :: "va_type \<Rightarrow> fmtarg \<Rightarrow> bool" where
  "va_matches VaInt (ArgInt _) = True"
| "va_matches VaDouble (ArgDouble _) = True"
| "va_matches VaLLong (ArgLLong _) = True"
| "va_matches VaLong (ArgLong _) = True"
| "va_matches _ _ = False"

text \<open>
  The \<^verbatim>\<open>switch\<close> on the character after \<^verbatim>\<open>%\<close>; \<open>c\<close> starts at the \<^verbatim>\<open>%\<close> and has at least two
  characters. A conversion whose text does not fit \<^verbatim>\<open>_format[16]\<close> is skipped as two characters.
  At a conversion that ends with the format, the scan continues behind the terminator.
\<close>

definition fmt_conv :: "string \<Rightarrow> fmtarg list \<Rightarrow> conv_result outcome" where
  "fmt_conv c ap =
     (if c ! 1 = CHR ''s'' then
        (case ap of
           ArgStr arg # ap' \<Rightarrow>
             let n = length (c_str arg)
             in Ok (Conv (if n > 0 then AppLen arg n else AppNone) (drop 2 c) ap')
         | _ \<Rightarrow> Fault BadVarArg)
      else if c ! 1 = CHR ''b'' then
        (case ap of
           ArgStr arg # ArgSize n # ap' \<Rightarrow>
             if length arg < n then Fault OutOfBounds
             else Ok (Conv (if n > 0 then AppLen arg n else AppNone) (drop 2 c) ap')
         | _ \<Rightarrow> Fault BadVarArg)
      else if c ! 1 = CHR ''%'' then Ok (Conv (AppCat ''%'') (drop 2 c) ap)
      else
        (case conv_type (scan_spec (drop 1 c)) of
           None \<Rightarrow> Ok ConvErr
         | Some (ty, p) \<Rightarrow>
             (case ap of
                [] \<Rightarrow> Fault BadVarArg
              | a # ap' \<Rightarrow>
                  if \<not> va_matches ty a then Fault BadVarArg
                  else
                    let l = length c - length p + 1
                    in if l < 16 - 2 then
                         (if p = [] then Fault OutOfBounds
                          else Ok (Conv (AppPrintf (printf_conv (take l c) a)) (tl p) ap'))
                       else Ok (Conv AppNone (drop 2 c) ap'))))"

section \<open>The formatter\<close>

text \<open>\<^verbatim>\<open>sdscatvprintf\<close> doubles its scratch buffer until the output fits, then appends it.\<close>

function vprintf_fits :: "cmem \<Rightarrow> nat \<Rightarrow> nat \<Rightarrow> bool" where
  "vprintf_fits m buflen outlen =
     (if \<not> alloc_ok m buflen then False
      else if buflen < 2 \<or> outlen \<le> buflen - 2 then True
      else vprintf_fits m (buflen * 2) outlen)"
  by pat_completeness auto
termination
  by (relation "measure (\<lambda>(m, buflen, outlen). Suc (Suc outlen) - buflen)") auto

declare vprintf_fits.simps [simp del]

definition sdscatvprintf :: "cmem \<Rightarrow> sdshdr \<Rightarrow> string \<Rightarrow> sdshdr option" where
  "sdscatvprintf m s out = (if vprintf_fits m 16 (length out) then sdscat m s out else None)"

fun do_append :: "cmem \<Rightarrow> sdshdr \<Rightarrow> append \<Rightarrow> sdshdr option" where
  "do_append m cur AppNone = Some cur"
| "do_append m cur (AppLen arg n) = sdscatlen m cur arg n"
| "do_append m cur (AppCat t) = sdscat m cur t"
| "do_append m cur (AppPrintf out) = sdscatvprintf m cur out"

text \<open>The return codes \<^verbatim>\<open>-1\<close> (out of memory) and \<^verbatim>\<open>-2\<close> (invalid format).\<close>

datatype fmt_error = MemoryErr | FormatErr

text \<open>\<^verbatim>\<open>sizeof(char*)\<close>.\<close>

definition ptr_size :: nat where "ptr_size = 8"

function count_digits_loop :: "nat \<Rightarrow> nat \<Rightarrow> nat" where
  "count_digits_loop v result =
     (if v < 10 then result
      else if v < 100 then result + 1
      else if v < 1000 then result + 2
      else if v < 10000 then result + 3
      else count_digits_loop (v div 10000) (result + 4))"
  by pat_completeness auto
termination
  by (relation "measure fst") auto

declare count_digits_loop.simps [simp del]

definition countDigits :: "nat \<Rightarrow> nat" where
  "countDigits v = count_digits_loop v 1"

definition bulklen :: "nat \<Rightarrow> nat" where
  "bulklen len = 1 + countDigits len + 2 + len + 2"

text \<open>\<^verbatim>\<open>curargv[argc++] = curarg\<close>, after growing the vector, with the running length.\<close>

definition push_arg :: "cmem \<Rightarrow> sdshdr list \<Rightarrow> sdshdr \<Rightarrow> nat \<Rightarrow> (sdshdr list \<times> nat) option" where
  "push_arg m argv cur totlen =
     (if \<not> alloc_ok m (ptr_size * (length argv + 1)) then None
      else Some (argv @ [cur], totlen + bulklen (sdslen cur)))"

lemma dropWhile_le: "length (dropWhile P xs) \<le> length xs"
  by (induction xs) auto

lemma scan_spec_le: "length (scan_spec r) \<le> length r"
proof -
  let ?p2 = "dropWhile isdigit (dropWhile is_flag r)"
  have "length ?p2 \<le> length r" by (meson dropWhile_le order_trans)
  moreover from this have "length (dropWhile isdigit (tl ?p2)) \<le> length r"
    using dropWhile_le [of isdigit "tl ?p2"] by simp
  ultimately show ?thesis by (simp add: scan_spec_def Let_def)
qed

lemma conv_type_le: "conv_type p = Some (ty, q) \<Longrightarrow> length q \<le> length p"
  by (auto simp: conv_type_def split: if_splits)

lemma fmt_conv_shorter:
  assumes "fmt_conv c ap = Ok (Conv app c' ap')" and "2 \<le> length c"
  shows "length c' < length c"
  using assms conv_type_le [of "scan_spec (drop 1 c)"] scan_spec_le [of "drop 1 c"]
  by (auto simp: fmt_conv_def Let_def split: if_splits list.splits fmtarg.splits option.splits)

text \<open>
  The scan over the format: \<open>c\<close> is what is left of it, \<open>cur\<close> the argument being built, \<open>touched\<close>
  whether it was written to, \<open>argv\<close> the finished arguments, \<open>totlen\<close> their protocol length.
\<close>

function fmt_loop :: "cmem \<Rightarrow> string \<Rightarrow> fmtarg list \<Rightarrow> sdshdr \<Rightarrow> bool \<Rightarrow> sdshdr list \<Rightarrow> nat \<Rightarrow>
    (fmt_error + sdshdr list \<times> nat) outcome" where
  "fmt_loop m c ap cur touched argv totlen =
     (if c = [] then
        (if touched then
           (case push_arg m argv cur totlen of
              None \<Rightarrow> Ok (Inl MemoryErr)
            | Some (argv', totlen') \<Rightarrow> Ok (Inr (argv', totlen')))
         else Ok (Inr (argv, totlen)))
      else if hd c \<noteq> CHR ''%'' \<or> tl c = [] then
        (if hd c = CHR '' '' then
           (if touched then
              (case push_arg m argv cur totlen of
                 None \<Rightarrow> Ok (Inl MemoryErr)
               | Some (argv', totlen') \<Rightarrow>
                   (case sdsempty m of
                      None \<Rightarrow> Ok (Inl MemoryErr)
                    | Some cur' \<Rightarrow> fmt_loop m (tl c) ap cur' False argv' totlen'))
            else fmt_loop m (tl c) ap cur touched argv totlen)
         else
           (case sdscatlen m cur c 1 of
              None \<Rightarrow> Ok (Inl MemoryErr)
            | Some cur' \<Rightarrow> fmt_loop m (tl c) ap cur' True argv totlen))
      else
        (case fmt_conv c ap of
           Fault e \<Rightarrow> Fault e
         | Ok ConvErr \<Rightarrow> Ok (Inl FormatErr)
         | Ok (Conv app c' ap') \<Rightarrow>
             (case do_append m cur app of
                None \<Rightarrow> Ok (Inl MemoryErr)
              | Some cur' \<Rightarrow> fmt_loop m c' ap' cur' True argv totlen)))"
  by pat_completeness auto
termination
proof (relation "measure (\<lambda>(m, c, _). length c)", goal_cases)
  case 5
  then show ?case
    by (auto intro!: fmt_conv_shorter simp: neq_Nil_conv)
qed (auto simp: neq_Nil_conv)

declare fmt_loop.simps [simp del]

text \<open>The request: the argument count, then every argument with its length in front.\<close>

definition crlf :: string where "crlf = [CR, LF]"

definition resp_bulk :: "string \<Rightarrow> string" where
  "resp_bulk a = CHR ''$'' # dec (length a) @ crlf @ a @ crlf"

definition resp_request :: "string list \<Rightarrow> string" where
  "resp_request argv = CHR ''*'' # dec (length argv) @ crlf @ concat (map resp_bulk argv)"

text \<open>\<^verbatim>\<open>redisvFormatCommand\<close>: the return value and what \<^verbatim>\<open>*target\<close> is set to.\<close>

definition redisvFormatCommand :: "cmem \<Rightarrow> string \<Rightarrow> fmtarg list \<Rightarrow> (int \<times> string option) outcome" where
  "redisvFormatCommand m format ap =
     (case sdsempty m of
        None \<Rightarrow> Ok (-1, None)
      | Some cur \<Rightarrow>
          (case fmt_loop m format ap cur False [] 0 of
             Fault e \<Rightarrow> Fault e
           | Ok (Inl MemoryErr) \<Rightarrow> Ok (-1, None)
           | Ok (Inl FormatErr) \<Rightarrow> Ok (-2, None)
           | Ok (Inr (argv, totlen)) \<Rightarrow>
               let totlen' = totlen + (1 + countDigits (length argv) + 2)
               in if \<not> alloc_ok m (totlen' + 1) then Ok (-1, None)
                  else
                    let cmd = resp_request (map sds_val argv)
                    in if length cmd \<noteq> totlen' then Fault AssertFailure
                       else Ok (int totlen', Some cmd)))"

definition redisFormatCommand :: "cmem \<Rightarrow> string \<Rightarrow> fmtarg list \<Rightarrow> (int \<times> string option) outcome" where
  "redisFormatCommand m format ap =
     (case redisvFormatCommand m format ap of
        Fault e \<Rightarrow> Fault e
      | Ok (len, target) \<Rightarrow> Ok (if len < 0 then -1 else len, target))"

section \<open>The reference: argument vectors on plain strings\<close>

fun app_text :: "append \<Rightarrow> string" where
  "app_text AppNone = []"
| "app_text (AppLen t n) = take n t"
| "app_text (AppCat t) = c_str t"
| "app_text (AppPrintf out) = c_str out"

text \<open>The arguments a format denotes; \<open>None\<close> for an invalid format.\<close>

function fmt_args :: "string \<Rightarrow> fmtarg list \<Rightarrow> string \<Rightarrow> bool \<Rightarrow> string list \<Rightarrow>
    string list option outcome" where
  "fmt_args c ap cur touched argv =
     (if c = [] then Ok (Some (if touched then argv @ [cur] else argv))
      else if hd c \<noteq> CHR ''%'' \<or> tl c = [] then
        (if hd c = CHR '' '' then
           (if touched then fmt_args (tl c) ap [] False (argv @ [cur])
            else fmt_args (tl c) ap cur touched argv)
         else fmt_args (tl c) ap (cur @ [hd c]) True argv)
      else
        (case fmt_conv c ap of
           Fault e \<Rightarrow> Fault e
         | Ok ConvErr \<Rightarrow> Ok None
         | Ok (Conv app c' ap') \<Rightarrow> fmt_args c' ap' (cur @ app_text app) True argv))"
  by pat_completeness auto
termination
proof (relation "measure (\<lambda>(c, _). length c)", goal_cases)
  case 5
  then show ?case
    by (auto intro!: fmt_conv_shorter simp: neq_Nil_conv)
qed (auto simp: neq_Nil_conv)

declare fmt_args.simps [simp del]

definition fmt_argv :: "string \<Rightarrow> fmtarg list \<Rightarrow> string list option outcome" where
  "fmt_argv format ap = fmt_args format ap [] False []"

section \<open>The formatter refines the reference\<close>

lemma count_digits_loop_dec: "count_digits_loop v r + 1 = r + length (dec v)"
proof (induction v r rule: count_digits_loop.induct)
  case (1 v r)
  show ?case
  proof (cases "v < 10000")
    case True
    then show ?thesis
      by (subst count_digits_loop.simps)
         (simp add: dec.simps [of v] dec.simps [of "v div 10"] dec.simps [of "v div 10 div 10"]
            dec.simps [of "v div 100"] dec.simps [of "v div 1000"] div_mult2_eq [symmetric], arith)
  next
    case False
    have "length (dec v) = length (dec (v div 10000)) + 4"
    proof -
      have "\<not> v div 10 < 10" "\<not> v div 100 < 10" "\<not> v div 1000 < 10" "\<not> v < 10"
        using False by arith+
      then show ?thesis
        using dec.simps [of v] dec.simps [of "v div 10"] dec.simps [of "v div 100"]
          dec.simps [of "v div 1000"]
        by (simp add: div_mult2_eq [symmetric])
    qed
    then show ?thesis
      using 1 False by (subst count_digits_loop.simps) simp
  qed
qed

lemma countDigits_dec: "countDigits v = length (dec v)"
  using count_digits_loop_dec [of v 1] by (simp add: countDigits_def)

lemma length_resp_bulk: "length (resp_bulk a) = bulklen (length a)"
  by (simp add: resp_bulk_def bulklen_def countDigits_dec crlf_def)

lemma length_resp_request:
  "length (resp_request argv) =
    1 + countDigits (length argv) + 2 + sum_list (map (\<lambda>a. bulklen (length a)) argv)"
  by (simp add: resp_request_def countDigits_dec crlf_def length_concat length_resp_bulk comp_def)

lemma fmt_conv_AppLen:
  "fmt_conv c ap = Ok (Conv (AppLen t n) c' ap') \<Longrightarrow> n \<le> length t"
  by (auto simp: fmt_conv_def Let_def length_c_str_le
      split: if_splits list.splits fmtarg.splits option.splits)

lemma sdscatvprintf_Some: "sdscatvprintf m s out = Some s' \<Longrightarrow> sdscat m s out = Some s'"
  by (simp add: sdscatvprintf_def split: if_splits)

lemma do_append_spec:
  assumes "do_append m cur app = Some cur'" and "wf_sds cur"
    and "\<And>t n. app = AppLen t n \<Longrightarrow> n \<le> length t"
  shows "wf_sds cur' \<and> sds_val cur' = sds_val cur @ app_text app"
  using assms
  by (cases app) (auto dest: sdscatlen_spec sdscat_spec sdscatvprintf_Some)

text \<open>Out of memory needs a failing allocation.\<close>

definition mem_fails :: "cmem \<Rightarrow> bool" where
  "mem_fails m \<longleftrightarrow> (\<exists>n. \<not> alloc_ok m n)"

lemma sdsMakeRoomFor_None: "sdsMakeRoomFor m s n = None \<Longrightarrow> mem_fails m"
  by (auto simp: sdsMakeRoomFor_def mem_fails_def Let_def split: if_splits)

lemma sdscatlen_None: "sdscatlen m s t n = None \<Longrightarrow> mem_fails m"
  by (auto simp: sdscatlen_def Let_def split: option.splits dest: sdsMakeRoomFor_None)

lemma sdsempty_None: "sdsempty m = None \<Longrightarrow> mem_fails m"
  by (auto simp: sdsempty_def sdsnewlen_None_iff mem_fails_def)

lemma vprintf_fits_False: "\<not> vprintf_fits m b n \<Longrightarrow> mem_fails m"
proof (induction m b n rule: vprintf_fits.induct)
  case (1 m b n)
  then show ?case
    by (subst (asm) (2) vprintf_fits.simps) (auto simp: mem_fails_def split: if_splits)
qed

lemma do_append_None: "do_append m cur app = None \<Longrightarrow> mem_fails m"
  by (cases app)
     (auto simp: sdscat_def sdscatvprintf_def dest: sdscatlen_None vprintf_fits_False split: if_splits)

lemma push_arg_None: "push_arg m argv cur t = None \<Longrightarrow> mem_fails m"
  by (auto simp: push_arg_def mem_fails_def split: if_splits)

lemma push_arg_Some: "push_arg m argv cur t = Some (argv', t') \<Longrightarrow>
    argv' = argv @ [cur] \<and> t' = t + bulklen (sds_len cur)"
  by (auto simp: push_arg_def sdslen_def split: if_splits)

text \<open>What the loop returns, in terms of the reference.\<close>

definition total_len :: "sdshdr list \<Rightarrow> nat" where
  "total_len argv = sum_list (map (\<lambda>a. bulklen (sds_len a)) argv)"

definition loop_refines :: "cmem \<Rightarrow> string list option outcome \<Rightarrow>
    (fmt_error + sdshdr list \<times> nat) outcome \<Rightarrow> bool" where
  "loop_refines m spec res \<longleftrightarrow>
     (case res of
        Fault e \<Rightarrow> spec = Fault e
      | Ok (Inl MemoryErr) \<Rightarrow> mem_fails m
      | Ok (Inl FormatErr) \<Rightarrow> spec = Ok None
      | Ok (Inr (argv, t)) \<Rightarrow>
          spec = Ok (Some (map sds_val argv)) \<and> list_all wf_sds argv \<and> t = total_len argv)"

lemma fmt_loop_refines:
  assumes "wf_sds cur" and "list_all wf_sds argv" and "totlen = total_len argv"
  shows "loop_refines m (fmt_args c ap (sds_val cur) touched (map sds_val argv))
    (fmt_loop m c ap cur touched argv totlen)"
  using assms
proof (induction m c ap cur touched argv totlen rule: fmt_loop.induct)
  case (1 m c ap cur touched argv totlen)
  note IH = "1.IH"
  note prems = "1.prems"
  show ?case
  proof (cases "c = []")
    case True
    have "loop_refines m (fmt_args [] ap (sds_val cur) touched (map sds_val argv))
        (fmt_loop m [] ap cur touched argv totlen)"
      using prems
      by (auto simp: fmt_loop.simps [of m "[]"] fmt_args.simps [of "[]"] loop_refines_def total_len_def
          split: option.splits dest: push_arg_None push_arg_Some)
    with True show ?thesis by simp
  next
    case c: False
    show ?thesis
    proof (cases "hd c \<noteq> CHR ''%'' \<or> tl c = []")
      case lit: True
      show ?thesis
      proof (cases "hd c = CHR '' ''")
        case sp: True
        show ?thesis
        proof (cases touched)
          case False
          then show ?thesis
            using prems IH(2) [OF c lit sp False] c lit sp
            by (simp add: fmt_loop.simps [of m c] fmt_args.simps [of c])
        next
          case True
          show ?thesis
          proof (cases "push_arg m argv cur totlen")
            case None
            then show ?thesis
              using c lit sp True push_arg_None [OF None]
              by (simp add: fmt_loop.simps [of m c] loop_refines_def)
          next
            case (Some at)
            then obtain argv' t' where at: "at = (argv', t')" by (cases at)
            have pushed: "argv' = argv @ [cur]" "t' = total_len argv'"
              using push_arg_Some [of m argv cur totlen argv' t'] Some at prems
              by (auto simp: total_len_def)
            show ?thesis
            proof (cases "sdsempty m")
              case None
              then show ?thesis
                using c lit sp True Some at sdsempty_None [OF None]
                by (simp add: fmt_loop.simps [of m c] loop_refines_def)
            next
              case (Some cur')
              note cur' = Some sdsempty_spec [OF Some]
              show ?thesis
                using IH(1) [OF c lit sp True \<open>push_arg m argv cur totlen = Some at\<close> at [symmetric] cur'(1)]
                  \<open>push_arg m argv cur totlen = Some at\<close> at cur' pushed prems c lit sp True
                by (simp add: fmt_loop.simps [of m c] fmt_args.simps [of c])
            qed
          qed
        qed
      next
        case False
        show ?thesis
        proof (cases "sdscatlen m cur c 1")
          case None
          then show ?thesis
            using False c lit sdscatlen_None [OF None]
            by (simp add: fmt_loop.simps [of m c] loop_refines_def)
        next
          case (Some cur')
          have "wf_sds cur' \<and> sds_val cur' = sds_val cur @ [hd c]"
            using sdscatlen_spec [OF Some prems(1)] c by (cases c) auto
          then show ?thesis
            using IH(3) [OF c lit False Some] prems False c lit Some
            by (simp add: fmt_loop.simps [of m c] fmt_args.simps [of c])
        qed
      qed
    next
      case conv: False
      show ?thesis
      proof (cases "fmt_conv c ap")
        case (Fault e)
        then show ?thesis
          using c conv by (simp add: fmt_loop.simps [of m c] fmt_args.simps [of c] loop_refines_def)
      next
        case (Ok r)
        show ?thesis
        proof (cases r)
          case ConvErr
          then show ?thesis
            using c conv Ok by (simp add: fmt_loop.simps [of m c] fmt_args.simps [of c] loop_refines_def)
        next
          case (Conv app c' ap')
          show ?thesis
          proof (cases "do_append m cur app")
            case None
            then show ?thesis
              using c conv Ok Conv do_append_None [OF None]
              by (simp add: fmt_loop.simps [of m c] loop_refines_def)
          next
            case (Some cur')
            have "wf_sds cur' \<and> sds_val cur' = sds_val cur @ app_text app"
              using do_append_spec [OF Some prems(1)] fmt_conv_AppLen Ok Conv by blast
            then show ?thesis
              using IH(4) [OF c conv Ok Conv Some] prems c conv Ok Conv Some
              by (simp add: fmt_loop.simps [of m c] fmt_args.simps [of c])
          qed
        qed
      qed
    qed
  qed
qed

section \<open>Argument vectors given as arrays\<close>

text \<open>
  \<^verbatim>\<open>redisFormatCommandArgv\<close>: the arguments come as an array, with their lengths or, when
  \<^verbatim>\<open>argvlen\<close> is NULL, as C strings. The bytes of argument \<open>j\<close> are \<open>take len (argv ! j)\<close>.
\<close>

definition arg_bytes :: "string list \<Rightarrow> nat list option \<Rightarrow> nat \<Rightarrow> string" where
  "arg_bytes argv argvlen j =
     (let len = (case argvlen of Some ls \<Rightarrow> ls ! j | None \<Rightarrow> length (c_str (argv ! j)))
      in take len (argv ! j))"

definition arg_length :: "string list \<Rightarrow> nat list option \<Rightarrow> nat \<Rightarrow> nat" where
  "arg_length argv argvlen j =
     (case argvlen of Some ls \<Rightarrow> ls ! j | None \<Rightarrow> length (c_str (argv ! j)))"

definition redisFormatCommandArgv ::
    "cmem \<Rightarrow> nat \<Rightarrow> string list \<Rightarrow> nat list option \<Rightarrow> (int \<times> string option) outcome" where
  "redisFormatCommandArgv m argc argv argvlen =
     (if argc > length argv \<or> (case argvlen of None \<Rightarrow> False | Some ls \<Rightarrow> length ls < argc)
      then Fault OutOfBounds
      else
        let totlen = fold (\<lambda>j t. t + bulklen (arg_length argv argvlen j)) [0 ..< argc]
                       (1 + countDigits argc + 2)
        in if \<not> alloc_ok m (totlen + 1) then Ok (-1, None)
           else if list_ex (\<lambda>j. length (argv ! j) < arg_length argv argvlen j) [0 ..< argc]
           then Fault OutOfBounds
           else
             let cmd = CHR ''*'' # dec argc @ crlf @
                   concat (map (\<lambda>j. CHR ''$'' # dec (arg_length argv argvlen j) @ crlf @
                                    arg_bytes argv argvlen j @ crlf) [0 ..< argc])
             in if length cmd \<noteq> totlen then Fault AssertFailure
                else Ok (int totlen, Some cmd))"

text \<open>The reference: the request of the listed arguments.\<close>

lemma fold_add_sum: "fold (\<lambda>j t. t + f j) xs (a :: nat) = a + sum_list (map f xs)"
  by (induction xs arbitrary: a) auto

lemma argv_total:
  assumes "\<And>j. j < argc \<Longrightarrow> arg_length argv argvlen j \<le> length (argv ! j)"
  shows "fold (\<lambda>j t. t + bulklen (arg_length argv argvlen j)) [0 ..< argc] (1 + countDigits argc + 2) =
    length (resp_request (map (arg_bytes argv argvlen) [0 ..< argc]))"
proof -
  have "length (arg_bytes argv argvlen j) = arg_length argv argvlen j" if "j < argc" for j
    using assms [OF that] by (simp add: arg_bytes_def arg_length_def Let_def)
  then show ?thesis
    by (auto simp: fold_add_sum length_resp_request comp_def
        intro!: arg_cong [where f = sum_list] map_cong)
qed

lemma redisFormatCommandArgv_request:
  assumes "argc \<le> length argv" and "\<And>ls. argvlen = Some ls \<Longrightarrow> argc \<le> length ls"
    and "\<And>j. j < argc \<Longrightarrow> arg_length argv argvlen j \<le> length (argv ! j)"
    and "\<not> mem_fails m"
  shows "redisFormatCommandArgv m argc argv argvlen =
    (let req = resp_request (map (arg_bytes argv argvlen) [0 ..< argc])
     in Ok (int (length req), Some req))"
proof -
  have len: "length (arg_bytes argv argvlen j) = arg_length argv argvlen j" if "j < argc" for j
    using assms(3) [OF that] by (simp add: arg_bytes_def arg_length_def Let_def)
  have ok: "alloc_ok m n" for n using assms(4) by (simp add: mem_fails_def)
  have req: "resp_request (map (arg_bytes argv argvlen) [0 ..< argc]) =
    CHR ''*'' # dec argc @ crlf @
      concat (map (\<lambda>j. CHR ''$'' # dec (arg_length argv argvlen j) @ crlf @
                       arg_bytes argv argvlen j @ crlf) [0 ..< argc])"
    unfolding resp_request_def
    by (auto simp: resp_bulk_def len intro!: arg_cong [where f = concat] map_cong)
  have tot: "fold (\<lambda>j t. t + bulklen (arg_length argv argvlen j)) [0 ..< argc]
      (1 + countDigits argc + 2) = length (resp_request (map (arg_bytes argv argvlen) [0 ..< argc]))"
    by (rule argv_total [OF assms(3)])
  have "\<not> list_ex (\<lambda>j. length (argv ! j) < arg_length argv argvlen j) [0 ..< argc]"
    using assms(3) by (auto simp: list_ex_iff not_less)
  then show ?thesis
    using assms(1,2) ok tot
    by (auto simp: redisFormatCommandArgv_def Let_def req [symmetric] split: option.splits)
qed

section \<open>Correctness of the formatter\<close>

lemma redisvFormatCommand_cases:
  "loop_refines m (fmt_argv format ap)
     (case sdsempty m of None \<Rightarrow> Ok (Inl MemoryErr)
      | Some cur \<Rightarrow> fmt_loop m format ap cur False [] 0)"
proof (cases "sdsempty m")
  case None
  then show ?thesis using sdsempty_None by (simp add: loop_refines_def)
next
  case (Some cur)
  then show ?thesis
    using fmt_loop_refines [of cur "[]" 0 m format ap False] sdsempty_spec [OF Some]
    by (simp add: fmt_argv_def total_len_def)
qed

text \<open>The two ways a call can end without a fault, and the fault it shares with the reference.\<close>

definition format_result :: "string list option outcome \<Rightarrow> (int \<times> string option) outcome" where
  "format_result r =
     (case r of
        Fault e \<Rightarrow> Fault e
      | Ok None \<Rightarrow> Ok (-2, None)
      | Ok (Some argv) \<Rightarrow> Ok (int (length (resp_request argv)), Some (resp_request argv)))"

lemma total_len_request:
  assumes "list_all wf_sds argv"
  shows "total_len argv + (1 + countDigits (length argv) + 2) =
    length (resp_request (map sds_val argv))"
proof -
  have "total_len argv = sum_list (map (\<lambda>a. bulklen (length (sds_val a))) argv)"
    using assms unfolding total_len_def by (induction argv) auto
  then show ?thesis by (simp add: length_resp_request comp_def)
qed

lemma redisvFormatCommand_result:
  "redisvFormatCommand m format ap = format_result (fmt_argv format ap) \<or>
    (mem_fails m \<and> redisvFormatCommand m format ap = Ok (-1, None))"
proof -
  note ref = redisvFormatCommand_cases [of m format ap]
  show ?thesis
  proof (cases "sdsempty m")
    case None
    then show ?thesis using sdsempty_None by (simp add: redisvFormatCommand_def)
  next
    case (Some cur)
    show ?thesis
    proof (cases "fmt_loop m format ap cur False [] 0")
      case (Fault e)
      then show ?thesis
        using ref Some by (simp add: redisvFormatCommand_def loop_refines_def format_result_def)
    next
      case (Ok r)
      show ?thesis
      proof (cases r)
        case (Inl e)
        then show ?thesis
          using ref Some Ok
          by (cases e) (simp_all add: redisvFormatCommand_def loop_refines_def format_result_def)
      next
        case (Inr at)
        then obtain argv t where at: "r = Inr (argv, t)" by (cases at) simp
        then have spec: "fmt_argv format ap = Ok (Some (map sds_val argv))"
          and tot: "t + (1 + countDigits (length argv) + 2) =
            length (resp_request (map sds_val argv))"
          using ref Some Ok total_len_request by (auto simp: loop_refines_def)
        show ?thesis
        proof (cases "alloc_ok m (length (resp_request (map sds_val argv)) + 1)")
          case True
          then show ?thesis
            using Some Ok at spec tot
            by (simp add: redisvFormatCommand_def format_result_def Let_def)
        next
          case False
          then have "mem_fails m" by (auto simp: mem_fails_def)
          with False show ?thesis
            using Some Ok at tot by (simp add: redisvFormatCommand_def Let_def)
        qed
      qed
    qed
  qed
qed

lemma fmt_conv_no_assert: "fmt_conv c ap \<noteq> Fault AssertFailure"
  by (auto simp: fmt_conv_def Let_def split: if_splits list.splits fmtarg.splits option.splits)

lemma fmt_args_no_assert: "fmt_args c ap cur touched argv \<noteq> Fault AssertFailure"
proof (induction c ap cur touched argv rule: fmt_args.induct)
  case (1 c ap cur touched argv)
  then show ?case
    by (subst fmt_args.simps)
       (auto split: outcome.splits conv_result.splits simp: fmt_conv_no_assert)
qed

end
