(* ===== verification/Server.thy ===== *)
theory Server
  imports Format
begin

text \<open>
  The command interface of the file system layer. \<open>redisReply\<close> is the reply object of
  \<^verbatim>\<open>hiredis.h\<close>; \<open>redis_call\<close> is \<^verbatim>\<open>redisCommand\<close> as this layer sees it: the format and its
  arguments become an argument vector, the server executes it and the reply comes back. The server
  is a parameter \<open>srv\<close>; it answers \<open>None\<close> where \<^verbatim>\<open>redisCommand\<close> returns NULL. What the program
  relies on is the hypothesis \<open>redis_server\<close>: on the commands the program sends, the server
  follows the Redis command reference (\<open>redis_doc\<close>) on the key space it is viewed to hold.
\<close>

section \<open>Replies\<close>

text \<open>
  The six \<^verbatim>\<open>REDIS_REPLY_*\<close> types with the fields each of them sets. The other fields of the
  object are zero, because it is allocated with \<^verbatim>\<open>calloc\<close>.
\<close>

datatype redisReply =
    Reply_String string
  | Reply_Array "redisReply list"
  | Reply_Integer clong
  | Reply_Nil
  | Reply_Status string
  | Reply_Error string

fun reply_str :: "redisReply \<Rightarrow> string option" where
  "reply_str (Reply_String s) = Some s"
| "reply_str (Reply_Status s) = Some s"
| "reply_str (Reply_Error s) = Some s"
| "reply_str _ = None"

fun reply_integer :: "redisReply \<Rightarrow> clong" where
  "reply_integer (Reply_Integer n) = n"
| "reply_integer _ = 0"

section \<open>The documented behaviour of the server\<close>

datatype rvalue =
    RStr string
  | RHash "string \<rightharpoonup> string"
  | RList "string list"

type_synonym keyspace = "string \<rightharpoonup> rvalue"

text \<open>The hash and the list stored at a key; a missing key counts as an empty one.\<close>

fun as_hash :: "rvalue option \<Rightarrow> (string \<rightharpoonup> string) option" where
  "as_hash None = Some Map.empty"
| "as_hash (Some (RHash h)) = Some h"
| "as_hash _ = None"

fun as_list :: "rvalue option \<Rightarrow> string list option" where
  "as_list None = Some []"
| "as_list (Some (RList xs)) = Some xs"
| "as_list _ = None"

definition put_list :: "string list \<Rightarrow> rvalue option" where
  "put_list xs = (if xs = [] then None else Some (RList xs))"

fun set_fields :: "string list \<Rightarrow> (string \<rightharpoonup> string) \<Rightarrow> (string \<rightharpoonup> string) option" where
  "set_fields [] h = Some h"
| "set_fields [f] h = None"
| "set_fields (f # v # fvs) h = set_fields fvs (h(f \<mapsto> v))"

text \<open>
  The reply and the new key space of a command, where the Redis command reference determines them;
  \<open>None\<close> for other commands and for keys of the wrong type.
\<close>

definition redis_doc :: "keyspace \<Rightarrow> string list \<Rightarrow> (redisReply \<times> keyspace) option" where
  "redis_doc db argv =
     (case argv of
        [c] \<Rightarrow> if c = ''FLUSHALL'' then Some (Reply_Status ''OK'', Map.empty) else None
      | [c, k] \<Rightarrow>
          if c = ''GET'' then
            (case db k of None \<Rightarrow> Some (Reply_Nil, db)
             | Some (RStr s) \<Rightarrow> Some (Reply_String s, db) | _ \<Rightarrow> None)
          else if c = ''EXISTS'' then
            Some (Reply_Integer (if db k = None then 0 else 1), db)
          else if c = ''INCR'' then
            (case db k of
               None \<Rightarrow> Some (Reply_Integer 1, db(k \<mapsto> RStr ''1''))
             | Some (RStr s) \<Rightarrow>
                 if s = show_long (strtol s) \<and> sint (strtol s) < 2 ^ 63 - 1
                 then Some (Reply_Integer (strtol s + 1), db(k \<mapsto> RStr (show_long (strtol s + 1))))
                 else None
             | _ \<Rightarrow> None)
          else None
      | c # k # args \<Rightarrow>
          if c = ''HMSET'' then
            (case as_hash (db k) of
               None \<Rightarrow> None
             | Some h \<Rightarrow>
                 (case set_fields args h of
                    None \<Rightarrow> None
                  | Some h' \<Rightarrow> Some (Reply_Status ''OK'', db(k \<mapsto> RHash h'))))
          else
            (case args of
               [v] \<Rightarrow>
                 if c = ''SET'' then Some (Reply_Status ''OK'', db(k \<mapsto> RStr v))
                 else if c = ''LPUSH'' then
                   (case as_list (db k) of
                      None \<Rightarrow> None
                    | Some xs \<Rightarrow>
                        Some (Reply_Integer (of_nat (length xs + 1)), db(k \<mapsto> RList (v # xs))))
                 else if c = ''HGET'' then
                   (case as_hash (db k) of
                      None \<Rightarrow> None
                    | Some h \<Rightarrow>
                        Some (case h v of None \<Rightarrow> Reply_Nil | Some x \<Rightarrow> Reply_String x, db))
                 else None
             | [v, w] \<Rightarrow>
                 if c = ''LREM'' \<and> v = ''0'' then
                   (case as_list (db k) of
                      None \<Rightarrow> None
                    | Some xs \<Rightarrow>
                        Some (Reply_Integer (of_nat (count_list xs w)),
                              db(k := put_list (removeAll w xs))))
                 else if c = ''LRANGE'' \<and> v = ''0'' \<and> w = ''-1'' then
                   (case as_list (db k) of
                      None \<Rightarrow> None
                    | Some xs \<Rightarrow> Some (Reply_Array (map Reply_String xs), db))
                 else if c = ''HSET'' then
                   (case as_hash (db k) of
                      None \<Rightarrow> None
                    | Some h \<Rightarrow>
                        Some (Reply_Integer (if h v = None then 1 else 0),
                              db(k \<mapsto> RHash (h(v \<mapsto> w)))))
                 else None
             | _ \<Rightarrow> None)
      | [] \<Rightarrow> None)"

text \<open>A server whose state is viewed as a key space behaves as documented.\<close>

type_synonym 's server = "'s \<Rightarrow> string list \<Rightarrow> redisReply option \<times> 's"

definition redis_server :: "'s server \<Rightarrow> ('s \<Rightarrow> keyspace) \<Rightarrow> bool" where
  "redis_server srv view \<longleftrightarrow>
     (\<forall>s argv r db'. redis_doc (view s) argv = Some (r, db') \<longrightarrow>
        fst (srv s argv) = Some r \<and> view (snd (srv s argv)) = db')"

text \<open>The hypothesis can hold: the documented behaviour is itself a server.\<close>

definition doc_server :: "keyspace server" where
  "doc_server db argv =
     (case redis_doc db argv of
        Some (r, db') \<Rightarrow> (Some r, db')
      | None \<Rightarrow> (Some (Reply_Error ''ERR unknown command''), db))"

lemma redis_server_doc_server: "redis_server doc_server (\<lambda>db. db)"
  by (auto simp: redis_server_def doc_server_def)

section \<open>Commands\<close>

definition redis_call :: "'s server \<Rightarrow> string \<Rightarrow> fmtarg list \<Rightarrow> ('s, redisReply option) op" where
  "redis_call srv format args =
     (\<lambda>s. case fmt_argv format args of
            Fault e \<Rightarrow> (Fault e, s)
          | Ok None \<Rightarrow> (Ok None, s)
          | Ok (Some argv) \<Rightarrow> (Ok (fst (srv s argv)), snd (srv s argv)))"

text \<open>A command whose reply is dereferenced at once.\<close>

definition redis_reply :: "'s server \<Rightarrow> string \<Rightarrow> fmtarg list \<Rightarrow> ('s, redisReply) op" where
  "redis_reply srv format args =
     bind (redis_call srv format args)
       (\<lambda>r. case r of None \<Rightarrow> fail NullDeref | Some reply \<Rightarrow> ret reply)"

lemma redis_serverD:
  assumes "redis_server srv view" and "redis_doc (view s) argv = Some (r, db')"
  shows "fst (srv s argv) = Some r" and "view (snd (srv s argv)) = db'"
  using assms by (auto simp: redis_server_def)

lemma wp_redis_call:
  assumes "redis_server srv view" and "fmt_argv format args = Ok (Some argv)"
    and "redis_doc (view s) argv = Some (r, db')"
    and "\<And>s'. view s' = db' \<Longrightarrow> Q (Some r) s'"
  shows "wp (redis_call srv format args) Q s"
  using assms(2,4) redis_serverD [OF assms(1,3)] by (simp add: wp_def redis_call_def)

lemma wp_redis_reply:
  assumes "redis_server srv view" and "fmt_argv format args = Ok (Some argv)"
    and "redis_doc (view s) argv = Some (r, db')"
    and "\<And>s'. view s' = db' \<Longrightarrow> Q r s'"
  shows "wp (redis_reply srv format args) Q s"
  unfolding redis_reply_def wp_bind
  by (rule wp_redis_call [OF assms(1-3)]) (simp add: assms(4))

section \<open>Evaluating the program's formats\<close>

lemma nat_take_bit_sint: "nat (take_bit 64 (sint (w :: clong))) = unat w"
  by (simp add: unat_eq_nat_uint uint_sint)

lemma signed_take_bit_sint: "signed_take_bit 63 (sint (w :: clong)) = sint w"
  by (simp add: sint_uint)

lemma printf_conv_lu [simp]: "printf_conv ''%lu'' (ArgLong w) = show_ulong w"
  by (simp add: printf_conv_def printf_int_def is_flag_def isdigit_def int_value_def
      printf_digits_def show_ulong_def nat_take_bit_sint Let_def)

lemma printf_conv_ld [simp]: "printf_conv ''%ld'' (ArgLong w) = show_long w"
  by (simp add: printf_conv_def printf_int_def is_flag_def isdigit_def int_value_def
      printf_digits_def show_long_def show_int_def signed_take_bit_sint Let_def abs_if)

text \<open>
  The rules that run \<open>fmt_argv\<close> on a literal format: one step of the scan per character, and the
  conversions the program uses.
\<close>

lemma fmt_args_Nil: "fmt_args [] ap cur t argv = Ok (Some (if t then argv @ [cur] else argv))"
  by (simp add: fmt_args.simps)

lemma fmt_args_char:
  "c \<noteq> CHR ''%'' \<Longrightarrow> c \<noteq> CHR '' '' \<Longrightarrow>
    fmt_args (c # cs) ap cur t argv = fmt_args cs ap (cur @ [c]) True argv"
  by (subst fmt_args.simps) simp

lemma fmt_args_blank:
  "fmt_args (CHR '' '' # cs) ap cur t argv =
    (if t then fmt_args cs ap [] False (argv @ [cur]) else fmt_args cs ap cur False argv)"
  by (subst fmt_args.simps) simp

lemma fmt_args_s:
  "fmt_args (CHR ''%'' # CHR ''s'' # cs) (ArgStr a # ap) cur t argv =
    fmt_args cs ap (cur @ c_str a) True argv"
proof -
  have "take (length (c_str a)) a = c_str a"
    by (simp add: c_str_def takeWhile_eq_take [symmetric])
  then show ?thesis
    by (subst fmt_args.simps) (cases "c_str a = []", simp_all add: fmt_conv_def Let_def)
qed

lemma fmt_args_lu:
  "fmt_args (CHR ''%'' # CHR ''l'' # CHR ''u'' # cs) (ArgLong w # ap) cur t argv =
    fmt_args cs ap (cur @ show_ulong w) True argv"
  by (subst fmt_args.simps)
     (simp add: fmt_conv_def scan_spec_def is_flag_def isdigit_def conv_type_def is_int_conv_def
       starts_int_conv_def Let_def)

lemma fmt_args_ld:
  "fmt_args (CHR ''%'' # CHR ''l'' # CHR ''d'' # cs) (ArgLong w # ap) cur t argv =
    fmt_args cs ap (cur @ show_long w) True argv"
  by (subst fmt_args.simps)
     (simp add: fmt_conv_def scan_spec_def is_flag_def isdigit_def conv_type_def is_int_conv_def
       starts_int_conv_def Let_def)

lemmas fmt_eval = fmt_argv_def fmt_args_Nil fmt_args_char fmt_args_blank fmt_args_s fmt_args_lu
  fmt_args_ld

end
