(* ===== verification/Vfs.thy ===== *)
theory Vfs
  imports Server
begin

text \<open>
  The operations of \<^verbatim>\<open>vfs.c\<close>: folders and files are kept in Redis under the keys
  \<^verbatim>\<open>FOLDER_<id>_info\<close>, \<^verbatim>\<open>FOLDER_<id>_folders\<close>, \<^verbatim>\<open>FOLDER_<id>_files\<close> and \<^verbatim>\<open>FILE_<id>_info\<close>, and
  \<^verbatim>\<open>current_id_count\<close> is the next free id. Every definition takes the server \<open>srv\<close> as its first
  argument and follows the C function of its name (a leading \<^verbatim>\<open>__\<close> is written \<open>priv_\<close>); a buffer
  the caller passes in is its capacity, and what the function writes to it is returned. Output to
  the terminal is returned as a list of lines. Ids and sizes are 64-bit \<^verbatim>\<open>long\<close>s.
\<close>

section \<open>Ids and records\<close>

definition getNewId :: "'s server \<Rightarrow> ('s, clong) op" where
  "getNewId srv =
     bind (redis_reply srv ''GET current_id_count'' []) (\<lambda>reply.
       case reply_str reply of
         None \<Rightarrow> ret (-1)
       | Some str \<Rightarrow>
           bind (redis_call srv ''INCR current_id_count'' []) (\<lambda>_. ret (strtol str)))"

definition priv_mkdir :: "'s server \<Rightarrow> clong \<Rightarrow> clong \<Rightarrow> string \<Rightarrow> ('s, unit) op" where
  "priv_mkdir srv parentId oid name =
     bind (redis_call srv
       (''HMSET FOLDER_%lu_info  parent %lu name '' @ [CHR 0x22] @ ''%s'' @ [CHR 0x22] @
        '' createdData '' @ [CHR 0x22] @ ''%s'' @ [CHR 0x22])
       [ArgLong oid, ArgLong parentId, ArgStr name, ArgStr ''march 7th'']) (\<lambda>_. ret ())"

definition vfs_mkdir :: "'s server \<Rightarrow> clong \<Rightarrow> string \<Rightarrow> ('s, clong) op" where
  "vfs_mkdir srv parentId name =
     bind (getNewId srv) (\<lambda>oid.
     bind (redis_call srv ''LPUSH FOLDER_%lu_folders %lu'' [ArgLong parentId, ArgLong oid]) (\<lambda>_.
     bind (priv_mkdir srv parentId oid name) (\<lambda>_. ret oid)))"

definition priv_createFile ::
    "'s server \<Rightarrow> clong \<Rightarrow> string \<Rightarrow> clong \<Rightarrow> string \<Rightarrow> string \<Rightarrow> string \<Rightarrow> ('s, unit) op" where
  "priv_createFile srv oid name sz googleId webUrl apiUrl =
     bind (redis_call srv
       (''HMSET FILE_%lu_info name '' @ [CHR 0x22] @ ''%s'' @ [CHR 0x22] @
        '' size '' @ [CHR 0x22] @ ''%lu'' @ [CHR 0x22] @
        '' createdData '' @ [CHR 0x22] @ ''%s'' @ [CHR 0x22] @
        '' id '' @ [CHR 0x22] @ ''%s'' @ [CHR 0x22] @
        '' webUrl '' @ [CHR 0x22] @ ''%s'' @ [CHR 0x22] @
        '' apiUrl '' @ [CHR 0x22] @ ''%s'' @ [CHR 0x22] @ '' '')
       [ArgLong oid, ArgStr name, ArgLong sz, ArgStr ''march 7th'', ArgStr googleId, ArgStr webUrl,
        ArgStr apiUrl]) (\<lambda>_. ret ())"

definition priv_addFileToFileList :: "'s server \<Rightarrow> clong \<Rightarrow> clong \<Rightarrow> ('s, unit) op" where
  "priv_addFileToFileList srv folderId fileId =
     bind (redis_call srv ''LPUSH FOLDER_%lu_files %lu'' [ArgLong folderId, ArgLong fileId])
       (\<lambda>_. ret ())"

definition priv_addDirToFolderList :: "'s server \<Rightarrow> clong \<Rightarrow> clong \<Rightarrow> ('s, unit) op" where
  "priv_addDirToFolderList srv folderId fileId =
     bind (redis_call srv ''LPUSH FOLDER_%lu_folders %lu'' [ArgLong folderId, ArgLong fileId])
       (\<lambda>_. ret ())"

definition priv_removeIdFromFileList :: "'s server \<Rightarrow> clong \<Rightarrow> clong \<Rightarrow> ('s, unit) op" where
  "priv_removeIdFromFileList srv dirId removeId =
     bind (redis_call srv ''LREM FOLDER_%ld_files 0 %ld'' [ArgLong dirId, ArgLong removeId])
       (\<lambda>_. ret ())"

definition priv_removeIdFromFolderList :: "'s server \<Rightarrow> clong \<Rightarrow> clong \<Rightarrow> ('s, unit) op" where
  "priv_removeIdFromFolderList srv dirId removeId =
     bind (redis_call srv ''LREM FOLDER_%ld_folders 0 %ld'' [ArgLong dirId, ArgLong removeId])
       (\<lambda>_. ret ())"

definition vfs_createFile ::
    "'s server \<Rightarrow> clong \<Rightarrow> string \<Rightarrow> clong \<Rightarrow> string \<Rightarrow> string \<Rightarrow> string \<Rightarrow> ('s, clong) op" where
  "vfs_createFile srv parentId name sz googleId webUrl apiUrl =
     bind (getNewId srv) (\<lambda>oid.
     bind (priv_addFileToFileList srv parentId oid) (\<lambda>_.
     bind (priv_createFile srv oid name sz googleId webUrl apiUrl) (\<lambda>_. ret oid)))"

definition vfs_setFileName :: "'s server \<Rightarrow> clong \<Rightarrow> string \<Rightarrow> nat \<Rightarrow> ('s, unit) op" where
  "vfs_setFileName srv oid nameBuffer nameBufferLength =
     bind (redis_call srv (''HSET FILE_%lu_info name '' @ [CHR 0x22] @ ''%s'' @ [CHR 0x22])
       [ArgLong oid, ArgStr (take nameBufferLength nameBuffer)]) (\<lambda>_. ret ())"

section \<open>Getters\<close>

text \<open>
  \<^verbatim>\<open>sprintf(out, "%.*s", (int) strlen(str) - 2, str + 1)\<close> strips the quotes of a stored name. For an
  empty string it starts behind the terminator; for a string of one character the precision is
  negative, which means none.
\<close>

definition strip_quotes :: "nat \<Rightarrow> string option \<Rightarrow> string outcome" where
  "strip_quotes cap str =
     (case str of
        None \<Rightarrow> Fault NullDeref
      | Some s \<Rightarrow>
          let n = length (c_str s); body = drop 1 (c_str s)
          in if n = 0 then Fault OutOfBounds
             else
               let out = (if n < 2 then body else take (n - 2) body)
               in if length out + 1 > cap then Fault BufferOverflow else Ok out)"

definition vfs_getFileName :: "'s server \<Rightarrow> clong \<Rightarrow> nat \<Rightarrow> ('s, string) op" where
  "vfs_getFileName srv oid cap =
     bind (redis_reply srv ''HGET FILE_%lu_info name'' [ArgLong oid]) (\<lambda>reply.
       lift (strip_quotes cap (reply_str reply)))"

definition vfs_getFileWebUrl :: "'s server \<Rightarrow> clong \<Rightarrow> nat \<Rightarrow> ('s, string) op" where
  "vfs_getFileWebUrl srv oid cap =
     bind (redis_reply srv ''HGET FILE_%lu_info apiUrl'' [ArgLong oid]) (\<lambda>reply.
       lift (strip_quotes cap (reply_str reply)))"

text \<open>\<^verbatim>\<open>strtol(str + 1, NULL, 10)\<close>\<close>

definition strtol_from1 :: "string \<Rightarrow> clong outcome" where
  "strtol_from1 s = (if c_str s = [] then Fault OutOfBounds else Ok (strtol (drop 1 (c_str s))))"

definition vfs_getFileSizeFromId :: "'s server \<Rightarrow> clong \<Rightarrow> ('s, clong) op" where
  "vfs_getFileSizeFromId srv oid =
     bind (redis_reply srv ''HGET FILE_%lu_info size'' [ArgLong oid]) (\<lambda>reply.
       case reply_str reply of
         None \<Rightarrow> ret (-1)
       | Some str \<Rightarrow> lift (strtol_from1 str))"

definition vfs_getFolderName :: "'s server \<Rightarrow> clong \<Rightarrow> nat \<Rightarrow> ('s, string) op" where
  "vfs_getFolderName srv oid cap =
     bind (redis_reply srv ''HGET FOLDER_%lu_info name'' [ArgLong oid]) (\<lambda>reply.
       lift (strip_quotes cap (reply_str reply)))"

definition vfs_getDirParent :: "'s server \<Rightarrow> clong \<Rightarrow> ('s, clong) op" where
  "vfs_getDirParent srv cwdId =
     bind (redis_reply srv ''HGET FOLDER_%lu_info parent'' [ArgLong cwdId]) (\<lambda>reply.
       case reply_str reply of None \<Rightarrow> fail NullDeref | Some str \<Rightarrow> ret (strtol str))"

definition vfs_setDirParent :: "'s server \<Rightarrow> clong \<Rightarrow> clong \<Rightarrow> ('s, unit) op" where
  "vfs_setDirParent srv dirId newParent =
     bind (redis_call srv ''HSET FOLDER_%lu_info parent %ld'' [ArgLong dirId, ArgLong newParent])
       (\<lambda>_. ret ())"

section \<open>Listing and searching\<close>

definition MAX_FILENAME_SIZE :: nat where "MAX_FILENAME_SIZE = 10000"

text \<open>The elements the loops run over: none unless the reply is an array.\<close>

fun reply_elements :: "redisReply \<Rightarrow> redisReply list" where
  "reply_elements (Reply_Array es) = es"
| "reply_elements _ = []"

text \<open>\<^verbatim>\<open>strtol(reply->element[j]->str, NULL, 10)\<close>\<close>

definition element_id :: "redisReply \<Rightarrow> clong outcome" where
  "element_id e = (case reply_str e of None \<Rightarrow> Fault NullDeref | Some str \<Rightarrow> Ok (strtol str))"

fun ls_loop :: "(clong \<Rightarrow> ('s, string) op) \<Rightarrow> redisReply list \<Rightarrow> ('s, string list) op" where
  "ls_loop getName [] = ret []"
| "ls_loop getName (e # es) =
     bind (lift (element_id e)) (\<lambda>oid.
     bind (getName oid) (\<lambda>name.
     bind (ls_loop getName es) (\<lambda>rest. ret ((''ls: '' @ name @ [LF]) # rest))))"

definition vfs_ls :: "'s server \<Rightarrow> clong \<Rightarrow> ('s, string list) op" where
  "vfs_ls srv dirId =
     bind (redis_reply srv ''LRANGE FOLDER_%lu_folders 0 -1'' [ArgLong dirId]) (\<lambda>reply.
     bind (ls_loop (\<lambda>oid. vfs_getFolderName srv oid MAX_FILENAME_SIZE) (reply_elements reply)) (\<lambda>out1.
     bind (redis_reply srv ''LRANGE FOLDER_%lu_files   0 -1'' [ArgLong dirId]) (\<lambda>reply.
     bind (ls_loop (\<lambda>oid. vfs_getFileName srv oid MAX_FILENAME_SIZE) (reply_elements reply)) (\<lambda>out2.
     ret (out1 @ out2)))))"

text \<open>The search for a file does not stop at a match: the last one counts.\<close>

fun find_file_loop :: "'s server \<Rightarrow> string \<Rightarrow> nat \<Rightarrow> redisReply list \<Rightarrow> clong \<Rightarrow> ('s, clong) op" where
  "find_file_loop srv fileName fileNameLength [] matchId = ret matchId"
| "find_file_loop srv fileName fileNameLength (e # es) matchId =
     bind (lift (element_id e)) (\<lambda>tempId.
     bind (vfs_getFileName srv tempId MAX_FILENAME_SIZE) (\<lambda>nameBuffer.
       let len = (if fileNameLength > length nameBuffer then fileNameLength else length nameBuffer)
       in find_file_loop srv fileName fileNameLength es
            (if strncmp_eq fileName nameBuffer len then tempId else matchId)))"

definition vfs_findFileNameInDir :: "'s server \<Rightarrow> clong \<Rightarrow> string \<Rightarrow> nat \<Rightarrow> ('s, clong) op" where
  "vfs_findFileNameInDir srv dirId fileName fileNameLength =
     bind (redis_reply srv ''LRANGE FOLDER_%lu_files 0 -1'' [ArgLong dirId]) (\<lambda>reply.
       find_file_loop srv fileName fileNameLength (reply_elements reply) (-1))"

text \<open>The search for a folder stops at the first name that agrees on \<open>dirNameLength\<close> characters.\<close>

fun find_dir_loop :: "'s server \<Rightarrow> string \<Rightarrow> nat \<Rightarrow> redisReply list \<Rightarrow> ('s, clong) op" where
  "find_dir_loop srv dirName dirNameLength [] = ret (-1)"
| "find_dir_loop srv dirName dirNameLength (e # es) =
     bind (lift (element_id e)) (\<lambda>tempId.
     bind (vfs_getFolderName srv tempId MAX_FILENAME_SIZE) (\<lambda>nameBuffer.
       if strncmp_eq dirName nameBuffer dirNameLength then ret tempId
       else find_dir_loop srv dirName dirNameLength es))"

definition vfs_findDirNameInDir :: "'s server \<Rightarrow> clong \<Rightarrow> string \<Rightarrow> nat \<Rightarrow> ('s, clong) op" where
  "vfs_findDirNameInDir srv dirId dirName dirNameLength =
     (if dirNameLength = 1 \<and> strncmp_eq ''.'' dirName 1 then ret dirId
      else if dirNameLength = 2 \<and> strncmp_eq ''..'' dirName 2 then vfs_getDirParent srv dirId
      else
        bind (redis_reply srv ''LRANGE FOLDER_%lu_folders 0 -1'' [ArgLong dirId]) (\<lambda>reply.
          find_dir_loop srv dirName dirNameLength (reply_elements reply)))"

text \<open>One line of the Unix-style listing, and \<^verbatim>\<open>sprintf(line + strlen(line), ...)\<close> into 20000 bytes.\<close>

definition pad_left :: "nat \<Rightarrow> string \<Rightarrow> string" where
  "pad_left n s = replicate (n - length s) CHR '' '' @ s"

definition unix_line :: "string \<Rightarrow> clong \<Rightarrow> string \<Rightarrow> string" where
  "unix_line perms sz name =
     perms @ ''   1 linux linux '' @ pad_left 10 (show_ulong sz) @ '' Jan  1  1980 '' @ name @ crlf"

definition LINE_SIZE :: nat where "LINE_SIZE = 20000"

definition append_line :: "string \<Rightarrow> string \<Rightarrow> string outcome" where
  "append_line line t =
     (if length line + length t + 1 > LINE_SIZE then Fault BufferOverflow else Ok (line @ t))"

fun unix_dirs_loop :: "'s server \<Rightarrow> redisReply list \<Rightarrow> string \<Rightarrow> ('s, string) op" where
  "unix_dirs_loop srv [] line = ret line"
| "unix_dirs_loop srv (e # es) line =
     bind (lift (element_id e)) (\<lambda>innerDirId.
     bind (vfs_getFolderName srv innerDirId MAX_FILENAME_SIZE) (\<lambda>name.
     bind (lift (append_line line (unix_line ''drwxrwxr-x'' 1 name))) (\<lambda>line'.
       unix_dirs_loop srv es line')))"

fun unix_files_loop :: "'s server \<Rightarrow> redisReply list \<Rightarrow> string \<Rightarrow> ('s, string) op" where
  "unix_files_loop srv [] line = ret line"
| "unix_files_loop srv (e # es) line =
     bind (lift (element_id e)) (\<lambda>fileId.
     bind (vfs_getFileName srv fileId MAX_FILENAME_SIZE) (\<lambda>name.
     bind (vfs_getFileSizeFromId srv fileId) (\<lambda>sz.
     bind (lift (append_line line (unix_line ''-rwxrwxr-x'' sz name))) (\<lambda>line'.
       unix_files_loop srv es line'))))"

definition vfs_listUnixStyle :: "'s server \<Rightarrow> clong \<Rightarrow> ('s, string) op" where
  "vfs_listUnixStyle srv dirId =
     bind (redis_reply srv ''LRANGE FOLDER_%lu_folders 0 -1'' [ArgLong dirId]) (\<lambda>reply.
     bind (unix_dirs_loop srv (reply_elements reply) []) (\<lambda>line.
     bind (redis_reply srv ''LRANGE FOLDER_%lu_files   0 -1'' [ArgLong dirId]) (\<lambda>reply.
       unix_files_loop srv (reply_elements reply) line)))"

text \<open>
  The walk from a folder to the root; \<open>None\<close> is a walk that never ends. The parent is read from the
  second character of the stored number.
\<close>

definition path_step :: "'s server \<Rightarrow> nat \<Rightarrow> clong \<Rightarrow> string \<Rightarrow> ('s, clong \<times> string) op" where
  "path_step srv cap currentId out =
     bind (vfs_getFolderName srv currentId cap) (\<lambda>buffer2.
       if length buffer2 + length out + 2 > cap then fail BufferOverflow
       else
         bind (redis_reply srv ''HGET FOLDER_%lu_info parent'' [ArgLong currentId]) (\<lambda>reply.
           case reply_str reply of
             None \<Rightarrow> fail NullDeref
           | Some str \<Rightarrow>
               bind (lift (strtol_from1 str)) (\<lambda>parentId. ret (parentId, CHR ''/'' # buffer2 @ out))))"

partial_function (option) path_loop ::
    "'s server \<Rightarrow> nat \<Rightarrow> clong \<Rightarrow> string \<Rightarrow> 's \<Rightarrow> (string outcome \<times> 's) option" where
  "path_loop srv cap currentId out s =
     (if currentId = 0 then
        Some (if length out + 2 > cap then Fault BufferOverflow else Ok (out @ ''/''), s)
      else
        (case path_step srv cap currentId out s of
           (Fault e, s') \<Rightarrow> Some (Fault e, s')
         | (Ok (parentId, out'), s') \<Rightarrow> path_loop srv cap parentId out' s'))"

definition vfs_getDirPathFromId ::
    "'s server \<Rightarrow> clong \<Rightarrow> nat \<Rightarrow> 's \<Rightarrow> (string outcome \<times> 's) option" where
  "vfs_getDirPathFromId srv inputId cap s =
     (if cap = 0 then Some (Fault BufferOverflow, s) else path_loop srv cap inputId [] s)"

section \<open>Creating the database\<close>

definition vfs_buildDatabase :: "'s server \<Rightarrow> ('s, unit) op" where
  "vfs_buildDatabase srv =
     bind (redis_call srv ''FLUSHALL'' []) (\<lambda>_.
     bind (priv_mkdir srv 0 0 ''root'') (\<lambda>_.
     bind (redis_call srv ''SET current_id_count 1'' []) (\<lambda>_.
     bind (redis_call srv ''SET isVirtualFileSystemCreated yes'' []) (\<lambda>_. ret ()))))"

text \<open>\<^verbatim>\<open>(int) reply->integer\<close>\<close>

definition isVirtualFileSystemCreated :: "'s server \<Rightarrow> ('s, cint) op" where
  "isVirtualFileSystemCreated srv =
     bind (redis_reply srv ''EXISTS isVirtualFileSystemCreated'' []) (\<lambda>reply.
       ret (ucast (reply_integer reply)))"

definition buildDatabaseIfRequired :: "'s server \<Rightarrow> ('s, unit) op" where
  "buildDatabaseIfRequired srv =
     bind (isVirtualFileSystemCreated srv) (\<lambda>created.
       if created = 0 then vfs_buildDatabase srv else ret ())"

end
