(* ===== verification/VfsStore.thy ===== *)
theory VfsStore
  imports Vfs
begin

text \<open>
  What the operations of \<^verbatim>\<open>vfs.c\<close> send and store. The keys of the database are distinct for
  distinct ids, every command the layer formats is the argument vector listed here, and the stored
  records are the hashes \<open>dir_hash\<close> and \<open>file_hash\<close>, whose quoted fields the getters read back.
\<close>

section \<open>Keys\<close>

definition folder_info :: "clong \<Rightarrow> string" where
  "folder_info d = ''FOLDER_'' @ show_ulong d @ ''_info''"

definition folder_folders :: "clong \<Rightarrow> string" where
  "folder_folders d = ''FOLDER_'' @ show_ulong d @ ''_folders''"

definition folder_files :: "clong \<Rightarrow> string" where
  "folder_files d = ''FOLDER_'' @ show_ulong d @ ''_files''"

definition file_info :: "clong \<Rightarrow> string" where
  "file_info f = ''FILE_'' @ show_ulong f @ ''_info''"

lemmas key_defs = folder_info_def folder_folders_def folder_files_def file_info_def

lemma ulong_key_eq:
  "show_ulong d @ CHR ''_'' # t = show_ulong e @ CHR ''_'' # u \<longleftrightarrow> d = e \<and> t = u"
  unfolding show_ulong_def word_unat_eq_iff
  by (auto dest: dec_append_eqD)

lemma key_eqs [simp]:
  "folder_info d = folder_info e \<longleftrightarrow> d = e" "folder_folders d = folder_folders e \<longleftrightarrow> d = e"
  "folder_files d = folder_files e \<longleftrightarrow> d = e" "file_info d = file_info e \<longleftrightarrow> d = e"
  by (simp_all add: key_defs ulong_key_eq)

lemma key_distinct [simp]:
  "folder_info d \<noteq> folder_folders e" "folder_info d \<noteq> folder_files e" "folder_info d \<noteq> file_info e"
  "folder_folders d \<noteq> folder_info e" "folder_folders d \<noteq> folder_files e"
  "folder_folders d \<noteq> file_info e" "folder_files d \<noteq> folder_info e"
  "folder_files d \<noteq> folder_folders e" "folder_files d \<noteq> file_info e"
  "file_info d \<noteq> folder_info e" "file_info d \<noteq> folder_folders e" "file_info d \<noteq> folder_files e"
  by (simp_all add: key_defs ulong_key_eq)

abbreviation ID_COUNT :: string where "ID_COUNT \<equiv> ''current_id_count''"
abbreviation CREATED :: string where "CREATED \<equiv> ''isVirtualFileSystemCreated''"

lemma key_constants [simp]:
  "folder_info d \<noteq> ID_COUNT" "folder_folders d \<noteq> ID_COUNT" "folder_files d \<noteq> ID_COUNT"
  "file_info d \<noteq> ID_COUNT" "folder_info d \<noteq> CREATED" "folder_folders d \<noteq> CREATED"
  "folder_files d \<noteq> CREATED" "file_info d \<noteq> CREATED"
  "ID_COUNT \<noteq> folder_info d" "ID_COUNT \<noteq> folder_folders d" "ID_COUNT \<noteq> folder_files d"
  "ID_COUNT \<noteq> file_info d" "CREATED \<noteq> folder_info d" "CREATED \<noteq> folder_folders d"
  "CREATED \<noteq> folder_files d" "CREATED \<noteq> file_info d"
  by (simp_all add: key_defs)

section \<open>Records\<close>

definition quoted :: "string \<Rightarrow> string" where
  "quoted s = CHR 0x22 # s @ [CHR 0x22]"

lemma c_str_quoted [simp]: "no_nul s \<Longrightarrow> c_str (quoted s) = quoted s"
  by (simp add: quoted_def)

text \<open>The getters strip the quotes again, when the name fits the caller's buffer.\<close>

lemma strip_quotes_quoted [simp]:
  "no_nul s \<Longrightarrow> length s < cap \<Longrightarrow> strip_quotes cap (Some (quoted s)) = Ok s"
  by (simp add: strip_quotes_def Let_def) (simp add: quoted_def)

lemma strtol_quoted_ulong [simp]:
  "0 \<le> sint w \<Longrightarrow> strtol_from1 (quoted (show_ulong w)) = Ok w"
proof -
  assume nonneg: "0 \<le> sint w"
  have "strtol (dec (unat w) @ [CHR 0x22]) = strtol (show_ulong w)"
    using strtol_dec_gen [of "unat w" "[CHR 0x22]"] strtol_dec_gen [of "unat w" "[]"]
    by (simp add: show_ulong_def)
  then show ?thesis using nonneg by (simp add: strtol_from1_def) (simp add: quoted_def show_ulong_def)
qed

section \<open>Commands\<close>

lemma argv_get_id: "fmt_argv ''GET current_id_count'' [] = Ok (Some [''GET'', ID_COUNT])"
  by (simp add: fmt_eval)

lemma argv_incr_id: "fmt_argv ''INCR current_id_count'' [] = Ok (Some [''INCR'', ID_COUNT])"
  by (simp add: fmt_eval)

lemma argv_mkdir:
  "fmt_argv (''HMSET FOLDER_%lu_info  parent %lu name '' @ [CHR 0x22] @ ''%s'' @ [CHR 0x22] @
        '' createdData '' @ [CHR 0x22] @ ''%s'' @ [CHR 0x22])
     [ArgLong oid, ArgLong p, ArgStr name, ArgStr date] =
   Ok (Some [''HMSET'', folder_info oid, ''parent'', show_ulong p, ''name'', quoted (c_str name),
             ''createdData'', quoted (c_str date)])"
  by (simp add: fmt_eval folder_info_def quoted_def)

lemma argv_createFile:
  "fmt_argv (''HMSET FILE_%lu_info name '' @ [CHR 0x22] @ ''%s'' @ [CHR 0x22] @
        '' size '' @ [CHR 0x22] @ ''%lu'' @ [CHR 0x22] @
        '' createdData '' @ [CHR 0x22] @ ''%s'' @ [CHR 0x22] @
        '' id '' @ [CHR 0x22] @ ''%s'' @ [CHR 0x22] @
        '' webUrl '' @ [CHR 0x22] @ ''%s'' @ [CHR 0x22] @
        '' apiUrl '' @ [CHR 0x22] @ ''%s'' @ [CHR 0x22] @ '' '')
     [ArgLong oid, ArgStr name, ArgLong sz, ArgStr date, ArgStr g, ArgStr w, ArgStr u] =
   Ok (Some [''HMSET'', file_info oid, ''name'', quoted (c_str name), ''size'',
             quoted (show_ulong sz), ''createdData'', quoted (c_str date), ''id'',
             quoted (c_str g), ''webUrl'', quoted (c_str w), ''apiUrl'', quoted (c_str u)])"
  by (simp add: fmt_eval file_info_def quoted_def)

lemma argv_lpush_folders:
  "fmt_argv ''LPUSH FOLDER_%lu_folders %lu'' [ArgLong d, ArgLong oid] =
   Ok (Some [''LPUSH'', folder_folders d, show_ulong oid])"
  by (simp add: fmt_eval folder_folders_def)

lemma argv_lpush_files:
  "fmt_argv ''LPUSH FOLDER_%lu_files %lu'' [ArgLong d, ArgLong oid] =
   Ok (Some [''LPUSH'', folder_files d, show_ulong oid])"
  by (simp add: fmt_eval folder_files_def)

lemma argv_lrem_folders:
  "0 \<le> sint d \<Longrightarrow> fmt_argv ''LREM FOLDER_%ld_folders 0 %ld'' [ArgLong d, ArgLong oid] =
   Ok (Some [''LREM'', folder_folders d, ''0'', show_long oid])"
  by (simp add: fmt_eval folder_folders_def show_long_nonneg)

lemma argv_lrem_files:
  "0 \<le> sint d \<Longrightarrow> fmt_argv ''LREM FOLDER_%ld_files 0 %ld'' [ArgLong d, ArgLong oid] =
   Ok (Some [''LREM'', folder_files d, ''0'', show_long oid])"
  by (simp add: fmt_eval folder_files_def show_long_nonneg)

lemma argv_setFileName:
  "fmt_argv (''HSET FILE_%lu_info name '' @ [CHR 0x22] @ ''%s'' @ [CHR 0x22])
     [ArgLong oid, ArgStr name] =
   Ok (Some [''HSET'', file_info oid, ''name'', quoted (c_str name)])"
  by (simp add: fmt_eval file_info_def quoted_def)

lemma argv_setDirParent:
  "fmt_argv ''HSET FOLDER_%lu_info parent %ld'' [ArgLong d, ArgLong p] =
   Ok (Some [''HSET'', folder_info d, ''parent'', show_long p])"
  by (simp add: fmt_eval folder_info_def)

lemma argv_getters:
  "fmt_argv ''HGET FILE_%lu_info name'' [ArgLong oid] = Ok (Some [''HGET'', file_info oid, ''name''])"
  "fmt_argv ''HGET FILE_%lu_info apiUrl'' [ArgLong oid] =
     Ok (Some [''HGET'', file_info oid, ''apiUrl''])"
  "fmt_argv ''HGET FILE_%lu_info size'' [ArgLong oid] = Ok (Some [''HGET'', file_info oid, ''size''])"
  "fmt_argv ''HGET FOLDER_%lu_info name'' [ArgLong oid] =
     Ok (Some [''HGET'', folder_info oid, ''name''])"
  "fmt_argv ''HGET FOLDER_%lu_info parent'' [ArgLong oid] =
     Ok (Some [''HGET'', folder_info oid, ''parent''])"
  by (simp_all add: fmt_eval key_defs)

lemma argv_lrange:
  "fmt_argv ''LRANGE FOLDER_%lu_folders 0 -1'' [ArgLong d] =
     Ok (Some [''LRANGE'', folder_folders d, ''0'', ''-1''])"
  "fmt_argv ''LRANGE FOLDER_%lu_files 0 -1'' [ArgLong d] =
     Ok (Some [''LRANGE'', folder_files d, ''0'', ''-1''])"
  "fmt_argv ''LRANGE FOLDER_%lu_files   0 -1'' [ArgLong d] =
     Ok (Some [''LRANGE'', folder_files d, ''0'', ''-1''])"
  by (simp_all add: fmt_eval key_defs)

lemma argv_build:
  "fmt_argv ''FLUSHALL'' [] = Ok (Some [''FLUSHALL''])"
  "fmt_argv ''SET current_id_count 1'' [] = Ok (Some [''SET'', ID_COUNT, ''1''])"
  "fmt_argv ''SET isVirtualFileSystemCreated yes'' [] = Ok (Some [''SET'', CREATED, ''yes''])"
  "fmt_argv ''EXISTS isVirtualFileSystemCreated'' [] = Ok (Some [''EXISTS'', CREATED])"
  by (simp_all add: fmt_eval)

lemmas argv_rules = argv_get_id argv_incr_id argv_mkdir argv_createFile argv_lpush_folders
  argv_lpush_files argv_lrem_folders argv_lrem_files argv_setFileName argv_setDirParent
  argv_getters argv_lrange argv_build

section \<open>The operations on the key space\<close>

text \<open>
  A server that behaves as documented. What each operation returns and how it changes the key space,
  under the contents of the keys it reads.
\<close>

locale redis =
  fixes srv :: "'s server" and view :: "'s \<Rightarrow> keyspace"
  assumes documented: "redis_server srv view"
begin

lemmas call = wp_redis_call [OF documented] and reply = wp_redis_reply [OF documented]

lemma wp_getNewId:
  assumes "view s ID_COUNT = Some (RStr (show_long n))" and "sint n < 2 ^ 63 - 1"
    and "\<And>s'. view s' = (view s)(ID_COUNT \<mapsto> RStr (show_long (n + 1))) \<Longrightarrow> Q n s'"
  shows "wp (getNewId srv) Q s"
  unfolding getNewId_def wp_bind
proof (rule reply [OF argv_get_id])
  show "redis_doc (view s) [''GET'', ID_COUNT] = Some (Reply_String (show_long n), view s)"
    using assms(1) by (simp add: redis_doc_def)
next
  fix s1 assume s1: "view s1 = view s"
  have "wp (redis_call srv ''INCR current_id_count'' []) (\<lambda>_. Q n) s1"
  proof (rule call [OF argv_incr_id])
    show "redis_doc (view s1) [''INCR'', ID_COUNT] =
        Some (Reply_Integer (n + 1), (view s)(ID_COUNT \<mapsto> RStr (show_long (n + 1))))"
      using assms(1,2) by (simp add: redis_doc_def s1)
  qed (rule assms(3))
  then show "wp (case reply_str (Reply_String (show_long n)) of None \<Rightarrow> ret (- 1)
      | Some str \<Rightarrow> bind (redis_call srv ''INCR current_id_count'' []) (\<lambda>_. ret (strtol str))) Q s1"
    by simp
qed

lemma wp_lpush_folders:
  assumes "as_list (view s (folder_folders d)) = Some xs"
    and "\<And>r s'. view s' = (view s)(folder_folders d \<mapsto> RList (show_ulong oid # xs)) \<Longrightarrow> Q r s'"
  shows "wp (redis_call srv ''LPUSH FOLDER_%lu_folders %lu'' [ArgLong d, ArgLong oid]) Q s"
  by (rule call [OF argv_lpush_folders]) (simp add: redis_doc_def assms, rule assms, assumption)

lemma wp_addDir:
  assumes "as_list (view s (folder_folders d)) = Some xs"
    and "\<And>s'. view s' = (view s)(folder_folders d \<mapsto> RList (show_ulong oid # xs)) \<Longrightarrow> Q () s'"
  shows "wp (priv_addDirToFolderList srv d oid) Q s"
  unfolding priv_addDirToFolderList_def wp_bind wp_ret by (rule wp_lpush_folders [OF assms(1)]) (rule assms(2))

lemma wp_addFile:
  assumes "as_list (view s (folder_files d)) = Some xs"
    and "\<And>s'. view s' = (view s)(folder_files d \<mapsto> RList (show_ulong oid # xs)) \<Longrightarrow> Q () s'"
  shows "wp (priv_addFileToFileList srv d oid) Q s"
  unfolding priv_addFileToFileList_def wp_bind wp_ret
  by (rule call [OF argv_lpush_files]) (simp add: redis_doc_def assms, rule assms, assumption)

lemma wp_removeDir:
  assumes "0 \<le> sint d" and "as_list (view s (folder_folders d)) = Some xs"
    and "\<And>s'. view s' = (view s)(folder_folders d := put_list (removeAll (show_long oid) xs)) \<Longrightarrow>
           Q () s'"
  shows "wp (priv_removeIdFromFolderList srv d oid) Q s"
  unfolding priv_removeIdFromFolderList_def wp_bind wp_ret
  by (rule call [OF argv_lrem_folders [OF assms(1)]]) (simp add: redis_doc_def assms(2), rule assms(3))

lemma wp_removeFile:
  assumes "0 \<le> sint d" and "as_list (view s (folder_files d)) = Some xs"
    and "\<And>s'. view s' = (view s)(folder_files d := put_list (removeAll (show_long oid) xs)) \<Longrightarrow>
           Q () s'"
  shows "wp (priv_removeIdFromFileList srv d oid) Q s"
  unfolding priv_removeIdFromFileList_def wp_bind wp_ret
  by (rule call [OF argv_lrem_files [OF assms(1)]]) (simp add: redis_doc_def assms(2), rule assms(3))

lemma wp_priv_mkdir:
  assumes "as_hash (view s (folder_info oid)) = Some h"
    and "\<And>s'. view s' = (view s)(folder_info oid \<mapsto>
            RHash (h(''parent'' \<mapsto> show_ulong p, ''name'' \<mapsto> quoted (c_str name),
                     ''createdData'' \<mapsto> quoted ''march 7th''))) \<Longrightarrow> Q () s'"
  shows "wp (priv_mkdir srv p oid name) Q s"
  unfolding priv_mkdir_def wp_bind wp_ret
  by (rule call [OF argv_mkdir]) (simp add: redis_doc_def assms, rule assms, assumption)

lemma wp_priv_createFile:
  assumes "as_hash (view s (file_info oid)) = Some h"
    and "\<And>s'. view s' = (view s)(file_info oid \<mapsto>
            RHash (h(''name'' \<mapsto> quoted (c_str name), ''size'' \<mapsto> quoted (show_ulong sz),
                     ''createdData'' \<mapsto> quoted ''march 7th'', ''id'' \<mapsto> quoted (c_str g),
                     ''webUrl'' \<mapsto> quoted (c_str w), ''apiUrl'' \<mapsto> quoted (c_str u)))) \<Longrightarrow> Q () s'"
  shows "wp (priv_createFile srv oid name sz g w u) Q s"
  unfolding priv_createFile_def wp_bind wp_ret
  by (rule call [OF argv_createFile]) (simp add: redis_doc_def assms, rule assms, assumption)

lemma wp_setFileName:
  assumes "as_hash (view s (file_info oid)) = Some h"
    and "\<And>s'. view s' = (view s)(file_info oid \<mapsto>
            RHash (h(''name'' \<mapsto> quoted (c_str (take n name))))) \<Longrightarrow> Q () s'"
  shows "wp (vfs_setFileName srv oid name n) Q s"
  unfolding vfs_setFileName_def wp_bind wp_ret
  by (rule call [OF argv_setFileName]) (simp add: redis_doc_def assms, rule assms, assumption)

lemma wp_setDirParent:
  assumes "as_hash (view s (folder_info d)) = Some h"
    and "\<And>s'. view s' = (view s)(folder_info d \<mapsto> RHash (h(''parent'' \<mapsto> show_long p))) \<Longrightarrow> Q () s'"
  shows "wp (vfs_setDirParent srv d p) Q s"
  unfolding vfs_setDirParent_def wp_bind wp_ret
  by (rule call [OF argv_setDirParent]) (simp add: redis_doc_def assms, rule assms, assumption)

text \<open>Getters; the key space does not change.\<close>

lemma wp_hget_gen:
  assumes "fmt_argv fmt args = Ok (Some [''HGET'', k, f])" and "view s k = Some (RHash h)"
    and "h f = Some v" and "\<And>s'. view s' = view s \<Longrightarrow> Q (Reply_String v) s'"
  shows "wp (redis_reply srv fmt args) Q s"
  by (rule reply [OF assms(1)]) (simp add: redis_doc_def assms(2,3), rule assms(4))

lemma wp_getFileName:
  assumes "view s (file_info oid) = Some (RHash h)" and "h ''name'' = Some (quoted name)"
    and "no_nul name" and "length name < cap" and "\<And>s'. view s' = view s \<Longrightarrow> Q name s'"
  shows "wp (vfs_getFileName srv oid cap) Q s"
  unfolding vfs_getFileName_def wp_bind
  by (rule wp_hget_gen [OF argv_getters(1) assms(1,2)]) (simp add: assms(3-))

lemma wp_getFileWebUrl:
  assumes "view s (file_info oid) = Some (RHash h)" and "h ''apiUrl'' = Some (quoted u)"
    and "no_nul u" and "length u < cap" and "\<And>s'. view s' = view s \<Longrightarrow> Q u s'"
  shows "wp (vfs_getFileWebUrl srv oid cap) Q s"
  unfolding vfs_getFileWebUrl_def wp_bind
  by (rule wp_hget_gen [OF argv_getters(2) assms(1,2)]) (simp add: assms(3-))

lemma wp_getFileSize:
  assumes "view s (file_info oid) = Some (RHash h)" and "h ''size'' = Some (quoted (show_ulong sz))"
    and "0 \<le> sint sz" and "\<And>s'. view s' = view s \<Longrightarrow> Q sz s'"
  shows "wp (vfs_getFileSizeFromId srv oid) Q s"
  unfolding vfs_getFileSizeFromId_def wp_bind
  by (rule wp_hget_gen [OF argv_getters(3) assms(1,2)]) (simp add: assms(3-))

lemma wp_getFolderName:
  assumes "view s (folder_info oid) = Some (RHash h)" and "h ''name'' = Some (quoted name)"
    and "no_nul name" and "length name < cap" and "\<And>s'. view s' = view s \<Longrightarrow> Q name s'"
  shows "wp (vfs_getFolderName srv oid cap) Q s"
  unfolding vfs_getFolderName_def wp_bind
  by (rule wp_hget_gen [OF argv_getters(4) assms(1,2)]) (simp add: assms(3-))

lemma wp_getDirParent:
  assumes "view s (folder_info oid) = Some (RHash h)" and "h ''parent'' = Some (show_ulong p)"
    and "0 \<le> sint p" and "\<And>s'. view s' = view s \<Longrightarrow> Q p s'"
  shows "wp (vfs_getDirParent srv oid) Q s"
  unfolding vfs_getDirParent_def wp_bind
  by (rule wp_hget_gen [OF argv_getters(5) assms(1,2)]) (simp add: assms(3-))

lemma wp_lrange_gen:
  assumes "fmt_argv fmt args = Ok (Some [''LRANGE'', k, ''0'', ''-1''])"
    and "as_list (view s k) = Some xs"
    and "\<And>s'. view s' = view s \<Longrightarrow> Q (Reply_Array (map Reply_String xs)) s'"
  shows "wp (redis_reply srv fmt args) Q s"
  by (rule reply [OF assms(1)]) (simp add: redis_doc_def assms(2), rule assms(3))

lemma wp_buildDatabase:
  assumes "\<And>s'. view s' = [CREATED \<mapsto> RStr ''yes'', ID_COUNT \<mapsto> RStr ''1'', folder_info 0 \<mapsto>
              RHash [''parent'' \<mapsto> show_ulong 0, ''name'' \<mapsto> quoted ''root'',
                     ''createdData'' \<mapsto> quoted ''march 7th'']] \<Longrightarrow> Q () s'"
  shows "wp (vfs_buildDatabase srv) Q s"
  unfolding vfs_buildDatabase_def wp_bind wp_ret
  apply (rule call [OF argv_build(1)], simp add: redis_doc_def)
  apply (rule wp_priv_mkdir, simp)
  apply (rule call [OF argv_build(2)], simp add: redis_doc_def)
  apply (rule call [OF argv_build(3)], simp add: redis_doc_def)
  apply (rule assms)
  apply (auto simp: fun_eq_iff)
  done

lemma wp_isCreated:
  assumes "\<And>s'. view s' = view s \<Longrightarrow> Q (if view s CREATED = None then 0 else 1) s'"
  shows "wp (isVirtualFileSystemCreated srv) Q s"
  unfolding isVirtualFileSystemCreated_def wp_bind wp_ret
  by (rule reply [OF argv_build(4)]) (simp add: redis_doc_def, drule assms, cases "view s CREATED", simp_all)

end

interpretation doc: redis doc_server "\<lambda>db. db"
  by unfold_locales (rule redis_server_doc_server)

end
