(* ===== verification/VfsSpec.thy ===== *)
theory VfsSpec
  imports VfsStore
begin

text \<open>
  The abstract file system the operations of \<^verbatim>\<open>vfs.c\<close> implement: folders and files by id, the
  folder and file list of every folder, the next free id. \<open>fs_rep\<close> says which key spaces represent
  it; \<open>fs_ok\<close> is its well-formedness invariant and \<open>fs_tree\<close> says that the lists and the parents
  agree. A \<open>request\<close> is one call of a state-changing operation; \<open>fs_step\<close> is the step relation of
  the requests the file system accepts.
\<close>

section \<open>The abstract state\<close>

record dirent =
  dir_name :: string
  dir_parent :: clong

record fileent =
  file_name :: string
  file_size :: clong
  file_googleId :: string
  file_webUrl :: string
  file_apiUrl :: string

record fs =
  fs_next :: clong
  fs_dir :: "clong \<rightharpoonup> dirent"
  fs_file :: "clong \<rightharpoonup> fileent"
  fs_subdirs :: "clong \<Rightarrow> clong list"
  fs_files :: "clong \<Rightarrow> clong list"

definition fs_init :: fs where
  "fs_init = \<lparr>fs_next = 1, fs_dir = [0 \<mapsto> \<lparr>dir_name = ''root'', dir_parent = 0\<rparr>],
     fs_file = Map.empty, fs_subdirs = (\<lambda>_. []), fs_files = (\<lambda>_. [])\<rparr>"

section \<open>Representation in the key space\<close>

definition dir_hash :: "dirent \<Rightarrow> rvalue" where
  "dir_hash e = RHash [''parent'' \<mapsto> show_ulong (dir_parent e),
     ''name'' \<mapsto> quoted (dir_name e), ''createdData'' \<mapsto> quoted ''march 7th'']"

definition file_hash :: "fileent \<Rightarrow> rvalue" where
  "file_hash e = RHash [''name'' \<mapsto> quoted (file_name e), ''size'' \<mapsto> quoted (show_ulong (file_size e)),
     ''createdData'' \<mapsto> quoted ''march 7th'', ''id'' \<mapsto> quoted (file_googleId e),
     ''webUrl'' \<mapsto> quoted (file_webUrl e), ''apiUrl'' \<mapsto> quoted (file_apiUrl e)]"

definition fs_rep :: "keyspace \<Rightarrow> fs \<Rightarrow> bool" where
  "fs_rep db a \<longleftrightarrow>
     db ID_COUNT = Some (RStr (show_long (fs_next a))) \<and>
     (\<forall>d. db (folder_info d) = map_option dir_hash (fs_dir a d)) \<and>
     (\<forall>f. db (file_info f) = map_option file_hash (fs_file a f)) \<and>
     (\<forall>d. db (folder_folders d) = put_list (map show_ulong (fs_subdirs a d))) \<and>
     (\<forall>d. db (folder_files d) = put_list (map show_ulong (fs_files a d)))"

lemma as_list_put_list [simp]: "as_list (put_list xs) = Some xs"
  by (simp add: put_list_def)

lemma put_list_Cons [simp]: "put_list (x # xs) = Some (RList (x # xs))"
  by (simp add: put_list_def)

lemma fs_repD:
  assumes "fs_rep db a"
  shows "db ID_COUNT = Some (RStr (show_long (fs_next a)))"
    and "db (folder_info d) = map_option dir_hash (fs_dir a d)"
    and "db (file_info f) = map_option file_hash (fs_file a f)"
    and "db (folder_folders d) = put_list (map show_ulong (fs_subdirs a d))"
    and "db (folder_files d) = put_list (map show_ulong (fs_files a d))"
  using assms by (simp_all add: fs_rep_def)

section \<open>Operations\<close>

definition add_dir :: "clong \<Rightarrow> string \<Rightarrow> fs \<Rightarrow> fs" where
  "add_dir p name a =
     a\<lparr>fs_next := fs_next a + 1,
       fs_dir := (fs_dir a)(fs_next a \<mapsto> \<lparr>dir_name = name, dir_parent = p\<rparr>),
       fs_subdirs := (fs_subdirs a)(p := fs_next a # fs_subdirs a p)\<rparr>"

definition add_file :: "clong \<Rightarrow> fileent \<Rightarrow> fs \<Rightarrow> fs" where
  "add_file p e a =
     a\<lparr>fs_next := fs_next a + 1,
       fs_file := (fs_file a)(fs_next a \<mapsto> e),
       fs_files := (fs_files a)(p := fs_next a # fs_files a p)\<rparr>"

definition link_dir :: "clong \<Rightarrow> clong \<Rightarrow> fs \<Rightarrow> fs" where
  "link_dir p c a = a\<lparr>fs_subdirs := (fs_subdirs a)(p := c # fs_subdirs a p)\<rparr>"

definition link_file :: "clong \<Rightarrow> clong \<Rightarrow> fs \<Rightarrow> fs" where
  "link_file p c a = a\<lparr>fs_files := (fs_files a)(p := c # fs_files a p)\<rparr>"

definition unlink_dir :: "clong \<Rightarrow> clong \<Rightarrow> fs \<Rightarrow> fs" where
  "unlink_dir p c a = a\<lparr>fs_subdirs := (fs_subdirs a)(p := removeAll c (fs_subdirs a p))\<rparr>"

definition unlink_file :: "clong \<Rightarrow> clong \<Rightarrow> fs \<Rightarrow> fs" where
  "unlink_file p c a = a\<lparr>fs_files := (fs_files a)(p := removeAll c (fs_files a p))\<rparr>"

definition set_file_name :: "clong \<Rightarrow> string \<Rightarrow> fs \<Rightarrow> fs" where
  "set_file_name f name a =
     a\<lparr>fs_file := (fs_file a)(f := map_option (\<lambda>e. e\<lparr>file_name := name\<rparr>) (fs_file a f))\<rparr>"

definition set_dir_parent :: "clong \<Rightarrow> clong \<Rightarrow> fs \<Rightarrow> fs" where
  "set_dir_parent d p a =
     a\<lparr>fs_dir := (fs_dir a)(d := map_option (\<lambda>e. e\<lparr>dir_parent := p\<rparr>) (fs_dir a d))\<rparr>"

lemmas fs_op_defs = add_dir_def add_file_def link_dir_def link_file_def unlink_dir_def
  unlink_file_def set_file_name_def set_dir_parent_def

section \<open>Well-formedness\<close>

text \<open>A name the getters can return: no NUL, and it fits their buffers.\<close>

definition name_ok :: "string \<Rightarrow> bool" where
  "name_ok n \<longleftrightarrow> no_nul n \<and> length n < MAX_FILENAME_SIZE"

definition id_used :: "fs \<Rightarrow> clong \<Rightarrow> bool" where
  "id_used a i \<longleftrightarrow> 0 \<le> sint i \<and> sint i < sint (fs_next a)"

definition dirent_ok :: "fs \<Rightarrow> clong \<Rightarrow> dirent \<Rightarrow> bool" where
  "dirent_ok a d e \<longleftrightarrow> id_used a d \<and> name_ok (dir_name e) \<and> dir_parent e \<in> dom (fs_dir a)"

definition fileent_ok :: "fs \<Rightarrow> clong \<Rightarrow> fileent \<Rightarrow> bool" where
  "fileent_ok a f e \<longleftrightarrow> id_used a f \<and> name_ok (file_name e) \<and> 0 \<le> sint (file_size e)"

definition fs_ok :: "fs \<Rightarrow> bool" where
  "fs_ok a \<longleftrightarrow>
     0 \<in> dom (fs_dir a) \<and>
     (\<forall>d e. fs_dir a d = Some e \<longrightarrow> dirent_ok a d e) \<and>
     (\<forall>f e. fs_file a f = Some e \<longrightarrow> fileent_ok a f e) \<and>
     (\<forall>d. set (fs_subdirs a d) \<subseteq> dom (fs_dir a) \<and> distinct (fs_subdirs a d)) \<and>
     (\<forall>d. set (fs_files a d) \<subseteq> dom (fs_file a) \<and> distinct (fs_files a d))"

lemma fs_ok_root: "fs_ok a \<Longrightarrow> 0 \<in> dom (fs_dir a)"
  by (simp add: fs_ok_def)

lemma fs_ok_dir: "fs_ok a \<Longrightarrow> fs_dir a d = Some e \<Longrightarrow> dirent_ok a d e"
  by (simp add: fs_ok_def)

lemma fs_ok_file: "fs_ok a \<Longrightarrow> fs_file a f = Some e \<Longrightarrow> fileent_ok a f e"
  by (simp add: fs_ok_def)

lemma fs_ok_subdir: "fs_ok a \<Longrightarrow> c \<in> set (fs_subdirs a d) \<Longrightarrow> \<exists>e. fs_dir a c = Some e"
  by (auto simp: fs_ok_def)

lemma fs_ok_subfile: "fs_ok a \<Longrightarrow> c \<in> set (fs_files a d) \<Longrightarrow> \<exists>e. fs_file a c = Some e"
  by (auto simp: fs_ok_def)

lemma fs_ok_next: "fs_ok a \<Longrightarrow> 0 < sint (fs_next a)"
  using fs_ok_root [of a] fs_ok_dir [of a 0] by (auto simp: dirent_ok_def id_used_def)

lemma fs_ok_dir_nonneg: "fs_ok a \<Longrightarrow> fs_dir a d = Some e \<Longrightarrow> 0 \<le> sint d"
  by (auto dest!: fs_ok_dir simp: dirent_ok_def id_used_def)

lemma fs_ok_file_nonneg: "fs_ok a \<Longrightarrow> fs_file a d = Some e \<Longrightarrow> 0 \<le> sint d"
  by (auto dest!: fs_ok_file simp: fileent_ok_def id_used_def)

lemma fs_ok_parent_nonneg: "fs_ok a \<Longrightarrow> fs_dir a d = Some e \<Longrightarrow> 0 \<le> sint (dir_parent e)"
  by (metis fs_ok_dir dirent_ok_def domD fs_ok_dir_nonneg)

text \<open>The next id has never been used.\<close>

lemma fs_ok_fresh:
  assumes "fs_ok a"
  shows "fs_dir a (fs_next a) = None" "fs_file a (fs_next a) = None"
    "fs_next a \<notin> set (fs_subdirs a d)" "fs_next a \<notin> set (fs_files a d)"
proof -
  show "fs_dir a (fs_next a) = None"
    by (cases "fs_dir a (fs_next a)") (auto dest!: fs_ok_dir [OF assms] simp: dirent_ok_def id_used_def)
  moreover show "fs_file a (fs_next a) = None"
    by (cases "fs_file a (fs_next a)") (auto dest!: fs_ok_file [OF assms] simp: fileent_ok_def id_used_def)
  ultimately show "fs_next a \<notin> set (fs_subdirs a d)" "fs_next a \<notin> set (fs_files a d)"
    using fs_ok_subdir [OF assms] fs_ok_subfile [OF assms] by fastforce+
qed

text \<open>In a tree the lists and the stored parents agree, and parents are older than their children.\<close>

definition fs_tree :: "fs \<Rightarrow> bool" where
  "fs_tree a \<longleftrightarrow>
     (\<forall>d e. fs_dir a d = Some e \<longrightarrow> d \<noteq> 0 \<longrightarrow> sint (dir_parent e) < sint d) \<and>
     (\<forall>d c. c \<in> set (fs_subdirs a d) \<longrightarrow> c \<noteq> 0 \<and> (\<forall>e. fs_dir a c = Some e \<longrightarrow> dir_parent e = d)) \<and>
     (\<forall>d d' f. f \<in> set (fs_files a d) \<longrightarrow> f \<in> set (fs_files a d') \<longrightarrow> d = d')"

lemma fs_ok_init: "fs_ok fs_init"
  by (auto simp: fs_ok_def fs_init_def dirent_ok_def id_used_def name_ok_def MAX_FILENAME_SIZE_def
      split: if_splits)

lemma fs_tree_init: "fs_tree fs_init"
  by (simp add: fs_tree_def fs_init_def)

section \<open>Requests\<close>

datatype request =
    Mkdir clong string
  | CreateFile clong string clong string string string
  | LinkDir clong clong
  | LinkFile clong clong
  | UnlinkDir clong clong
  | UnlinkFile clong clong
  | SetFileName clong string nat
  | SetDirParent clong clong

text \<open>The call that a request stands for.\<close>

fun run_request :: "'s server \<Rightarrow> request \<Rightarrow> ('s, unit) op" where
  "run_request srv (Mkdir p name) = bind (vfs_mkdir srv p name) (\<lambda>_. ret ())"
| "run_request srv (CreateFile p name sz g w u) =
     bind (vfs_createFile srv p name sz g w u) (\<lambda>_. ret ())"
| "run_request srv (LinkDir p c) = priv_addDirToFolderList srv p c"
| "run_request srv (LinkFile p c) = priv_addFileToFileList srv p c"
| "run_request srv (UnlinkDir p c) = priv_removeIdFromFolderList srv p c"
| "run_request srv (UnlinkFile p c) = priv_removeIdFromFileList srv p c"
| "run_request srv (SetFileName f name n) = vfs_setFileName srv f name n"
| "run_request srv (SetDirParent d p) = vfs_setDirParent srv d p"

fun apply_request :: "request \<Rightarrow> fs \<Rightarrow> fs" where
  "apply_request (Mkdir p name) a = add_dir p (c_str name) a"
| "apply_request (CreateFile p name sz g w u) a =
     add_file p \<lparr>file_name = c_str name, file_size = sz, file_googleId = c_str g,
       file_webUrl = c_str w, file_apiUrl = c_str u\<rparr> a"
| "apply_request (LinkDir p c) a = link_dir p c a"
| "apply_request (LinkFile p c) a = link_file p c a"
| "apply_request (UnlinkDir p c) a = unlink_dir p c a"
| "apply_request (UnlinkFile p c) a = unlink_file p c a"
| "apply_request (SetFileName f name n) a = set_file_name f (c_str (take n name)) a"
| "apply_request (SetDirParent d p) a = set_dir_parent d p a"

text \<open>What a caller must see to: ids that exist, names that fit, an id count that can grow.\<close>

fun request_ok :: "request \<Rightarrow> fs \<Rightarrow> bool" where
  "request_ok (Mkdir p name) a \<longleftrightarrow>
     fs_dir a p \<noteq> None \<and> length (c_str name) < MAX_FILENAME_SIZE \<and> sint (fs_next a) < 2 ^ 63 - 1"
| "request_ok (CreateFile p name sz g w u) a \<longleftrightarrow>
     fs_dir a p \<noteq> None \<and> length (c_str name) < MAX_FILENAME_SIZE \<and> 0 \<le> sint sz \<and>
     sint (fs_next a) < 2 ^ 63 - 1"
| "request_ok (LinkDir p c) a \<longleftrightarrow>
     fs_dir a p \<noteq> None \<and> fs_dir a c \<noteq> None \<and> c \<notin> set (fs_subdirs a p)"
| "request_ok (LinkFile p c) a \<longleftrightarrow>
     fs_dir a p \<noteq> None \<and> fs_file a c \<noteq> None \<and> c \<notin> set (fs_files a p)"
| "request_ok (UnlinkDir p c) a \<longleftrightarrow> fs_dir a p \<noteq> None \<and> 0 \<le> sint c"
| "request_ok (UnlinkFile p c) a \<longleftrightarrow> fs_dir a p \<noteq> None \<and> 0 \<le> sint c"
| "request_ok (SetFileName f name n) a \<longleftrightarrow>
     fs_file a f \<noteq> None \<and> n \<le> length name \<and> length (c_str (take n name)) < MAX_FILENAME_SIZE"
| "request_ok (SetDirParent d p) a \<longleftrightarrow> fs_dir a d \<noteq> None \<and> fs_dir a p \<noteq> None"

text \<open>The requests after which the lists and the parents still agree.\<close>

fun tree_request :: "request \<Rightarrow> bool" where
  "tree_request (LinkDir p c) = False"
| "tree_request (LinkFile p c) = False"
| "tree_request (SetDirParent d p) = False"
| "tree_request _ = True"

section \<open>The step relation and its invariant\<close>

inductive fs_step :: "fs \<Rightarrow> fs \<Rightarrow> bool" where
  step: "request_ok r a \<Longrightarrow> fs_step a (apply_request r a)"

inductive fs_reachable :: "fs \<Rightarrow> bool" where
  start: "fs_reachable fs_init"
| more: "fs_reachable a \<Longrightarrow> fs_step a b \<Longrightarrow> fs_reachable b"

inductive_cases fs_stepE: "fs_step a b"

lemma sint_Suc:
  assumes "sint (n :: clong) < 2 ^ 63 - 1"
  shows "sint (n + 1) = sint n + 1"
proof -
  have "sint (n + 1) = signed_take_bit 63 (sint n + 1)"
    by (simp add: sint_word_ariths)
  also have "\<dots> = sint n + 1"
    using assms clong_sint_bounds [of n] by (intro signed_take_bit_int_eq_self) auto
  finally show ?thesis .
qed

lemma name_ok_c_str [simp]: "name_ok (c_str n) \<longleftrightarrow> length (c_str n) < MAX_FILENAME_SIZE"
  by (simp add: name_ok_def)

lemma dirent_ok_grow:
  assumes "dirent_ok a d e" and "sint (fs_next a) \<le> sint (fs_next b)"
    and "dom (fs_dir a) \<subseteq> dom (fs_dir b)"
  shows "dirent_ok b d e"
  using assms by (auto simp: dirent_ok_def id_used_def)

lemma fileent_ok_grow:
  assumes "fileent_ok a f e" and "sint (fs_next a) \<le> sint (fs_next b)"
  shows "fileent_ok b f e"
  using assms by (auto simp: fileent_ok_def id_used_def)

lemma fs_ok_add_dir:
  assumes ok: "fs_ok a" and p: "fs_dir a p \<noteq> None" and n: "name_ok name"
    and lt: "sint (fs_next a) < 2 ^ 63 - 1"
  shows "fs_ok (add_dir p name a)"
proof -
  let ?b = "add_dir p name a"
  have grow: "sint (fs_next a) \<le> sint (fs_next ?b)" "dom (fs_dir a) \<subseteq> dom (fs_dir ?b)"
    using sint_Suc [OF lt] by (auto simp: add_dir_def)
  have "dirent_ok ?b (fs_next a) \<lparr>dir_name = name, dir_parent = p\<rparr>"
    using p n fs_ok_next [OF ok] sint_Suc [OF lt]
    by (auto simp: dirent_ok_def id_used_def add_dir_def)
  moreover have "dirent_ok ?b d e" if "fs_dir a d = Some e" for d e
    using dirent_ok_grow [OF fs_ok_dir [OF ok that] grow] .
  moreover have "fileent_ok ?b f e" if "fs_file a f = Some e" for f e
    using fileent_ok_grow [OF fs_ok_file [OF ok that] grow(1)] .
  moreover have "set (fs_subdirs a d) \<subseteq> dom (fs_dir ?b)" for d
    using fs_ok_subdir [OF ok] grow(2) by blast
  ultimately show ?thesis
    using ok fs_ok_fresh [OF ok] by (auto simp: fs_ok_def add_dir_def split: if_splits)
qed

lemma fs_ok_add_file:
  assumes ok: "fs_ok a" and n: "name_ok (file_name e)" "0 \<le> sint (file_size e)"
    and lt: "sint (fs_next a) < 2 ^ 63 - 1"
  shows "fs_ok (add_file p e a)"
proof -
  let ?b = "add_file p e a"
  have grow: "sint (fs_next a) \<le> sint (fs_next ?b)" "dom (fs_dir a) \<subseteq> dom (fs_dir ?b)"
    using sint_Suc [OF lt] by (auto simp: add_file_def)
  have "fileent_ok ?b (fs_next a) e"
    using n fs_ok_next [OF ok] sint_Suc [OF lt]
    by (auto simp: fileent_ok_def id_used_def add_file_def)
  moreover have "dirent_ok ?b d e" if "fs_dir a d = Some e" for d e
    using dirent_ok_grow [OF fs_ok_dir [OF ok that] grow] .
  moreover have "fileent_ok ?b f e" if "fs_file a f = Some e" for f e
    using fileent_ok_grow [OF fs_ok_file [OF ok that] grow(1)] .
  ultimately show ?thesis
    using ok fs_ok_fresh [OF ok] by (auto simp: fs_ok_def add_file_def split: if_splits)
qed

lemma fs_ok_lists:
  assumes "fs_ok a" and "fs_next b = fs_next a" and "fs_dir b = fs_dir a" and "fs_file b = fs_file a"
    and "\<And>d. set (fs_subdirs b d) \<subseteq> dom (fs_dir a) \<and> distinct (fs_subdirs b d)"
    and "\<And>d. set (fs_files b d) \<subseteq> dom (fs_file a) \<and> distinct (fs_files b d)"
  shows "fs_ok b"
  using assms by (simp add: fs_ok_def dirent_ok_def fileent_ok_def id_used_def)

lemma fs_ok_listsD:
  "fs_ok a \<Longrightarrow> set (fs_subdirs a d) \<subseteq> dom (fs_dir a) \<and> distinct (fs_subdirs a d)"
  "fs_ok a \<Longrightarrow> set (fs_files a d) \<subseteq> dom (fs_file a) \<and> distinct (fs_files a d)"
  by (simp_all add: fs_ok_def)

lemma fs_ok_unlink:
  assumes "fs_ok a"
  shows "fs_ok (unlink_dir p c a)" "fs_ok (unlink_file p c a)"
  by (rule fs_ok_lists [OF assms];
      use fs_ok_listsD [OF assms] in \<open>force simp: unlink_dir_def unlink_file_def distinct_removeAll\<close>)+

lemma fs_ok_link:
  assumes "fs_ok a"
  shows "fs_dir a c \<noteq> None \<Longrightarrow> c \<notin> set (fs_subdirs a p) \<Longrightarrow> fs_ok (link_dir p c a)"
    and "fs_file a c \<noteq> None \<Longrightarrow> c \<notin> set (fs_files a p) \<Longrightarrow> fs_ok (link_file p c a)"
  by (rule fs_ok_lists [OF assms];
      use fs_ok_listsD [OF assms] in \<open>force simp: link_dir_def link_file_def\<close>)+

lemma fs_ok_set_dir_parent:
  assumes "fs_ok a" and "fs_dir a p \<noteq> None"
  shows "fs_ok (set_dir_parent d p a)"
proof -
  have "dom (fs_dir (set_dir_parent d p a)) = dom (fs_dir a)"
    by (auto simp: set_dir_parent_def)
  then show ?thesis
    using assms unfolding fs_ok_def dirent_ok_def fileent_ok_def id_used_def
    by (auto simp: set_dir_parent_def)
qed

lemma fs_ok_set_file_name:
  assumes "fs_ok a" and "name_ok name"
  shows "fs_ok (set_file_name f name a)"
proof -
  have "dom (fs_file (set_file_name f name a)) = dom (fs_file a)"
    by (auto simp: set_file_name_def)
  then show ?thesis
    using assms unfolding fs_ok_def dirent_ok_def fileent_ok_def id_used_def
    by (auto simp: set_file_name_def)
qed

lemma fs_ok_apply:
  assumes "fs_ok a" and "request_ok r a"
  shows "fs_ok (apply_request r a)"
  using assms
  by (cases r) (auto intro!: fs_ok_add_dir fs_ok_add_file fs_ok_unlink fs_ok_link
      fs_ok_set_dir_parent fs_ok_set_file_name)

lemma fs_ok_reachable: "fs_reachable a \<Longrightarrow> fs_ok a"
  by (induction rule: fs_reachable.induct) (auto simp: fs_ok_init elim!: fs_stepE intro: fs_ok_apply)

lemma fs_tree_parent: "fs_tree a \<Longrightarrow> fs_dir a d = Some e \<Longrightarrow> d \<noteq> 0 \<Longrightarrow> sint (dir_parent e) < sint d"
  by (simp add: fs_tree_def)

lemma fs_tree_subdir:
  "fs_tree a \<Longrightarrow> c \<in> set (fs_subdirs a d) \<Longrightarrow> c \<noteq> 0 \<and> (\<forall>e. fs_dir a c = Some e \<longrightarrow> dir_parent e = d)"
  by (simp add: fs_tree_def)

lemma fs_tree_file: "fs_tree a \<Longrightarrow> f \<in> set (fs_files a d) \<Longrightarrow> f \<in> set (fs_files a d') \<Longrightarrow> d = d'"
  by (simp add: fs_tree_def)

lemma fs_tree_add_dir:
  assumes ok: "fs_ok a" and tree: "fs_tree a" and p: "fs_dir a p \<noteq> None"
  shows "fs_tree (add_dir p name a)"
  unfolding fs_tree_def
proof (intro conjI allI impI)
  fix d e assume "fs_dir (add_dir p name a) d = Some e" "d \<noteq> 0"
  then show "sint (dir_parent e) < sint d"
    using p fs_tree_parent [OF tree] fs_ok_dir [OF ok, of p]
    by (auto simp: add_dir_def dirent_ok_def id_used_def split: if_splits)
next
  fix d c assume c: "c \<in> set (fs_subdirs (add_dir p name a) d)"
  then show "c \<noteq> 0"
    using fs_tree_subdir [OF tree] fs_ok_next [OF ok] by (auto simp: add_dir_def split: if_splits)
  fix e assume "fs_dir (add_dir p name a) c = Some e"
  with c show "dir_parent e = d"
    using fs_tree_subdir [OF tree] fs_ok_fresh [OF ok] by (auto simp: add_dir_def split: if_splits)
next
  fix d d' f assume "f \<in> set (fs_files (add_dir p name a) d)" "f \<in> set (fs_files (add_dir p name a) d')"
  then show "d = d'" using fs_tree_file [OF tree] by (simp add: add_dir_def)
qed

lemma fs_tree_add_file: "fs_ok a \<Longrightarrow> fs_tree a \<Longrightarrow> fs_tree (add_file p e a)"
  using fs_ok_fresh [of a] by (auto simp: fs_tree_def add_file_def split: if_splits)

lemma fs_tree_unlink: "fs_tree a \<Longrightarrow> fs_tree (unlink_dir p c a)" "fs_tree a \<Longrightarrow> fs_tree (unlink_file p c a)"
  by (auto simp: fs_tree_def unlink_dir_def unlink_file_def split: if_splits)

lemma fs_tree_set_file_name: "fs_tree a \<Longrightarrow> fs_tree (set_file_name f name a)"
  by (simp add: fs_tree_def set_file_name_def)

lemma fs_tree_apply:
  assumes "fs_ok a" and "fs_tree a" and "request_ok r a" and "tree_request r"
  shows "fs_tree (apply_request r a)"
  using assms
  by (cases r) (auto intro!: fs_tree_add_dir fs_tree_add_file fs_tree_unlink fs_tree_set_file_name)

text \<open>Sequences of requests.\<close>

fun requests_ok :: "request list \<Rightarrow> fs \<Rightarrow> bool" where
  "requests_ok [] a = True"
| "requests_ok (r # rs) a = (request_ok r a \<and> requests_ok rs (apply_request r a))"

definition apply_requests :: "request list \<Rightarrow> fs \<Rightarrow> fs" where
  "apply_requests rs a = fold apply_request rs a"

lemma apply_requests_simps [simp]:
  "apply_requests [] a = a"
  "apply_requests (r # rs) a = apply_requests rs (apply_request r a)"
  by (simp_all add: apply_requests_def)

fun run_requests :: "'s server \<Rightarrow> request list \<Rightarrow> ('s, unit) op" where
  "run_requests srv [] = ret ()"
| "run_requests srv (r # rs) = bind (run_request srv r) (\<lambda>_. run_requests srv rs)"

lemma fs_ok_apply_requests: "fs_ok a \<Longrightarrow> requests_ok rs a \<Longrightarrow> fs_ok (apply_requests rs a)"
  by (induction rs arbitrary: a) (auto intro: fs_ok_apply)

lemma fs_tree_apply_requests:
  "fs_ok a \<Longrightarrow> fs_tree a \<Longrightarrow> requests_ok rs a \<Longrightarrow> list_all tree_request rs \<Longrightarrow>
    fs_tree (apply_requests rs a)"
  by (induction rs arbitrary: a) (auto intro: fs_ok_apply fs_tree_apply)

lemma reachable_apply_requests:
  "fs_reachable a \<Longrightarrow> requests_ok rs a \<Longrightarrow> fs_reachable (apply_requests rs a)"
  by (induction rs arbitrary: a) (auto intro: fs_reachable.more fs_step.step)

end
