(* ===== verification/VfsRefine.thy ===== *)
theory VfsRefine
  imports VfsSpec
begin

text \<open>
  The operations of \<^verbatim>\<open>vfs.c\<close> implement the abstract file system: against a server that follows the
  Redis command reference every accepted request runs without fault and takes a representation of
  the abstract state to a representation of the abstract result; the getters, the listings and the
  searches return what the abstract state holds and leave the database as it is.
\<close>

section \<open>Representation and updates\<close>

lemma removeAll_map_ulong [simp]:
  "0 \<le> sint c \<Longrightarrow>
    removeAll (show_long c) (map show_ulong xs) = map show_ulong (removeAll c xs)"
  by (induction xs) (auto simp: show_long_nonneg)

lemma fs_rep_init:
  "fs_rep [CREATED \<mapsto> RStr ''yes'', ID_COUNT \<mapsto> RStr ''1'', folder_info 0 \<mapsto>
      RHash [''parent'' \<mapsto> show_ulong 0, ''name'' \<mapsto> quoted ''root'',
             ''createdData'' \<mapsto> quoted ''march 7th'']] fs_init"
proof -
  have "show_long 1 = ''1''" by (simp add: show_long_def show_int_def dec.simps)
  then show ?thesis by (auto simp: fs_rep_def fs_init_def dir_hash_def put_list_def)
qed

lemma fs_rep_add_dir:
  assumes "fs_rep db a" and "fs_dir a (fs_next a) = None"
  shows "fs_rep (db(ID_COUNT \<mapsto> RStr (show_long (fs_next a + 1)),
      folder_folders p \<mapsto> RList (show_ulong (fs_next a) # map show_ulong (fs_subdirs a p)),
      folder_info (fs_next a) \<mapsto> dir_hash \<lparr>dir_name = name, dir_parent = p\<rparr>)) (add_dir p name a)"
  using assms by (simp add: fs_rep_def add_dir_def)

lemma fs_rep_add_file:
  assumes "fs_rep db a" and "fs_file a (fs_next a) = None"
  shows "fs_rep (db(ID_COUNT \<mapsto> RStr (show_long (fs_next a + 1)),
      folder_files p \<mapsto> RList (show_ulong (fs_next a) # map show_ulong (fs_files a p)),
      file_info (fs_next a) \<mapsto> file_hash e)) (add_file p e a)"
  using assms by (simp add: fs_rep_def add_file_def)

lemma fs_rep_lists:
  assumes "fs_rep db a"
  shows "fs_rep (db(folder_folders p \<mapsto> RList (show_ulong c # map show_ulong (fs_subdirs a p)))) (link_dir p c a)"
    and "fs_rep (db(folder_files p \<mapsto> RList (show_ulong c # map show_ulong (fs_files a p)))) (link_file p c a)"
    and "fs_rep (db(folder_folders p := put_list (map show_ulong (removeAll c (fs_subdirs a p)))))
           (unlink_dir p c a)"
    and "fs_rep (db(folder_files p := put_list (map show_ulong (removeAll c (fs_files a p)))))
           (unlink_file p c a)"
  using assms
  by (simp_all add: fs_rep_def link_dir_def link_file_def unlink_dir_def unlink_file_def)

lemma fs_rep_set_file_name:
  assumes "fs_rep db a" and "fs_file a f = Some e"
  shows "fs_rep (db(file_info f \<mapsto> file_hash (e\<lparr>file_name := name\<rparr>))) (set_file_name f name a)"
  using assms by (simp add: fs_rep_def set_file_name_def)

lemma fs_rep_set_dir_parent:
  assumes "fs_rep db a" and "fs_dir a d = Some e"
  shows "fs_rep (db(folder_info d \<mapsto> dir_hash (e\<lparr>dir_parent := p\<rparr>))) (set_dir_parent d p a)"
  using assms by (simp add: fs_rep_def set_dir_parent_def)

lemma file_hash_set_name:
  "\<exists>h. file_hash e = RHash h \<and> RHash (h(''name'' \<mapsto> quoted n)) = file_hash (e\<lparr>file_name := n\<rparr>)"
  unfolding file_hash_def by (intro exI conjI, rule refl) (simp add: fun_eq_iff)

lemma dir_hash_set_parent:
  "0 \<le> sint p \<Longrightarrow> \<exists>h. dir_hash e = RHash h \<and>
     RHash (h(''parent'' \<mapsto> show_long p)) = dir_hash (e\<lparr>dir_parent := p\<rparr>)"
  unfolding dir_hash_def by (intro exI conjI, rule refl) (simp add: fun_eq_iff show_long_nonneg)

section \<open>State-changing operations\<close>

context redis
begin

lemma wp_mkdir:
  assumes rep: "fs_rep (view s) a" and ok: "fs_ok a" and lt: "sint (fs_next a) < 2 ^ 63 - 1"
    and post: "\<And>s'. fs_rep (view s') (add_dir p (c_str name) a) \<Longrightarrow> Q (fs_next a) s'"
  shows "wp (vfs_mkdir srv p name) Q s"
  unfolding vfs_mkdir_def wp_bind wp_ret
proof (rule wp_getNewId)
  show "view s ID_COUNT = Some (RStr (show_long (fs_next a)))" by (rule fs_repD [OF rep])
  show "sint (fs_next a) < 2 ^ 63 - 1" by (rule lt)
  fix s1 assume s1: "view s1 = (view s)(ID_COUNT \<mapsto> RStr (show_long (fs_next a + 1)))"
  show "wp (redis_call srv ''LPUSH FOLDER_%lu_folders %lu'' [ArgLong p, ArgLong (fs_next a)])
      (\<lambda>x. wp (priv_mkdir srv p (fs_next a) name) (\<lambda>x. Q (fs_next a))) s1"
  proof (rule wp_lpush_folders)
    show "as_list (view s1 (folder_folders p)) = Some (map show_ulong (fs_subdirs a p))"
      by (simp add: s1 fs_repD [OF rep])
    fix r s2 assume s2: "view s2 = (view s1)(folder_folders p \<mapsto>
        RList (show_ulong (fs_next a) # map show_ulong (fs_subdirs a p)))"
    show "wp (priv_mkdir srv p (fs_next a) name) (\<lambda>x. Q (fs_next a)) s2"
    proof (rule wp_priv_mkdir)
      show "as_hash (view s2 (folder_info (fs_next a))) = Some Map.empty"
        by (simp add: s2 s1 fs_repD [OF rep] fs_ok_fresh [OF ok])
      fix s3 assume "view s3 = (view s2)(folder_info (fs_next a) \<mapsto>
          RHash [''parent'' \<mapsto> show_ulong p, ''name'' \<mapsto> quoted (c_str name),
                 ''createdData'' \<mapsto> quoted ''march 7th''])"
      then show "Q (fs_next a) s3"
        using fs_rep_add_dir [OF rep fs_ok_fresh(1) [OF ok]]
        by (intro post) (simp add: s1 s2 dir_hash_def)
    qed
  qed
qed

lemma wp_createFile:
  assumes rep: "fs_rep (view s) a" and ok: "fs_ok a" and lt: "sint (fs_next a) < 2 ^ 63 - 1"
    and post: "\<And>s'. fs_rep (view s') (add_file p \<lparr>file_name = c_str name, file_size = sz,
           file_googleId = c_str g, file_webUrl = c_str w, file_apiUrl = c_str u\<rparr> a) \<Longrightarrow>
         Q (fs_next a) s'"
  shows "wp (vfs_createFile srv p name sz g w u) Q s"
  unfolding vfs_createFile_def wp_bind wp_ret
proof (rule wp_getNewId)
  show "view s ID_COUNT = Some (RStr (show_long (fs_next a)))" by (rule fs_repD [OF rep])
  show "sint (fs_next a) < 2 ^ 63 - 1" by (rule lt)
  fix s1 assume s1: "view s1 = (view s)(ID_COUNT \<mapsto> RStr (show_long (fs_next a + 1)))"
  show "wp (priv_addFileToFileList srv p (fs_next a))
      (\<lambda>x. wp (priv_createFile srv (fs_next a) name sz g w u) (\<lambda>x. Q (fs_next a))) s1"
  proof (rule wp_addFile)
    show "as_list (view s1 (folder_files p)) = Some (map show_ulong (fs_files a p))"
      by (simp add: s1 fs_repD [OF rep])
    fix s2 assume s2: "view s2 = (view s1)(folder_files p \<mapsto>
        RList (show_ulong (fs_next a) # map show_ulong (fs_files a p)))"
    show "wp (priv_createFile srv (fs_next a) name sz g w u) (\<lambda>x. Q (fs_next a)) s2"
    proof (rule wp_priv_createFile)
      show "as_hash (view s2 (file_info (fs_next a))) = Some Map.empty"
        by (simp add: s2 s1 fs_repD [OF rep] fs_ok_fresh [OF ok])
      fix s3 assume "view s3 = (view s2)(file_info (fs_next a) \<mapsto>
          RHash [''name'' \<mapsto> quoted (c_str name), ''size'' \<mapsto> quoted (show_ulong sz),
                 ''createdData'' \<mapsto> quoted ''march 7th'', ''id'' \<mapsto> quoted (c_str g),
                 ''webUrl'' \<mapsto> quoted (c_str w), ''apiUrl'' \<mapsto> quoted (c_str u)])"
      then show "Q (fs_next a) s3"
        using fs_rep_add_file [OF rep fs_ok_fresh(2) [OF ok], of p "\<lparr>file_name = c_str name,
            file_size = sz, file_googleId = c_str g, file_webUrl = c_str w, file_apiUrl = c_str u\<rparr>"]
        by (intro post) (simp add: s1 s2 file_hash_def)
    qed
  qed
qed

lemma wp_request:
  assumes rep: "fs_rep (view s) a" and ok: "fs_ok a" and r: "request_ok r a"
  shows "wp (run_request srv r) (\<lambda>_ s'. fs_rep (view s') (apply_request r a)) s"
proof (cases r)
  case (Mkdir p name)
  then show ?thesis using r by (auto intro!: wp_mkdir [OF rep ok])
next
  case (CreateFile p name sz g w u)
  then show ?thesis using r by (auto intro!: wp_createFile [OF rep ok])
next
  case (LinkDir p c)
  then show ?thesis
    by (auto intro!: wp_addDir [of s p "map show_ulong (fs_subdirs a p)"]
        simp: fs_repD [OF rep] fs_rep_lists [OF rep])
next
  case (LinkFile p c)
  then show ?thesis
    by (auto intro!: wp_addFile [of s p "map show_ulong (fs_files a p)"]
        simp: fs_repD [OF rep] fs_rep_lists [OF rep])
next
  case (UnlinkDir p c)
  then show ?thesis using r fs_ok_dir_nonneg [OF ok]
    by (auto intro!: wp_removeDir [of p s "map show_ulong (fs_subdirs a p)"]
        simp: fs_repD [OF rep] fs_rep_lists [OF rep])
next
  case (UnlinkFile p c)
  then show ?thesis using r fs_ok_dir_nonneg [OF ok]
    by (auto intro!: wp_removeFile [of p s "map show_ulong (fs_files a p)"]
        simp: fs_repD [OF rep] fs_rep_lists [OF rep])
next
  case (SetFileName f name n)
  then obtain e where e: "fs_file a f = Some e" using r by auto
  obtain h where h: "file_hash e = RHash h"
      "RHash (h(''name'' \<mapsto> quoted (c_str (take n name)))) = file_hash (e\<lparr>file_name := c_str (take n name)\<rparr>)"
    using file_hash_set_name by blast
  show ?thesis
    unfolding SetFileName run_request.simps apply_request.simps
    by (rule wp_setFileName [of s f h])
       (simp_all add: fs_repD [OF rep] e h fs_rep_set_file_name [OF rep e])
next
  case (SetDirParent d p)
  then obtain e where e: "fs_dir a d = Some e" and p: "0 \<le> sint p"
    using r fs_ok_dir_nonneg [OF ok] by auto
  obtain h where h: "dir_hash e = RHash h"
      "RHash (h(''parent'' \<mapsto> show_long p)) = dir_hash (e\<lparr>dir_parent := p\<rparr>)"
    using dir_hash_set_parent [OF p] by blast
  show ?thesis
    unfolding SetDirParent run_request.simps apply_request.simps
    by (rule wp_setDirParent [of s d h])
       (simp_all add: fs_repD [OF rep] e h fs_rep_set_dir_parent [OF rep e])
qed

lemma wp_requests:
  assumes "fs_rep (view s) a" and "fs_ok a" and "requests_ok rs a"
  shows "wp (run_requests srv rs) (\<lambda>_ s'. fs_rep (view s') (apply_requests rs a)) s"
  using assms
proof (induction rs arbitrary: a s)
  case (Cons r rs)
  have "wp (run_request srv r) (\<lambda>_ s'. fs_rep (view s') (apply_request r a)) s"
    using Cons.prems by (intro wp_request) auto
  then show ?case
    unfolding run_requests.simps wp_bind
    by (rule wp_mono) (use Cons.prems in \<open>auto intro!: Cons.IH fs_ok_apply\<close>)
qed simp

lemma wp_build: "wp (vfs_buildDatabase srv) (\<lambda>_ s'. fs_rep (view s') fs_init) s"
  by (rule wp_buildDatabase) (simp add: fs_rep_init)

end

end
