(* ===== verification/VfsQuery.thy ===== *)
theory VfsQuery
  imports VfsRefine
begin

text \<open>
  What the getters, listings and searches of \<^verbatim>\<open>vfs.c\<close> return, in terms of the abstract file system.
  None of them changes the database, so a representation stays one. The search for a file yields the
  oldest entry with the name, the search for a folder the newest entry whose name starts with it.
\<close>

section \<open>Comparing names\<close>

text \<open>
  The searches get a pointer into a path and a length: the name is followed by a slash or by the end
  of the string.
\<close>

definition name_at :: "string \<Rightarrow> nat \<Rightarrow> bool" where
  "name_at p n \<longleftrightarrow> no_nul p \<and> n \<le> length p \<and> (n < length p \<longrightarrow> p ! n = CHR ''/'')"

lemma strncmp_file_name:
  assumes at: "name_at p n" and nb: "no_nul nb" "CHR ''/'' \<notin> set nb"
  shows "strncmp_eq p nb (if n > length nb then n else length nb) \<longleftrightarrow> nb = take n p"
proof (cases "n > length nb")
  case True
  then show ?thesis using at nb by (auto simp: strncmp_eq_def name_at_def)
next
  case False
  have "nb = take n p" if eq: "nb = take (length nb) p"
  proof (rule ccontr)
    assume ne: "nb \<noteq> take n p"
    have "n \<noteq> length nb" by (rule notI) (use ne eq in metis)
    then have lt: "n < length nb" using False by simp
    have "length nb = min (length p) (length nb)" using arg_cong [OF eq, of length] by simp
    then have "length nb \<le> length p" by simp
    then have "take (length nb) p ! n = CHR ''/''" using at lt by (simp add: name_at_def)
    then have "nb ! n = CHR ''/''" by (metis eq)
    with lt nb(2) show False using nth_mem [OF lt] by simp
  qed
  moreover have "nb = take (length nb) p" if "nb = take n p"
    using that at by (simp add: name_at_def min_def)
  moreover have "strncmp_eq p nb (length nb) \<longleftrightarrow> nb = take (length nb) p"
    using at nb(1) by (auto simp: strncmp_eq_def name_at_def)
  ultimately show ?thesis unfolding if_not_P [OF False] by argo
qed

lemma strncmp_dir_name:
  assumes "name_at p n" and "no_nul nb"
  shows "strncmp_eq p nb n \<longleftrightarrow> take n nb = take n p"
  using assms by (auto simp: strncmp_eq_def name_at_def)

section \<open>Abstract queries\<close>

definition dname :: "fs \<Rightarrow> clong \<Rightarrow> string" where
  "dname a d = dir_name (the (fs_dir a d))"

definition dparent :: "fs \<Rightarrow> clong \<Rightarrow> clong" where
  "dparent a d = dir_parent (the (fs_dir a d))"

definition fname :: "fs \<Rightarrow> clong \<Rightarrow> string" where
  "fname a f = file_name (the (fs_file a f))"

definition fsize :: "fs \<Rightarrow> clong \<Rightarrow> clong" where
  "fsize a f = file_size (the (fs_file a f))"

definition or_minus1 :: "clong option \<Rightarrow> clong" where
  "or_minus1 r = (case r of None \<Rightarrow> -1 | Some i \<Rightarrow> i)"

definition find_file :: "fs \<Rightarrow> clong \<Rightarrow> string \<Rightarrow> clong option" where
  "find_file a d name = find (\<lambda>f. fname a f = name) (rev (fs_files a d))"

definition find_dir :: "fs \<Rightarrow> clong \<Rightarrow> string \<Rightarrow> clong option" where
  "find_dir a d name =
     (if name = ''.'' then Some d
      else if name = ''..'' then Some (dparent a d)
      else find (\<lambda>c. take (length name) (dname a c) = name) (fs_subdirs a d))"

definition ls_lines :: "fs \<Rightarrow> clong \<Rightarrow> string list" where
  "ls_lines a d =
     map (\<lambda>c. ''ls: '' @ dname a c @ [LF]) (fs_subdirs a d) @
     map (\<lambda>f. ''ls: '' @ fname a f @ [LF]) (fs_files a d)"

definition unix_dir_text :: "fs \<Rightarrow> clong list \<Rightarrow> string" where
  "unix_dir_text a ds = concat (map (\<lambda>c. unix_line ''drwxrwxr-x'' 1 (dname a c)) ds)"

definition unix_file_text :: "fs \<Rightarrow> clong list \<Rightarrow> string" where
  "unix_file_text a fs = concat (map (\<lambda>f. unix_line ''-rwxrwxr-x'' (fsize a f) (fname a f)) fs)"

definition unix_text :: "fs \<Rightarrow> clong \<Rightarrow> string" where
  "unix_text a d = unix_dir_text a (fs_subdirs a d) @ unix_file_text a (fs_files a d)"

section \<open>Getters\<close>

lemma dir_hash_fields:
  "\<exists>h. dir_hash e = RHash h \<and> h ''name'' = Some (quoted (dir_name e)) \<and>
     h ''parent'' = Some (show_ulong (dir_parent e))"
  by (simp add: dir_hash_def)

lemma file_hash_fields:
  "\<exists>h. file_hash e = RHash h \<and> h ''name'' = Some (quoted (file_name e)) \<and>
     h ''size'' = Some (quoted (show_ulong (file_size e))) \<and>
     h ''apiUrl'' = Some (quoted (file_apiUrl e))"
  by (simp add: file_hash_def)

definition reply_ids :: "clong list \<Rightarrow> redisReply list" where
  "reply_ids ids = map Reply_String (map show_ulong ids)"

lemma reply_ids_simps [simp]:
  "reply_ids [] = []" "reply_ids (i # ids) = Reply_String (show_ulong i) # reply_ids ids"
  by (simp_all add: reply_ids_def)

lemma element_id_ulong [simp]: "0 \<le> sint i \<Longrightarrow> element_id (Reply_String (show_ulong i)) = Ok i"
  by (simp add: element_id_def)

lemma ok_dir_list:
  assumes "fs_ok a" and "c \<in> set (fs_subdirs a d)"
  shows "c \<in> dom (fs_dir a)" "0 \<le> sint c" "no_nul (dname a c)" "length (dname a c) < MAX_FILENAME_SIZE"
proof -
  obtain e where e: "fs_dir a c = Some e" using fs_ok_subdir [OF assms] by blast
  then show "c \<in> dom (fs_dir a)" "0 \<le> sint c" "no_nul (dname a c)"
      "length (dname a c) < MAX_FILENAME_SIZE"
    using fs_ok_dir [OF assms(1) e] by (auto simp: dirent_ok_def id_used_def name_ok_def dname_def)
qed

lemma ok_file_list:
  assumes "fs_ok a" and "c \<in> set (fs_files a d)"
  shows "c \<in> dom (fs_file a)" "0 \<le> sint c" "no_nul (fname a c)" "length (fname a c) < MAX_FILENAME_SIZE"
proof -
  obtain e where e: "fs_file a c = Some e" using fs_ok_subfile [OF assms] by blast
  then show "c \<in> dom (fs_file a)" "0 \<le> sint c" "no_nul (fname a c)"
      "length (fname a c) < MAX_FILENAME_SIZE"
    using fs_ok_file [OF assms(1) e] by (auto simp: fileent_ok_def id_used_def name_ok_def fname_def)
qed

context redis
begin

lemma wp_dir_name:
  assumes rep: "fs_rep (view s) a" and ok: "fs_ok a" and d: "d \<in> dom (fs_dir a)"
    and cap: "length (dname a d) < cap"
    and post: "\<And>s'. fs_rep (view s') a \<Longrightarrow> Q (dname a d) s'"
  shows "wp (vfs_getFolderName srv d cap) Q s"
proof -
  obtain e where e: "fs_dir a d = Some e" using d by auto
  obtain h where h: "dir_hash e = RHash h" "h ''name'' = Some (quoted (dir_name e))"
    using dir_hash_fields by blast
  show ?thesis
    by (rule wp_getFolderName [of s d h "dir_name e"])
       (use fs_ok_dir [OF ok e] e h cap post rep in
         \<open>auto simp: fs_repD [OF rep] dirent_ok_def name_ok_def dname_def\<close>)
qed

lemma wp_dir_parent:
  assumes rep: "fs_rep (view s) a" and ok: "fs_ok a" and d: "d \<in> dom (fs_dir a)"
    and post: "\<And>s'. fs_rep (view s') a \<Longrightarrow> Q (dparent a d) s'"
  shows "wp (vfs_getDirParent srv d) Q s"
proof -
  obtain e where e: "fs_dir a d = Some e" using d by auto
  obtain h where h: "dir_hash e = RHash h" "h ''parent'' = Some (show_ulong (dir_parent e))"
    using dir_hash_fields by blast
  show ?thesis
    by (rule wp_getDirParent [of s d h "dir_parent e"])
       (use fs_ok_parent_nonneg [OF ok e] e h post rep in \<open>auto simp: fs_repD [OF rep] dparent_def\<close>)
qed

lemma wp_file_name:
  assumes rep: "fs_rep (view s) a" and ok: "fs_ok a" and f: "f \<in> dom (fs_file a)"
    and cap: "length (fname a f) < cap"
    and post: "\<And>s'. fs_rep (view s') a \<Longrightarrow> Q (fname a f) s'"
  shows "wp (vfs_getFileName srv f cap) Q s"
proof -
  obtain e where e: "fs_file a f = Some e" using f by auto
  obtain h where h: "file_hash e = RHash h" "h ''name'' = Some (quoted (file_name e))"
    using file_hash_fields by blast
  show ?thesis
    by (rule wp_getFileName [of s f h "file_name e"])
       (use fs_ok_file [OF ok e] e h cap post rep in
         \<open>auto simp: fs_repD [OF rep] fileent_ok_def name_ok_def fname_def\<close>)
qed

lemma wp_file_size:
  assumes rep: "fs_rep (view s) a" and ok: "fs_ok a" and f: "f \<in> dom (fs_file a)"
    and post: "\<And>s'. fs_rep (view s') a \<Longrightarrow> Q (fsize a f) s'"
  shows "wp (vfs_getFileSizeFromId srv f) Q s"
proof -
  obtain e where e: "fs_file a f = Some e" using f by auto
  obtain h where h: "file_hash e = RHash h" "h ''size'' = Some (quoted (show_ulong (file_size e)))"
    using file_hash_fields by blast
  show ?thesis
    by (rule wp_getFileSize [of s f h "file_size e"])
       (use fs_ok_file [OF ok e] e h post rep in
         \<open>auto simp: fs_repD [OF rep] fileent_ok_def fsize_def\<close>)
qed

lemma wp_file_url:
  assumes rep: "fs_rep (view s) a" and f: "fs_file a f = Some e"
    and u: "no_nul (file_apiUrl e)" "length (file_apiUrl e) < cap"
    and post: "\<And>s'. fs_rep (view s') a \<Longrightarrow> Q (file_apiUrl e) s'"
  shows "wp (vfs_getFileWebUrl srv f cap) Q s"
proof -
  obtain h where h: "file_hash e = RHash h" "h ''apiUrl'' = Some (quoted (file_apiUrl e))"
    using file_hash_fields by blast
  show ?thesis
    by (rule wp_getFileWebUrl [of s f h "file_apiUrl e"])
       (use f h u post rep in \<open>auto simp: fs_repD [OF rep]\<close>)
qed

lemma wp_list_folders:
  assumes rep: "fs_rep (view s) a"
    and post: "\<And>s'. fs_rep (view s') a \<Longrightarrow> Q (Reply_Array (reply_ids (fs_subdirs a d))) s'"
  shows "wp (redis_reply srv ''LRANGE FOLDER_%lu_folders 0 -1'' [ArgLong d]) Q s"
  by (rule wp_lrange_gen [OF argv_lrange(1), where xs = "map show_ulong (fs_subdirs a d)"])
     (simp add: fs_repD [OF rep], fold reply_ids_def, rule post, simp add: rep)

lemma wp_list_files:
  assumes rep: "fs_rep (view s) a"
    and post: "\<And>s'. fs_rep (view s') a \<Longrightarrow> Q (Reply_Array (reply_ids (fs_files a d))) s'"
  shows "wp (redis_reply srv ''LRANGE FOLDER_%lu_files 0 -1'' [ArgLong d]) Q s"
    and "wp (redis_reply srv ''LRANGE FOLDER_%lu_files   0 -1'' [ArgLong d]) Q s"
  by (rule wp_lrange_gen [OF argv_lrange(2), where xs = "map show_ulong (fs_files a d)"],
      simp add: fs_repD [OF rep], fold reply_ids_def, rule post, simp add: rep)
     (rule wp_lrange_gen [OF argv_lrange(3), where xs = "map show_ulong (fs_files a d)"],
      simp add: fs_repD [OF rep], fold reply_ids_def, rule post, simp add: rep)

section \<open>Listings\<close>

lemma wp_ls_loop:
  assumes get: "\<And>i s' R. i \<in> set ids \<Longrightarrow> fs_rep (view s') a \<Longrightarrow>
        (\<And>s''. fs_rep (view s'') a \<Longrightarrow> R (name i) s'') \<Longrightarrow> wp (getName i) R s'"
    and ids: "\<And>i. i \<in> set ids \<Longrightarrow> 0 \<le> sint i" and rep: "fs_rep (view s) a"
    and post: "\<And>s'. fs_rep (view s') a \<Longrightarrow> Q (map (\<lambda>i. ''ls: '' @ name i @ [LF]) ids) s'"
  shows "wp (ls_loop getName (reply_ids ids)) Q s"
  using assms
proof (induction ids arbitrary: s Q)
  case (Cons i ids)
  have "wp (ls_loop getName (reply_ids ids)) (\<lambda>rest. Q ((''ls: '' @ name i @ [LF]) # rest)) s''"
    if "fs_rep (view s'') a" for s''
    using that Cons.prems by (intro Cons.IH) auto
  then show ?case
    using Cons.prems(1) [of i s] Cons.prems(2,3) by simp
qed simp

lemma wp_ls:
  assumes rep: "fs_rep (view s) a" and ok: "fs_ok a"
    and post: "\<And>s'. fs_rep (view s') a \<Longrightarrow> Q (ls_lines a d) s'"
  shows "wp (vfs_ls srv d) Q s"
proof -
  have files: "wp (ls_loop (\<lambda>oid. vfs_getFileName srv oid MAX_FILENAME_SIZE) (reply_ids (fs_files a d)))
      (\<lambda>out2. Q (map (\<lambda>c. ''ls: '' @ dname a c @ [LF]) (fs_subdirs a d) @ out2)) s'"
    if "fs_rep (view s') a" for s'
  proof (rule wp_ls_loop [where name = "fname a", OF _ _ that])
    fix i s' R assume "i \<in> set (fs_files a d)" "fs_rep (view s') a"
      "\<And>s''. fs_rep (view s'') a \<Longrightarrow> R (fname a i) s''"
    then show "wp (vfs_getFileName srv i MAX_FILENAME_SIZE) R s'"
      using ok_file_list [OF ok] by (intro wp_file_name [OF _ ok])
  qed (use ok_file_list [OF ok] post in \<open>auto simp: ls_lines_def\<close>)
  have "wp (ls_loop (\<lambda>oid. vfs_getFolderName srv oid MAX_FILENAME_SIZE) (reply_ids (fs_subdirs a d)))
      (\<lambda>out1. wp (redis_reply srv ''LRANGE FOLDER_%lu_files   0 -1'' [ArgLong d])
        (\<lambda>reply. wp (ls_loop (\<lambda>oid. vfs_getFileName srv oid MAX_FILENAME_SIZE) (reply_elements reply))
          (\<lambda>out2. Q (out1 @ out2)))) s'"
    if "fs_rep (view s') a" for s'
  proof (rule wp_ls_loop [where name = "dname a", OF _ _ that])
    fix i s' R assume "i \<in> set (fs_subdirs a d)" "fs_rep (view s') a"
      "\<And>s''. fs_rep (view s'') a \<Longrightarrow> R (dname a i) s''"
    then show "wp (vfs_getFolderName srv i MAX_FILENAME_SIZE) R s'"
      using ok_dir_list [OF ok] by (intro wp_dir_name [OF _ ok])
  qed (use files in \<open>auto simp: ok_dir_list [OF ok] intro!: wp_list_files\<close>)
  then show ?thesis
    unfolding vfs_ls_def wp_bind wp_ret by (intro wp_list_folders [OF rep]) simp
qed

lemma wp_unix_dirs_loop:
  assumes "\<And>c. c \<in> set ds \<Longrightarrow> c \<in> dom (fs_dir a) \<and> 0 \<le> sint c \<and> length (dname a c) < MAX_FILENAME_SIZE"
    and "fs_ok a" and "fs_rep (view s) a"
    and "length line + length (unix_dir_text a ds) < LINE_SIZE"
    and "\<And>s'. fs_rep (view s') a \<Longrightarrow> Q (line @ unix_dir_text a ds) s'"
  shows "wp (unix_dirs_loop srv (reply_ids ds) line) Q s"
  using assms
proof (induction ds arbitrary: s line)
  case Nil
  then show ?case by (simp add: unix_dir_text_def)
next
  case (Cons c ds)
  let ?l = "unix_line ''drwxrwxr-x'' 1 (dname a c)"
  have parts: "unix_dir_text a (c # ds) = ?l @ unix_dir_text a ds" by (simp add: unix_dir_text_def)
  have "wp (unix_dirs_loop srv (reply_ids ds) (line @ ?l)) Q s''" if "fs_rep (view s'') a" for s''
    using that Cons.prems parts by (intro Cons.IH) auto
  moreover have "append_line line ?l = Ok (line @ ?l)"
    using Cons.prems(4) parts by (simp add: append_line_def)
  ultimately show ?case
    using Cons.prems by (auto intro!: wp_dir_name [of s a])
qed

lemma wp_unix_files_loop:
  assumes "\<And>f. f \<in> set fs \<Longrightarrow> f \<in> dom (fs_file a) \<and> 0 \<le> sint f \<and> length (fname a f) < MAX_FILENAME_SIZE"
    and "fs_ok a" and "fs_rep (view s) a"
    and "length line + length (unix_file_text a fs) < LINE_SIZE"
    and "\<And>s'. fs_rep (view s') a \<Longrightarrow> Q (line @ unix_file_text a fs) s'"
  shows "wp (unix_files_loop srv (reply_ids fs) line) Q s"
  using assms
proof (induction fs arbitrary: s line)
  case Nil
  then show ?case by (simp add: unix_file_text_def)
next
  case (Cons f fs)
  let ?l = "unix_line ''-rwxrwxr-x'' (fsize a f) (fname a f)"
  have parts: "unix_file_text a (f # fs) = ?l @ unix_file_text a fs" by (simp add: unix_file_text_def)
  have "wp (unix_files_loop srv (reply_ids fs) (line @ ?l)) Q s''" if "fs_rep (view s'') a" for s''
    using that Cons.prems parts by (intro Cons.IH) auto
  moreover have "append_line line ?l = Ok (line @ ?l)"
    using Cons.prems(4) parts by (simp add: append_line_def)
  moreover obtain e where "fs_file a f = Some e" using Cons.prems(1) [of f] by auto
  ultimately show ?case
    using Cons.prems by (auto intro!: wp_file_name [of s a] wp_file_size [of _ a])
qed

lemma wp_listUnixStyle:
  assumes rep: "fs_rep (view s) a" and ok: "fs_ok a" and fits: "length (unix_text a d) < LINE_SIZE"
    and post: "\<And>s'. fs_rep (view s') a \<Longrightarrow> Q (unix_text a d) s'"
  shows "wp (vfs_listUnixStyle srv d) Q s"
proof -
  let ?t = "unix_dir_text a (fs_subdirs a d)"
  have files: "wp (unix_files_loop srv (reply_ids (fs_files a d)) ?t) Q s'"
    if "fs_rep (view s') a" for s'
    using that fits post ok_file_list [OF ok]
    by (intro wp_unix_files_loop [OF _ ok]) (auto simp: unix_text_def)
  have "wp (unix_dirs_loop srv (reply_ids (fs_subdirs a d)) [])
      (\<lambda>line. wp (redis_reply srv ''LRANGE FOLDER_%lu_files   0 -1'' [ArgLong d])
        (\<lambda>reply. wp (unix_files_loop srv (reply_elements reply) line) Q)) s'"
    if "fs_rep (view s') a" for s'
    using that fits ok_dir_list [OF ok]
    by (intro wp_unix_dirs_loop [OF _ ok]) (auto simp: unix_text_def files intro!: wp_list_files)
  then show ?thesis
    unfolding vfs_listUnixStyle_def wp_bind by (intro wp_list_folders [OF rep]) simp
qed

section \<open>Searches\<close>

lemma wp_find_file_loop:
  assumes "\<And>f. f \<in> set fs \<Longrightarrow> f \<in> dom (fs_file a) \<and> 0 \<le> sint f \<and> no_nul (fname a f) \<and>
        length (fname a f) < MAX_FILENAME_SIZE \<and> CHR ''/'' \<notin> set (fname a f)"
    and "fs_ok a" and "fs_rep (view s) a" and "name_at p n"
    and "\<And>s'. fs_rep (view s') a \<Longrightarrow>
      Q (case find (\<lambda>f. fname a f = take n p) (rev fs) of None \<Rightarrow> m | Some f \<Rightarrow> f) s'"
  shows "wp (find_file_loop srv p n (reply_ids fs) m) Q s"
  using assms
proof (induction fs arbitrary: s m)
  case (Cons f fs)
  let ?m = "if fname a f = take n p then f else m"
  have snoc: "(case find P (rev fs @ [f]) of None \<Rightarrow> m | Some f \<Rightarrow> f) =
      (case find P (rev fs) of None \<Rightarrow> if P f then f else m | Some f \<Rightarrow> f)" for P
    by (simp split: option.split)
  have "wp (find_file_loop srv p n (reply_ids fs) ?m) Q s''" if "fs_rep (view s'') a" for s''
    using that Cons.prems by (intro Cons.IH) (auto simp: snoc simp del: find_append)
  moreover have "strncmp_eq p (fname a f) (if n > length (fname a f) then n else length (fname a f))
      \<longleftrightarrow> fname a f = take n p"
    using Cons.prems(1) [of f] by (intro strncmp_file_name Cons.prems(4)) auto
  ultimately show ?case
    using Cons.prems by (auto intro!: wp_file_name [of s a] simp: Let_def)
qed simp

lemma wp_find_dir_loop:
  assumes "\<And>c. c \<in> set ds \<Longrightarrow> c \<in> dom (fs_dir a) \<and> 0 \<le> sint c \<and> no_nul (dname a c) \<and>
        length (dname a c) < MAX_FILENAME_SIZE"
    and "fs_ok a" and "fs_rep (view s) a" and "name_at p n"
    and "\<And>s'. fs_rep (view s') a \<Longrightarrow>
      Q (or_minus1 (find (\<lambda>c. take n (dname a c) = take n p) ds)) s'"
  shows "wp (find_dir_loop srv p n (reply_ids ds)) Q s"
  using assms
proof (induction ds arbitrary: s)
  case Nil
  then show ?case by (simp add: or_minus1_def)
next
  case (Cons c ds)
  have "strncmp_eq p (dname a c) n \<longleftrightarrow> take n (dname a c) = take n p"
    using Cons.prems(1) [of c] by (intro strncmp_dir_name Cons.prems(4)) auto
  moreover have "wp (find_dir_loop srv p n (reply_ids ds)) Q s''"
    if "fs_rep (view s'') a" "take n (dname a c) \<noteq> take n p" for s''
    using that Cons.prems by (intro Cons.IH) auto
  ultimately show ?case
    using Cons.prems by (auto intro!: wp_dir_name [of s a] simp: or_minus1_def)
qed

lemma wp_findFile:
  assumes rep: "fs_rep (view s) a" and ok: "fs_ok a" and at: "name_at p n"
    and slash: "\<And>f. f \<in> set (fs_files a d) \<Longrightarrow> CHR ''/'' \<notin> set (fname a f)"
    and post: "\<And>s'. fs_rep (view s') a \<Longrightarrow> Q (or_minus1 (find_file a d (take n p))) s'"
  shows "wp (vfs_findFileNameInDir srv d p n) Q s"
  unfolding vfs_findFileNameInDir_def wp_bind
proof (rule wp_list_files(1) [OF rep])
  fix s' assume "fs_rep (view s') a"
  then show "wp (find_file_loop srv p n (reply_elements (Reply_Array (reply_ids (fs_files a d)))) (- 1)) Q s'"
    unfolding reply_elements.simps using ok_file_list [OF ok] slash post
    by (intro wp_find_file_loop [OF _ ok _ at]) (auto simp: or_minus1_def find_file_def)
qed

lemma wp_findDir:
  assumes rep: "fs_rep (view s) a" and ok: "fs_ok a" and at: "name_at p n" and d: "d \<in> dom (fs_dir a)"
    and post: "\<And>s'. fs_rep (view s') a \<Longrightarrow> Q (or_minus1 (find_dir a d (take n p))) s'"
  shows "wp (vfs_findDirNameInDir srv d p n) Q s"
proof -
  have len: "length (take n p) = n" and nul: "no_nul p" using at by (auto simp: name_at_def)
  have n: "n = length x" if "take n p = x" for x using that by (metis len)
  have dot: "n = 1 \<and> strncmp_eq ''.'' p 1 \<longleftrightarrow> take n p = ''.''"
    using nul n [of "''.''"] by (cases "n = 1") (auto simp: strncmp_eq_def)
  have dotdot: "n = 2 \<and> strncmp_eq ''..'' p 2 \<longleftrightarrow> take n p = ''..''"
    using nul n [of "''..''"] by (cases "n = 2") (auto simp: strncmp_eq_def)
  have search: "wp (find_dir_loop srv p n (reply_elements (Reply_Array (reply_ids (fs_subdirs a d))))) Q s'"
    if "take n p \<noteq> ''.''" "take n p \<noteq> ''..''" "fs_rep (view s') a" for s'
    unfolding reply_elements.simps using that ok_dir_list [OF ok] post len
    by (intro wp_find_dir_loop [OF _ ok _ at]) (auto simp: find_dir_def)
  show ?thesis
    unfolding vfs_findDirNameInDir_def dot dotdot
    using rep post search
    by (auto simp: find_dir_def or_minus1_def intro!: wp_list_folders [OF rep] wp_dir_parent [OF rep ok d])
qed

end

end
