(* ===== verification/VfsWalk.thy ===== *)
theory VfsWalk
  imports VfsQuery
begin

text \<open>
  The walk of \<^verbatim>\<open>vfs_getDirPathFromId\<close> from a folder to the root. It ends on every tree, with a path
  or a fault; but it drops the first digit of every parent it reads, so the path it returns is right
  for the folders of the root only (\<open>wp_path\<close> against \<open>true_path\<close>).
\<close>

section \<open>Termination\<close>

context redis
begin

lemma wp_hget_any:
  assumes "fmt_argv fmt args = Ok (Some [''HGET'', k, f])" and "as_hash (view s k) = Some h"
    and "\<And>s'. view s' = view s \<Longrightarrow> Q (case h f of None \<Rightarrow> Reply_Nil | Some v \<Rightarrow> Reply_String v) s'"
  shows "wp (redis_reply srv fmt args) Q s"
  by (rule reply [OF assms(1)]) (simp add: redis_doc_def assms(2), rule assms(3))

lemma as_hash_info [simp]:
  "as_hash (map_option dir_hash e) =
     Some (case e of None \<Rightarrow> Map.empty
           | Some e \<Rightarrow> [''parent'' \<mapsto> show_ulong (dir_parent e), ''name'' \<mapsto> quoted (dir_name e),
                       ''createdData'' \<mapsto> quoted ''march 7th''])"
  by (cases e) (simp_all add: dir_hash_def)

text \<open>A step that returns: the folder exists and the new id is not above its parent.\<close>

lemma wlp_folder_name:
  assumes "fs_rep (view s) a"
  shows "wlp (vfs_getFolderName srv d cap) (\<lambda>_ s'. fs_rep (view s') a) s"
proof -
  have "wp (redis_reply srv ''HGET FOLDER_%lu_info name'' [ArgLong d])
      (\<lambda>_ s'. fs_rep (view s') a) s"
    by (rule wp_hget_any [OF argv_getters(4)]) (simp_all add: assms fs_repD(2) [OF assms])
  then show ?thesis
    unfolding vfs_getFolderName_def wlp_simps by (rule wlp_mono [OF wp_wlp]) simp
qed

lemma wlp_path_step:
  assumes rep: "fs_rep (view s) a" and ok: "fs_ok a"
  shows "wlp (path_step srv cap d out)
    (\<lambda>(p, out') s'. fs_rep (view s') a \<and> d \<in> dom (fs_dir a) \<and> uint p \<le> uint (dparent a d)) s"
proof -
  have step: "wlp (redis_reply srv ''HGET FOLDER_%lu_info parent'' [ArgLong d])
      (\<lambda>reply. wlp (case reply_str reply of None \<Rightarrow> fail NullDeref
         | Some str \<Rightarrow> bind (lift (strtol_from1 str)) (\<lambda>parentId. ret (parentId, CHR ''/'' # name @ out)))
         (\<lambda>(p, out') s'. fs_rep (view s') a \<and> d \<in> dom (fs_dir a) \<and> uint p \<le> uint (dparent a d))) s'"
    if rep': "fs_rep (view s') a" for s' name
  proof (rule wp_wlp, rule wp_hget_any [OF argv_getters(5)])
    show "as_hash (view s' (folder_info d)) = Some (case fs_dir a d of None \<Rightarrow> Map.empty
           | Some e \<Rightarrow> [''parent'' \<mapsto> show_ulong (dir_parent e), ''name'' \<mapsto> quoted (dir_name e),
                       ''createdData'' \<mapsto> quoted ''march 7th''])"
      by (simp add: fs_repD(2) [OF rep'])
  next
    fix s'' assume "view s'' = view s'"
    then show "wlp (case reply_str (case (case fs_dir a d of None \<Rightarrow> Map.empty
           | Some e \<Rightarrow> [''parent'' \<mapsto> show_ulong (dir_parent e), ''name'' \<mapsto> quoted (dir_name e),
                       ''createdData'' \<mapsto> quoted ''march 7th'']) ''parent''
              of None \<Rightarrow> Reply_Nil | Some v \<Rightarrow> Reply_String v) of None \<Rightarrow> fail NullDeref
         | Some str \<Rightarrow> bind (lift (strtol_from1 str)) (\<lambda>parentId. ret (parentId, CHR ''/'' # name @ out)))
         (\<lambda>(p, out') s'. fs_rep (view s') a \<and> d \<in> dom (fs_dir a) \<and> uint p \<le> uint (dparent a d)) s''"
      using rep' strtol_drop1_le fs_ok_parent_nonneg [OF ok]
      by (cases "fs_dir a d") (auto simp: strtol_from1_def dparent_def split: if_splits)
  qed
  show ?thesis
    unfolding path_step_def wlp_simps
    by (rule wlp_mono [OF wlp_folder_name [OF rep]]) (auto simp: step)
qed

lemma path_loop_terminates:
  assumes "fs_rep (view s) a" and ok: "fs_ok a" and tree: "fs_tree a"
  shows "\<exists>r. path_loop srv cap d out s = Some r"
  using assms(1)
proof (induction "unat d" arbitrary: d out s rule: less_induct)
  case less
  show ?case
  proof (cases "d = 0")
    case True
    then show ?thesis by (subst path_loop.simps) simp
  next
    case False
    show ?thesis
    proof (cases "path_step srv cap d out s")
      case (Pair r s')
      show ?thesis
      proof (cases r)
        case (Fault e)
        then show ?thesis using False Pair by (subst path_loop.simps) simp
      next
        case (Ok po)
        obtain p out' where po: "po = (p, out')" by force
        have step: "fs_rep (view s') a" "d \<in> dom (fs_dir a)" "uint p \<le> uint (dparent a d)"
          using wlpD [OF wlp_path_step [OF less.prems ok, of cap d out]] Pair Ok po by auto
        then obtain e where e: "fs_dir a d = Some e" by auto
        have "sint (dparent a d) < sint d" "0 \<le> sint (dparent a d)" "0 \<le> sint d"
          using fs_tree_parent [OF tree e False] fs_ok_parent_nonneg [OF ok e] fs_ok_dir_nonneg [OF ok e] e
          by (auto simp: dparent_def)
        then have "nat (sint (dparent a d)) < nat (sint d)" "0 \<le> sint (dparent a d)" "0 \<le> sint d" by auto
        then have "unat (dparent a d) < unat d" by (simp only: sint_nonneg_unat)
        moreover have "unat p \<le> unat (dparent a d)" using step(3) by (simp only: word_le_def [symmetric] word_le_nat_alt)
        ultimately have "unat p < unat d" by (rule order_le_less_trans [rotated])
        then have "\<exists>r. path_loop srv cap p out' s' = Some r" using less.hyps step(1) by blast
        moreover have "path_loop srv cap d out s = path_loop srv cap p out' s'"
          by (subst path_loop.simps) (simp add: False Pair Ok po)
        ultimately show ?thesis by simp
      qed
    qed
  qed
qed

section \<open>The path returned\<close>

text \<open>When the id of the parent has one digit the walk stops after the first name.\<close>

lemma wp_path_step_digit:
  assumes rep: "fs_rep (view s) a" and ok: "fs_ok a" and d: "d \<in> dom (fs_dir a)"
    and digit: "unat (dparent a d) < 10" and fits: "length (dname a d) + length out + 2 \<le> cap"
    and post: "\<And>s'. fs_rep (view s') a \<Longrightarrow> Q (0, CHR ''/'' # dname a d @ out) s'"
  shows "wp (path_step srv cap d out) Q s"
proof -
  obtain e where e: "fs_dir a d = Some e" using d by auto
  obtain h where h: "dir_hash e = RHash h" "h ''parent'' = Some (show_ulong (dparent a d))"
    using dir_hash_fields [of e] e by (auto simp: dparent_def)
  have "strtol_from1 (show_ulong (dparent a d)) = Ok 0"
    using strtol_drop1_digit [OF digit] by (simp add: strtol_from1_def) (simp add: show_ulong_def)
  then have "wp (redis_reply srv ''HGET FOLDER_%lu_info parent'' [ArgLong d])
      (\<lambda>reply. wp (case reply_str reply of None \<Rightarrow> fail NullDeref
         | Some str \<Rightarrow> bind (lift (strtol_from1 str))
             (\<lambda>parentId. ret (parentId, CHR ''/'' # dname a d @ out))) Q) s'"
    if rep': "fs_rep (view s') a" for s'
    by (intro wp_hget_gen [OF argv_getters(5), of s' d h "show_ulong (dparent a d)"])
       (simp_all add: fs_repD(2) [OF rep'] e h rep' post)
  then show ?thesis
    unfolding path_step_def wp_bind
    using fits by (intro wp_dir_name [OF rep ok d]) auto
qed

end

end
