(* ===== verification/PathParser.thy ===== *)
theory PathParser
  imports VfsWalk
begin

text \<open>
  The path parser \<^verbatim>\<open>vfsPathParser.c\<close>: finding an object in a folder, following a path to a folder,
  and the parse of a whole path into a \<open>vfsPathParserState_t\<close>, on top of the searches of
  \<^verbatim>\<open>vfs.c\<close>. The reference \<open>resolve\<close> splits the path at the slashes and looks the parts up one
  after another in the abstract file system; the character loops are proved to compute it.
\<close>

section \<open>Parser state\<close>

record vfsPathParserState_t =
  ps_isExistingObject :: bool
  ps_nameOffset :: nat
  ps_nameLength :: nat
  ps_isFilePath :: bool
  ps_isDir :: bool
  ps_isValid :: bool
  ps_error :: cint
  ps_parentId :: clong
  ps_id :: clong

definition ROOT_FOLDER_ID :: clong where "ROOT_FOLDER_ID = 0"
definition ROOT_PARENT_ID :: clong where "ROOT_PARENT_ID = -1"

definition init_vfsPathParserState :: "vfsPathParserState_t \<Rightarrow> vfsPathParserState_t" where
  "init_vfsPathParserState st =
     st\<lparr>ps_error := 0, ps_id := -1, ps_isDir := False, ps_isFilePath := False, ps_isValid := False,
        ps_nameLength := 0, ps_nameOffset := 0, ps_parentId := -1, ps_isExistingObject := True\<rparr>"

text \<open>Reading a character of a C string: the terminator can be read, nothing behind it.\<close>

definition char_at :: "string \<Rightarrow> nat \<Rightarrow> char outcome" where
  "char_at p i = (if i < length p then Ok (p ! i) else if i = length p then Ok NUL else Fault OutOfBounds)"

text \<open>The backward scan; \<open>k\<close> is \<^verbatim>\<open>currPos - fullFilePath + 1\<close>.\<close>

fun scan_back :: "string \<Rightarrow> nat \<Rightarrow> nat \<Rightarrow> (nat \<times> nat) outcome" where
  "scan_back p 0 i = Ok (0, i)"
| "scan_back p (Suc k) i =
     obind (char_at p k) (\<lambda>c. if c = CHR ''/'' then Ok (Suc k, i) else scan_back p k (i + 1))"

definition vfs_seperatePathAndName ::
    "vfsPathParserState_t \<Rightarrow> string \<Rightarrow> nat \<Rightarrow> (cint \<times> vfsPathParserState_t) outcome" where
  "vfs_seperatePathAndName st fullFilePath fullFilePathLength =
     obind (scan_back fullFilePath fullFilePathLength 0) (\<lambda>(k, i).
       Ok (0, if k = 0 then st\<lparr>ps_nameLength := fullFilePathLength, ps_nameOffset := 0\<rparr>
              else st\<lparr>ps_nameLength := i, ps_nameOffset := k\<rparr>))"

section \<open>Following a path\<close>

definition vfs_findObjectInDir ::
    "'s server \<Rightarrow> vfsPathParserState_t \<Rightarrow> clong \<Rightarrow> string \<Rightarrow> nat \<Rightarrow> ('s, cint \<times> vfsPathParserState_t) op" where
  "vfs_findObjectInDir srv st dirId name nameLength =
     bind (vfs_findFileNameInDir srv dirId name nameLength) (\<lambda>fileId.
       if fileId \<noteq> -1 then ret (0, st\<lparr>ps_id := fileId, ps_isFilePath := True, ps_isDir := False\<rparr>)
       else
         bind (vfs_findDirNameInDir srv dirId name nameLength) (\<lambda>resultId.
           if resultId = -1 then ret (-1, st)
           else ret (0, st\<lparr>ps_id := resultId, ps_isFilePath := False, ps_isDir := True\<rparr>)))"

fun getLengthOfNextName :: "string \<Rightarrow> nat \<Rightarrow> nat \<Rightarrow> nat outcome" where
  "getLengthOfNextName p off 0 = Ok 0"
| "getLengthOfNextName p off (Suc remaining) =
     obind (char_at p off) (\<lambda>c.
       if c = CHR ''/'' then Ok 0 else obind (getLengthOfNextName p (off + 1) remaining) (\<lambda>i. Ok (i + 1)))"

text \<open>The loop of \<^verbatim>\<open>vfs_getDirIdFromPath\<close>; \<open>off\<close> is \<^verbatim>\<open>currPtr - path\<close>.\<close>

function (sequential) dir_loop ::
    "'s server \<Rightarrow> string \<Rightarrow> nat \<Rightarrow> nat \<Rightarrow> vfsPathParserState_t \<Rightarrow> clong \<Rightarrow> ('s, clong) op" where
  "dir_loop srv path pathLength off st currDir =
     (case getLengthOfNextName path off (pathLength - off) of
        Fault e \<Rightarrow> fail e
      | Ok len \<Rightarrow>
          if off + len \<ge> pathLength then ret currDir
          else
            bind (vfs_findObjectInDir srv st currDir (drop off path) len) (\<lambda>(result, st').
              if result \<noteq> 0 \<or> ps_id st' = -1 \<or> \<not> ps_isDir st' then ret (-1)
              else dir_loop srv path pathLength (off + len + 1) st' (ps_id st')))"
  by pat_completeness auto
termination
  by (relation "measure (\<lambda>(srv, path, pathLength, off, st, currDir). pathLength - off)") auto

declare dir_loop.simps [simp del]

definition blank_state :: vfsPathParserState_t where
  "blank_state = \<lparr>ps_isExistingObject = False, ps_nameOffset = 0, ps_nameLength = 0,
     ps_isFilePath = False, ps_isDir = False, ps_isValid = False, ps_error = 0, ps_parentId = 0, ps_id = 0\<rparr>"

definition vfs_getDirIdFromPath :: "'s server \<Rightarrow> clong \<Rightarrow> string \<Rightarrow> nat \<Rightarrow> ('s, clong) op" where
  "vfs_getDirIdFromPath srv userCwd path pathLength =
     bind (lift (char_at path 0)) (\<lambda>c.
       let st = init_vfsPathParserState blank_state
       in if c = CHR ''/'' then dir_loop srv path pathLength 1 st 0
          else dir_loop srv path pathLength 0 st userCwd)"

definition vfs_parsePath ::
    "'s server \<Rightarrow> vfsPathParserState_t \<Rightarrow> string \<Rightarrow> nat \<Rightarrow> clong \<Rightarrow> ('s, cint \<times> vfsPathParserState_t) op" where
  "vfs_parsePath srv parserState fullPath fullPathLength clientCwd =
     (if fullPathLength = 0 then ret (-1, parserState)
      else
        bind (lift (char_at fullPath 0)) (\<lambda>first.
        let cwd = (if first = CHR ''/'' then ROOT_FOLDER_ID else clientCwd);
            st = init_vfsPathParserState parserState
        in
        bind (lift (char_at fullPath (fullPathLength - 1))) (\<lambda>lastc.
        let fixedPathLength = (if lastc = CHR ''/'' then fullPathLength - 1 else fullPathLength)
        in
          if cwd = ROOT_FOLDER_ID \<and> fixedPathLength = 0
          then ret (0, st\<lparr>ps_id := ROOT_FOLDER_ID, ps_parentId := ROOT_PARENT_ID, ps_isDir := True,
                          ps_isFilePath := False\<rparr>)
          else
            bind (lift (vfs_seperatePathAndName st fullPath fixedPathLength)) (\<lambda>(sep, st).
            if sep \<noteq> 0 then ret (-1, st)
            else
              bind (vfs_getDirIdFromPath srv cwd fullPath fixedPathLength) (\<lambda>tempId.
              if tempId = -1 then ret (-1, st)
              else if ps_nameLength st > 0 then
                bind (vfs_findObjectInDir srv st tempId (drop (ps_nameOffset st) fullPath)
                        (ps_nameLength st)) (\<lambda>(found, st).
                  if found \<noteq> 0
                  then ret (0, st\<lparr>ps_isExistingObject := False, ps_parentId := tempId\<rparr>)
                  else
                    let st = st\<lparr>ps_isExistingObject := True\<rparr>
                    in if ps_isFilePath st then ret (0, st\<lparr>ps_parentId := tempId\<rparr>)
                       else bind (vfs_getDirParent srv (ps_id st)) (\<lambda>parent.
                              ret (0, st\<lparr>ps_parentId := parent\<rparr>)))
              else ret (0, st))))))"

text \<open>
  \<open>uninit\<close> is the content of the uninitialised local \<^verbatim>\<open>parserState\<close>; the result of the parse is
  assigned and not looked at.
\<close>

definition vfs_deleteObjectWithPath ::
    "'s server \<Rightarrow> vfsPathParserState_t \<Rightarrow> string \<Rightarrow> clong \<Rightarrow> ('s, cint) op" where
  "vfs_deleteObjectWithPath srv uninit path cwd =
     bind (vfs_parsePath srv uninit path (length path) cwd) (\<lambda>(result1, st).
       if \<not> ps_isExistingObject st then ret (-1)
       else if ps_isDir st
       then bind (priv_removeIdFromFolderList srv (ps_parentId st) (ps_id st)) (\<lambda>_. ret 0)
       else if ps_isFilePath st
       then bind (priv_removeIdFromFileList srv (ps_parentId st) (ps_id st)) (\<lambda>_. ret 0)
       else ret 0)"

section \<open>Reference\<close>

text \<open>The parts of a path between its slashes.\<close>

fun split_slash :: "string \<Rightarrow> string list" where
  "split_slash [] = [[]]"
| "split_slash (c # cs) =
     (if c = CHR ''/'' then [] # split_slash cs
      else (c # hd (split_slash cs)) # tl (split_slash cs))"

datatype object = FileObj clong | DirObj clong

definition lookup_obj :: "fs \<Rightarrow> clong \<Rightarrow> string \<Rightarrow> object option" where
  "lookup_obj a d name =
     (case find_file a d name of
        Some f \<Rightarrow> Some (FileObj f)
      | None \<Rightarrow> map_option DirObj (find_dir a d name))"

fun resolve :: "fs \<Rightarrow> clong \<Rightarrow> string list \<Rightarrow> clong option" where
  "resolve a d [] = Some d"
| "resolve a d (x # xs) =
     (case lookup_obj a d x of Some (DirObj c) \<Rightarrow> resolve a c xs | _ \<Rightarrow> None)"

lemma split_slash_nonempty [simp]: "split_slash s \<noteq> []"
  by (induction s) auto

lemma split_slash_part [simp]: "CHR ''/'' \<notin> set x \<Longrightarrow> split_slash x = [x]"
  by (induction x) auto

lemma split_slash_append [simp]:
  "CHR ''/'' \<notin> set x \<Longrightarrow> split_slash (x @ CHR ''/'' # y) = x # split_slash y"
  by (induction x) auto

lemma split_slash_snoc:
  "split_slash (s @ [c]) =
     (if c = CHR ''/'' then split_slash s @ [[]]
      else butlast (split_slash s) @ [last (split_slash s) @ [c]])"
proof (induction s)
  case (Cons b s)
  then show ?case by (cases "split_slash s") auto
qed simp

lemma last_split_slash_Cons:
  "last (split_slash (CHR ''/'' # s)) = last (split_slash s)"
  "butlast (split_slash (CHR ''/'' # s)) = [] # butlast (split_slash s)"
  by simp_all

text \<open>The forward scan finds the end of the next part.\<close>

lemma getLengthOfNextName_spec:
  "off + r \<le> length p \<Longrightarrow>
     getLengthOfNextName p off r = Ok (length (takeWhile (\<lambda>c. c \<noteq> CHR ''/'') (take r (drop off p))))"
proof (induction r arbitrary: off)
  case (Suc r)
  then have "drop off p = p ! off # drop (Suc off) p" by (simp add: Cons_nth_drop_Suc)
  then show ?case using Suc by (simp add: char_at_def)
qed simp

text \<open>The backward scan finds the start of the last part.\<close>

lemma scan_back_spec:
  "k \<le> length p \<Longrightarrow> \<exists>off \<le> k. scan_back p k i = Ok (off, i + (k - off)) \<and>
     drop off (take k p) = last (split_slash (take k p))"
proof (induction k arbitrary: i)
  case (Suc k)
  have snoc: "take (Suc k) p = take k p @ [p ! k]" using Suc.prems by (simp add: take_Suc_conv_app_nth)
  show ?case
  proof (cases "p ! k = CHR ''/''")
    case True
    then show ?thesis using Suc.prems snoc
      by (intro exI [of _ "Suc k"]) (simp add: char_at_def split_slash_snoc)
  next
    case False
    obtain off where off: "off \<le> k" "scan_back p k (i + 1) = Ok (off, i + 1 + (k - off))"
        "drop off (take k p) = last (split_slash (take k p))"
      using Suc.IH [of "i + 1"] Suc.prems by auto
    then show ?thesis using False Suc.prems snoc
      by (intro exI [of _ off]) (simp add: char_at_def split_slash_snoc)
  qed
qed simp

section \<open>The parser computes the reference\<close>

definition slash_free :: "fs \<Rightarrow> bool" where
  "slash_free a \<longleftrightarrow> (\<forall>f e. fs_file a f = Some e \<longrightarrow> CHR ''/'' \<notin> set (file_name e))"

lemma find_file_Some:
  "find_file a d n = Some f \<Longrightarrow> f \<in> set (fs_files a d) \<and> fname a f = n"
  by (auto simp: find_file_def find_Some_iff) (metis length_rev nth_mem set_rev)

lemma find_dir_dom:
  assumes ok: "fs_ok a" and d: "d \<in> dom (fs_dir a)" and f: "find_dir a d n = Some c"
  shows "c \<in> dom (fs_dir a)"
proof -
  obtain e where e: "fs_dir a d = Some e" using d by auto
  then have "dparent a d \<in> dom (fs_dir a)"
    using fs_ok_dir [OF ok e] by (simp add: dirent_ok_def dparent_def)
  then show ?thesis
    using f d ok_dir_list(1) [OF ok]
    by (auto simp: find_dir_def find_Some_iff split: if_splits) (metis domD nth_mem)
qed

lemma dir_not_minus1: "fs_ok a \<Longrightarrow> c \<in> dom (fs_dir a) \<Longrightarrow> c \<noteq> -1"
  using fs_ok_dir_nonneg by fastforce

lemma file_not_minus1: "fs_ok a \<Longrightarrow> c \<in> set (fs_files a d) \<Longrightarrow> c \<noteq> -1"
  using ok_file_list(2) by fastforce

definition found_state :: "vfsPathParserState_t \<Rightarrow> object option \<Rightarrow> cint \<times> vfsPathParserState_t" where
  "found_state st obj =
     (case obj of
        None \<Rightarrow> (-1, st)
      | Some (FileObj f) \<Rightarrow> (0, st\<lparr>ps_id := f, ps_isFilePath := True, ps_isDir := False\<rparr>)
      | Some (DirObj c) \<Rightarrow> (0, st\<lparr>ps_id := c, ps_isFilePath := False, ps_isDir := True\<rparr>))"

lemma lookup_dir_dom:
  "fs_ok a \<Longrightarrow> d \<in> dom (fs_dir a) \<Longrightarrow> lookup_obj a d n = Some (DirObj c) \<Longrightarrow> c \<in> dom (fs_dir a)"
  by (auto simp: lookup_obj_def simp del: domIff split: option.splits dest: find_dir_dom)

lemma resolve_dom:
  "fs_ok a \<Longrightarrow> d \<in> dom (fs_dir a) \<Longrightarrow> resolve a d xs = Some c \<Longrightarrow> c \<in> dom (fs_dir a)"
proof (induction xs arbitrary: d)
  case (Cons x xs)
  then obtain d' where "lookup_obj a d x = Some (DirObj d')" "resolve a d' xs = Some c"
    by (auto split: option.splits object.splits)
  then show ?case using Cons lookup_dir_dom by blast
qed simp

text \<open>The folder a path leads to, up to its last slash.\<close>

definition dir_of_path :: "fs \<Rightarrow> string \<Rightarrow> clong \<Rightarrow> clong option" where
  "dir_of_path a path cwd =
     (if path \<noteq> [] \<and> hd path = CHR ''/'' then resolve a 0 (butlast (split_slash (tl path)))
      else resolve a cwd (butlast (split_slash path)))"

definition strip_slash :: "string \<Rightarrow> string" where
  "strip_slash p = (if last p = CHR ''/'' then butlast p else p)"

text \<open>The parser state for the object \<open>name\<close> of the folder \<open>d\<close>.\<close>

definition parsed_state :: "fs \<Rightarrow> vfsPathParserState_t \<Rightarrow> clong \<Rightarrow> string \<Rightarrow> vfsPathParserState_t" where
  "parsed_state a st d name =
     (case lookup_obj a d name of
        None \<Rightarrow> st\<lparr>ps_isExistingObject := False, ps_parentId := d\<rparr>
      | Some (FileObj f) \<Rightarrow> st\<lparr>ps_id := f, ps_isFilePath := True, ps_isDir := False,
                               ps_isExistingObject := True, ps_parentId := d\<rparr>
      | Some (DirObj c) \<Rightarrow> st\<lparr>ps_id := c, ps_isFilePath := False, ps_isDir := True,
                              ps_isExistingObject := True, ps_parentId := dparent a c\<rparr>)"

text \<open>
  The outcome of a parse: the root, a path whose folder does not exist, a path that ends in an empty
  part, or the object of that name in the folder.
\<close>

definition parse_spec ::
    "fs \<Rightarrow> vfsPathParserState_t \<Rightarrow> string \<Rightarrow> clong \<Rightarrow> cint \<times> vfsPathParserState_t" where
  "parse_spec a st path cwd =
     (let st0 = init_vfsPathParserState st;
          fixed = strip_slash path;
          name = last (split_slash fixed);
          st1 = st0\<lparr>ps_nameLength := length name, ps_nameOffset := length fixed - length name\<rparr>
      in if fixed = []
         then (0, st0\<lparr>ps_id := ROOT_FOLDER_ID, ps_parentId := ROOT_PARENT_ID, ps_isDir := True,
                      ps_isFilePath := False\<rparr>)
         else
           (case dir_of_path a fixed cwd of
              None \<Rightarrow> (-1, st1)
            | Some d \<Rightarrow> (0, if name = [] then st1 else parsed_state a st1 d name)))"

text \<open>
  The outcome of a delete. A path whose folder does not exist, or that ends in an empty part, is
  reported as success although nothing is removed.
\<close>

definition delete_spec :: "fs \<Rightarrow> string \<Rightarrow> clong \<Rightarrow> cint \<times> fs" where
  "delete_spec a path cwd =
     (let fixed = strip_slash path; name = last (split_slash fixed)
      in case dir_of_path a fixed cwd of
           None \<Rightarrow> (0, a)
         | Some d \<Rightarrow>
             if name = [] then (0, a)
             else
               (case lookup_obj a d name of
                  None \<Rightarrow> (-1, a)
                | Some (FileObj f) \<Rightarrow> (0, unlink_file d f a)
                | Some (DirObj c) \<Rightarrow> (0, unlink_dir (dparent a c) c a)))"

context redis
begin

lemma wp_findObject:
  assumes rep: "fs_rep (view s) a" and ok: "fs_ok a" and sf: "slash_free a"
    and at: "name_at p n" and d: "d \<in> dom (fs_dir a)"
    and post: "\<And>s'. fs_rep (view s') a \<Longrightarrow> Q (found_state st (lookup_obj a d (take n p))) s'"
  shows "wp (vfs_findObjectInDir srv st d p n) Q s"
  unfolding vfs_findObjectInDir_def wp_bind
proof (rule wp_findFile [OF rep ok at])
  fix f assume "f \<in> set (fs_files a d)"
  then show "CHR ''/'' \<notin> set (fname a f)"
    using sf fs_ok_subfile [OF ok] by (auto simp: slash_free_def fname_def)
next
  fix s' assume rep': "fs_rep (view s') a"
  show "wp (if or_minus1 (find_file a d (take n p)) \<noteq> -1
      then ret (0, st\<lparr>ps_id := or_minus1 (find_file a d (take n p)), ps_isFilePath := True, ps_isDir := False\<rparr>)
      else bind (vfs_findDirNameInDir srv d p n) (\<lambda>resultId.
           if resultId = -1 then ret (-1, st)
           else ret (0, st\<lparr>ps_id := resultId, ps_isFilePath := False, ps_isDir := True\<rparr>))) Q s'"
  proof (cases "find_file a d (take n p)")
    case (Some f)
    then have "f \<noteq> -1" using file_not_minus1 [OF ok] find_file_Some by blast
    then show ?thesis using Some post [OF rep'] by (simp add: or_minus1_def lookup_obj_def found_state_def)
  next
    case None
    have "wp (vfs_findDirNameInDir srv d p n)
      (\<lambda>r. wp (if r = -1 then ret (-1, st)
         else ret (0, st\<lparr>ps_id := r, ps_isFilePath := False, ps_isDir := True\<rparr>)) Q) s'"
    proof (rule wp_findDir [OF rep' ok at d])
      fix s'' assume "fs_rep (view s'') a"
      then have Q: "Q (found_state st (lookup_obj a d (take n p))) s''" by (rule post)
      show "wp (if or_minus1 (find_dir a d (take n p)) = -1 then ret (-1, st)
         else ret (0, st\<lparr>ps_id := or_minus1 (find_dir a d (take n p)), ps_isFilePath := False,
                         ps_isDir := True\<rparr>)) Q s''"
      proof (cases "find_dir a d (take n p)")
        case (Some c)
        then have "c \<noteq> -1" using dir_not_minus1 [OF ok] find_dir_dom [OF ok d] by blast
        then show ?thesis using Some None Q by (simp add: or_minus1_def lookup_obj_def found_state_def)
      qed (use None Q in \<open>simp add: or_minus1_def lookup_obj_def found_state_def\<close>)
    qed
    then show ?thesis using None by (simp add: or_minus1_def)
  qed
qed

lemma wp_dir_loop:
  assumes "fs_rep (view s) a" and ok: "fs_ok a" and sf: "slash_free a"
    and nul: "no_nul path" and n: "n \<le> length path" and "off \<le> n" and "cur \<in> dom (fs_dir a)"
    and post: "\<And>s'. fs_rep (view s') a \<Longrightarrow>
      Q (or_minus1 (resolve a cur (butlast (split_slash (take (n - off) (drop off path)))))) s'"
  shows "wp (dir_loop srv path n off st cur) Q s"
  using assms(1,6,7,8)
proof (induction "n - off" arbitrary: off st cur s rule: less_induct)
  case less
  define body where "body = take (n - off) (drop off path)"
  define x where "x = takeWhile (\<lambda>c. c \<noteq> CHR ''/'') body"
  have len: "getLengthOfNextName path off (n - off) = Ok (length x)"
    using getLengthOfNextName_spec [of off "n - off" path] less.prems(2) n by (simp add: x_def body_def)
  have body_len: "length body = n - off" using less.prems(2) n by (simp add: body_def)
  have noslash: "CHR ''/'' \<notin> set x" unfolding x_def by (auto dest: set_takeWhileD)
  show ?case
  proof (cases "off + length x \<ge> n")
    case True
    then have "length body \<le> length x" using body_len by simp
    then have "x = body" unfolding x_def by (metis length_takeWhile_le le_antisym takeWhile_eq_take take_all)
    then have "split_slash body = [body]" using noslash by simp
    then show ?thesis
      using True len less.prems(4) [OF less.prems(1)]
      by (subst dir_loop.simps) (simp add: body_def [symmetric] or_minus1_def)
  next
    case False
    then have lx: "length x < length body" using body_len by simp
    then obtain y where body: "body = x @ CHR ''/'' # y"
      using takeWhile_dropWhile_id [of "\<lambda>c. c \<noteq> CHR ''/''" body] hd_dropWhile [of "\<lambda>c. c \<noteq> CHR ''/''" body]
      unfolding x_def [symmetric]
      by (cases "dropWhile (\<lambda>c. c \<noteq> CHR ''/'') body") auto
    have y: "y = take (n - (off + length x + 1)) (drop (off + length x + 1) path)"
    proof -
      have "y = drop (length x + 1) body" by (simp add: body)
      also have "\<dots> = take (n - off - (length x + 1)) (drop (off + (length x + 1)) path)"
        by (simp add: body_def drop_take add.commute)
      finally show ?thesis by (simp add: add.assoc)
    qed
    have drop_off: "drop off path = x @ CHR ''/'' # (y @ drop n path)"
    proof -
      have "drop off path = body @ drop (n - off) (drop off path)"
        unfolding body_def by (simp only: append_take_drop_id)
      then show ?thesis using body less.prems(2) by simp
    qed
    have at: "name_at (drop off path) (length x)"
      using no_nul_drop [OF nul, of off] drop_off by (simp add: name_at_def)
    have parts: "butlast (split_slash body) = x # butlast (split_slash y)"
      using noslash by (simp add: body)
    let ?obj = "lookup_obj a cur x"
    have "wp (case found_state st ?obj of (result, st') \<Rightarrow>
        if result \<noteq> 0 \<or> ps_id st' = -1 \<or> \<not> ps_isDir st' then ret (-1)
        else dir_loop srv path n (off + length x + 1) st' (ps_id st')) Q s'"
      if rep': "fs_rep (view s') a" for s'
    proof (cases "\<exists>c. ?obj = Some (DirObj c)")
      case True
      then obtain c where c: "?obj = Some (DirObj c)" ..
      then have dom: "c \<in> dom (fs_dir a)" using lookup_dir_dom [OF ok less.prems(3)] by blast
      have "wp (dir_loop srv path n (off + length x + 1) st' c) Q s'" for st'
      proof (rule less.hyps)
        show "n - (off + length x + 1) < n - off" "off + length x + 1 \<le> n" using False by auto
        fix s'' assume "fs_rep (view s'') a"
        then have "Q (or_minus1 (resolve a cur (butlast (split_slash body)))) s''"
          using less.prems(4) by (simp add: body_def)
        then show "Q (or_minus1 (resolve a c (butlast (split_slash
            (take (n - (off + length x + 1)) (drop (off + length x + 1) path)))))) s''"
          by (simp only: parts resolve.simps c y option.simps object.simps)
      qed (use rep' dom in auto)
      then show ?thesis using c dir_not_minus1 [OF ok dom] by (simp add: found_state_def)
    next
      case False
      then have "resolve a cur (butlast (split_slash body)) = None"
        by (simp add: parts split: option.split object.split)
      then have "Q (-1) s'"
        using less.prems(4) [OF rep'] by (simp add: body_def or_minus1_def)
      then show ?thesis using False
        by (cases ?obj) (auto simp: found_state_def split: object.splits)
    qed
    then have "wp (vfs_findObjectInDir srv st cur (drop off path) (length x)) (\<lambda>(result, st').
        wp (if result \<noteq> 0 \<or> ps_id st' = -1 \<or> \<not> ps_isDir st' then ret (-1)
            else dir_loop srv path n (off + length x + 1) st' (ps_id st')) Q) s"
      using drop_off
      by (intro wp_findObject [OF less.prems(1) ok sf at less.prems(3)]) (simp add: case_prod_unfold)
    then show ?thesis
      using False len by (subst dir_loop.simps) (simp add: case_prod_unfold)
  qed
qed

lemma wp_getDirIdFromPath:
  assumes rep: "fs_rep (view s) a" and ok: "fs_ok a" and sf: "slash_free a"
    and nul: "no_nul path" and n: "n \<le> length path" "0 < n" and cwd: "cwd \<in> dom (fs_dir a)"
    and post: "\<And>s'. fs_rep (view s') a \<Longrightarrow> Q (or_minus1 (dir_of_path a (take n path) cwd)) s'"
  shows "wp (vfs_getDirIdFromPath srv cwd path n) Q s"
proof -
  obtain c cs where path: "path = c # cs" using n by (cases path) auto
  have tl: "take (n - 1) (drop 1 path) = tl (take n path)" using n path by (cases n) auto
  have hd: "hd (take n path) = c" using n path by (cases n) auto
  have "wp (dir_loop srv path n 1 st 0) Q s" if "c = CHR ''/''" for st
    using that n post tl hd
    by (intro wp_dir_loop [OF rep ok sf nul n(1) _ fs_ok_root [OF ok]]) (auto simp: dir_of_path_def path)
  moreover have "wp (dir_loop srv path n 0 st cwd) Q s" if "c \<noteq> CHR ''/''" for st
    using that n post hd
    by (intro wp_dir_loop [OF rep ok sf nul n(1) _ cwd]) (auto simp: dir_of_path_def)
  ultimately show ?thesis
    unfolding vfs_getDirIdFromPath_def by (simp add: char_at_def path Let_def)
qed

lemma wp_parsePath:
  assumes rep: "fs_rep (view s) a" and ok: "fs_ok a" and sf: "slash_free a"
    and nul: "no_nul path" and path: "path \<noteq> []" and cwd: "cwd \<in> dom (fs_dir a)"
    and post: "\<And>s'. fs_rep (view s') a \<Longrightarrow> Q (parse_spec a st path cwd) s'"
  shows "wp (vfs_parsePath srv st path (length path) cwd) Q s"
proof -
  define m where "m = (if last path = CHR ''/'' then length path - 1 else length path)"
  define start where "start = (if hd path = CHR ''/'' then ROOT_FOLDER_ID else cwd)"
  define st0 where "st0 = init_vfsPathParserState st"
  have fixed: "take m path = strip_slash path"
    using path by (simp add: m_def strip_slash_def butlast_conv_take)
  have mle: "m \<le> length path" by (simp add: m_def)
  have fixed_len: "length (strip_slash path) = m" using mle by (simp flip: fixed)
  have first: "char_at path 0 = Ok (hd path)" and lastc: "char_at path (length path - 1) = Ok (last path)"
    using path by (simp_all add: char_at_def hd_conv_nth last_conv_nth)
  have start_dom: "start \<in> dom (fs_dir a)"
    using fs_ok_root [OF ok] cwd by (simp add: start_def ROOT_FOLDER_ID_def)
  show ?thesis
  proof (cases "m = 0")
    case True
    then have "path = ''/''" using path unfolding m_def
      by (cases path rule: rev_cases) (auto split: if_splits)
    then show ?thesis
      using post [OF rep] first by (simp add: vfs_parsePath_def char_at_def parse_spec_def strip_slash_def Let_def)
  next
    case False
    obtain off where off: "off \<le> m" "scan_back path m 0 = Ok (off, m - off)"
        "drop off (take m path) = last (split_slash (take m path))"
      using scan_back_spec [OF mle, of 0] by auto
    let ?name = "last (split_slash (strip_slash path))"
    define st1 where "st1 = st0\<lparr>ps_nameLength := length ?name, ps_nameOffset := m - length ?name\<rparr>"
    have name: "length ?name = m - off" using arg_cong [OF off(3), of length] mle by (simp flip: fixed)
    have sep: "vfs_seperatePathAndName st0 path m = Ok (0, st1)"
      using off(1,2) name by (simp add: vfs_seperatePathAndName_def st1_def)
    have name_eq: "take (length ?name) (drop (m - length ?name) path) = ?name"
      using off(1,3) name mle by (simp add: drop_take flip: fixed)
    have at: "name_at (drop (m - length ?name) path) (length ?name)"
    proof -
      have "path ! m = CHR ''/''" if "m < length path"
        using that path unfolding m_def by (auto simp: last_conv_nth split: if_splits)
      then show ?thesis using off(1) name mle no_nul_drop [OF nul] by (simp add: name_at_def)
    qed
    have found: "wp (bind (vfs_findObjectInDir srv st1 d (drop (m - length ?name) path) (length ?name))
        (\<lambda>(found, st).
           if found \<noteq> 0 then ret (0, st\<lparr>ps_isExistingObject := False, ps_parentId := d\<rparr>)
           else let st = st\<lparr>ps_isExistingObject := True\<rparr>
                in if ps_isFilePath st then ret (0, st\<lparr>ps_parentId := d\<rparr>)
                   else bind (vfs_getDirParent srv (ps_id st)) (\<lambda>parent. ret (0, st\<lparr>ps_parentId := parent\<rparr>)))) Q s'"
      if d: "d \<in> dom (fs_dir a)" and rep': "fs_rep (view s') a"
        and Q: "\<And>s'. fs_rep (view s') a \<Longrightarrow> Q (0, parsed_state a st1 d ?name) s'" for d s'
      unfolding wp_bind
    proof (rule wp_findObject [OF rep' ok sf at d])
      fix s'' assume rep'': "fs_rep (view s'') a"
      show "wp (case found_state st1 (lookup_obj a d (take (length ?name) (drop (m - length ?name) path)))
        of (found, st) \<Rightarrow>
           if found \<noteq> 0 then ret (0, st\<lparr>ps_isExistingObject := False, ps_parentId := d\<rparr>)
           else let st = st\<lparr>ps_isExistingObject := True\<rparr>
                in if ps_isFilePath st then ret (0, st\<lparr>ps_parentId := d\<rparr>)
                   else bind (vfs_getDirParent srv (ps_id st)) (\<lambda>parent. ret (0, st\<lparr>ps_parentId := parent\<rparr>))) Q s''"
        unfolding name_eq
        using Q [OF rep''] Q lookup_dir_dom [OF ok d]
        by (auto simp: found_state_def parsed_state_def Let_def split: option.splits object.splits
            intro!: wp_dir_parent [OF rep'' ok])
    qed
    have dir_eq: "dir_of_path a (take m path) start = dir_of_path a (strip_slash path) cwd"
      using False path by (simp add: dir_of_path_def start_def flip: fixed)
    have dir_dom: "d \<in> dom (fs_dir a)" if "dir_of_path a (strip_slash path) cwd = Some d" for d
      using that resolve_dom [OF ok] fs_ok_root [OF ok] cwd
      by (auto simp: dir_of_path_def simp del: domIff split: if_splits)
    have fixed_ne: "strip_slash path \<noteq> []"
      using False path by (auto simp flip: fixed)
    have spec: "parse_spec a st path cwd =
        (case dir_of_path a (strip_slash path) cwd of
              None \<Rightarrow> (-1, st1)
            | Some d \<Rightarrow> (0, if ?name = [] then st1 else parsed_state a st1 d ?name))"
      unfolding parse_spec_def Let_def st1_def st0_def fixed_len if_not_P [OF fixed_ne] by (rule refl)
    have rest: "wp (if or_minus1 (dir_of_path a (strip_slash path) cwd) = -1 then ret (-1, st1)
          else if ps_nameLength st1 > 0 then
            bind (vfs_findObjectInDir srv st1 (or_minus1 (dir_of_path a (strip_slash path) cwd))
                (drop (ps_nameOffset st1) path) (ps_nameLength st1))
              (\<lambda>(found, st).
                 if found \<noteq> 0 then ret (0, st\<lparr>ps_isExistingObject := False,
                     ps_parentId := or_minus1 (dir_of_path a (strip_slash path) cwd)\<rparr>)
                 else let st = st\<lparr>ps_isExistingObject := True\<rparr>
                      in if ps_isFilePath st
                         then ret (0, st\<lparr>ps_parentId := or_minus1 (dir_of_path a (strip_slash path) cwd)\<rparr>)
                         else bind (vfs_getDirParent srv (ps_id st))
                                (\<lambda>parent. ret (0, st\<lparr>ps_parentId := parent\<rparr>)))
          else ret (0, st1)) Q s'"
      if rep': "fs_rep (view s') a" for s'
    proof (cases "dir_of_path a (strip_slash path) cwd")
      case None
      then show ?thesis using post [OF rep'] spec by (simp add: or_minus1_def)
    next
      case (Some d)
      then have d: "d \<in> dom (fs_dir a)" by (rule dir_dom)
      have om: "or_minus1 (dir_of_path a (strip_slash path) cwd) = d" by (simp add: Some or_minus1_def)
      have fields: "ps_nameLength st1 = length ?name" "ps_nameOffset st1 = m - length ?name"
        by (simp_all add: st1_def)
      show ?thesis
      proof (cases "?name = []")
        case True
        then have "Q (0, st1) s'" using post [OF rep'] spec Some by simp
        then show ?thesis unfolding om fields using True dir_not_minus1 [OF ok d] by simp
      next
        case False
        then have "\<And>s'. fs_rep (view s') a \<Longrightarrow> Q (0, parsed_state a st1 d ?name) s'"
          using post spec Some by simp
        then show ?thesis
          unfolding om fields using found [OF d rep'] False dir_not_minus1 [OF ok d] by simp
      qed
    qed
    have "wp (vfs_getDirIdFromPath srv start path m)
        (\<lambda>tempId. wp (if tempId = -1 then ret (-1, st1)
          else if ps_nameLength st1 > 0 then
            bind (vfs_findObjectInDir srv st1 tempId (drop (ps_nameOffset st1) path) (ps_nameLength st1))
              (\<lambda>(found, st).
                 if found \<noteq> 0 then ret (0, st\<lparr>ps_isExistingObject := False, ps_parentId := tempId\<rparr>)
                 else let st = st\<lparr>ps_isExistingObject := True\<rparr>
                      in if ps_isFilePath st then ret (0, st\<lparr>ps_parentId := tempId\<rparr>)
                         else bind (vfs_getDirParent srv (ps_id st))
                                (\<lambda>parent. ret (0, st\<lparr>ps_parentId := parent\<rparr>)))
          else ret (0, st1)) Q) s"
      by (rule wp_getDirIdFromPath [OF rep ok sf nul mle _ start_dom])
         (use False in simp, unfold dir_eq, rule rest)
    then show ?thesis
      using path False first lastc sep
      by (simp add: vfs_parsePath_def Let_def flip: start_def st0_def m_def)
  qed
qed

lemma wp_deleteObject:
  assumes rep: "fs_rep (view s) a" and ok: "fs_ok a" and sf: "slash_free a"
    and nul: "no_nul path" and path: "path \<noteq> []" "path \<noteq> ''/''" and cwd: "cwd \<in> dom (fs_dir a)"
    and post: "\<And>s'. fs_rep (view s') (snd (delete_spec a path cwd)) \<Longrightarrow> Q (fst (delete_spec a path cwd)) s'"
  shows "wp (vfs_deleteObjectWithPath srv st path cwd) Q s"
  unfolding vfs_deleteObjectWithPath_def wp_bind
proof (rule wp_parsePath [OF rep ok sf nul path(1) cwd])
  fix s' assume rep': "fs_rep (view s') a"
  let ?fixed = "strip_slash path"
  let ?name = "last (split_slash ?fixed)"
  let ?st1 = "(init_vfsPathParserState st)\<lparr>ps_nameLength := length ?name, ps_nameOffset := length ?fixed - length ?name\<rparr>"
  let ?rest = "\<lambda>(r, st). wp (if \<not> ps_isExistingObject st then ret (-1)
       else if ps_isDir st
       then bind (priv_removeIdFromFolderList srv (ps_parentId st) (ps_id st)) (\<lambda>_. ret 0)
       else if ps_isFilePath st
       then bind (priv_removeIdFromFileList srv (ps_parentId st) (ps_id st)) (\<lambda>_. ret 0)
       else ret 0) Q s'"
  have ne: "?fixed \<noteq> []"
    using path by (cases path rule: rev_cases) (auto simp: strip_slash_def)
  have dom: "d \<in> dom (fs_dir a)" if "dir_of_path a ?fixed cwd = Some d" for d
    using that resolve_dom [OF ok] fs_ok_root [OF ok] cwd
    by (auto simp: dir_of_path_def simp del: domIff split: if_splits)
  have "?rest (parse_spec a st path cwd)"
  proof (cases "dir_of_path a ?fixed cwd")
    case None
    then show ?thesis
      using ne post rep' by (simp add: parse_spec_def Let_def delete_spec_def init_vfsPathParserState_def)
  next
    case (Some d)
    note d = dom [OF Some]
    show ?thesis
    proof (cases "?name = []")
      case True
      then show ?thesis
        using Some ne post rep' by (simp add: parse_spec_def Let_def delete_spec_def init_vfsPathParserState_def)
    next
      case False
      have spec: "parse_spec a st path cwd = (0, parsed_state a ?st1 d ?name)"
        using ne Some False by (simp add: parse_spec_def Let_def)
      have dspec: "delete_spec a path cwd =
          (case lookup_obj a d ?name of None \<Rightarrow> (-1, a)
           | Some (FileObj f) \<Rightarrow> (0, unlink_file d f a)
           | Some (DirObj c) \<Rightarrow> (0, unlink_dir (dparent a c) c a))"
        using ne Some False by (simp add: delete_spec_def)
      show ?thesis
      proof (cases "lookup_obj a d ?name")
        case None
        then show ?thesis using post rep' unfolding spec dspec by (simp add: parsed_state_def)
      next
        case (Some obj)
        show ?thesis
        proof (cases obj)
          case (FileObj f)
          then have lk: "lookup_obj a d ?name = Some (FileObj f)" using Some by simp
          then have "f \<in> set (fs_files a d)"
            by (auto simp: lookup_obj_def split: option.splits dest: find_file_Some)
          then have f: "0 \<le> sint f" by (rule ok_file_list(2) [OF ok])
          have "wp (priv_removeIdFromFileList srv d f) (\<lambda>_. Q 0) s'"
            using d f fs_ok_dir_nonneg [OF ok] post [unfolded dspec lk]
            by (intro wp_removeFile [of d s' "map show_ulong (fs_files a d)"])
               (auto simp: fs_repD [OF rep'] fs_rep_lists [OF rep'])
          then show ?thesis unfolding spec by (simp add: parsed_state_def lk)
        next
          case (DirObj c)
          then have lk: "lookup_obj a d ?name = Some (DirObj c)" using Some by simp
          then have "c \<in> dom (fs_dir a)" using lookup_dir_dom [OF ok d] by blast
          then obtain e where e: "fs_dir a c = Some e" by auto
          have nonneg: "0 \<le> sint (dparent a c)" "0 \<le> sint c"
            using e fs_ok_parent_nonneg [OF ok e] fs_ok_dir_nonneg [OF ok e] by (auto simp: dparent_def)
          have "wp (priv_removeIdFromFolderList srv (dparent a c) c) (\<lambda>_. Q 0) s'"
            using nonneg post [unfolded dspec lk]
            by (intro wp_removeDir [of "dparent a c" s' "map show_ulong (fs_subdirs a (dparent a c))"])
               (auto simp: fs_repD [OF rep'] fs_rep_lists [OF rep'])
          then show ?thesis unfolding spec by (simp add: parsed_state_def lk init_vfsPathParserState_def)
        qed
      qed
    qed
  qed
  then show "wp (case parse_spec a st path cwd of (result1, st) \<Rightarrow>
       if \<not> ps_isExistingObject st then ret (-1)
       else if ps_isDir st
       then bind (priv_removeIdFromFolderList srv (ps_parentId st) (ps_id st)) (\<lambda>_. ret 0)
       else if ps_isFilePath st
       then bind (priv_removeIdFromFileList srv (ps_parentId st) (ps_id st)) (\<lambda>_. ret 0)
       else ret 0) Q s'"
    by (simp add: case_prod_unfold)
qed

end

end
