(* ===== verification/VfsProperties.thy ===== *)
theory VfsProperties
  imports PathParser
begin

text \<open>
  The properties of the file system layer and the path parser, for any server that follows the Redis
  command reference, each applied to the documented server at a concrete state.
\<close>

lemma wp_run_eq: "wp m (\<lambda>x s'. x = v \<and> P s') s \<Longrightarrow> \<exists>s'. m s = (Ok v, s') \<and> P s'"
  by (auto dest: wp_run)

lemma wp_run_unit: "wp m (\<lambda>_ s'. P s') s \<Longrightarrow> \<exists>s'. m s = (Ok (), s') \<and> P s'"
  by (auto dest: wp_run)

section \<open>Histories of requests\<close>

text \<open>The concrete history the witnesses use: a folder, a file in it, another file.\<close>

definition demo :: "request list" where
  "demo = [Mkdir 0 ''docs'', CreateFile 1 ''a.txt'' 42 ''g'' ''w'' ''u'', CreateFile 1 ''b.txt'' 7 ''g'' ''w'' ''u'']"

definition demo_fs :: fs where
  "demo_fs = apply_requests demo fs_init"

lemma demo_fs_eq:
  "demo_fs = \<lparr>fs_next = 4,
     fs_dir = [0 \<mapsto> \<lparr>dir_name = ''root'', dir_parent = 0\<rparr>, 1 \<mapsto> \<lparr>dir_name = ''docs'', dir_parent = 0\<rparr>],
     fs_file = [2 \<mapsto> \<lparr>file_name = ''a.txt'', file_size = 42, file_googleId = ''g'', file_webUrl = ''w'', file_apiUrl = ''u''\<rparr>,
                3 \<mapsto> \<lparr>file_name = ''b.txt'', file_size = 7, file_googleId = ''g'', file_webUrl = ''w'', file_apiUrl = ''u''\<rparr>],
     fs_subdirs = (\<lambda>_. [])(0 := [1]), fs_files = (\<lambda>_. [])(1 := [3, 2])\<rparr>"
  by (simp add: demo_fs_def demo_def fs_init_def add_dir_def add_file_def fun_eq_iff)

lemma demo_ok: "requests_ok demo fs_init"
  by (simp add: demo_def fs_init_def add_dir_def add_file_def MAX_FILENAME_SIZE_def)

lemma demo_fs_ok: "fs_ok demo_fs"
  unfolding demo_fs_def by (rule fs_ok_apply_requests [OF fs_ok_init demo_ok])

lemma demo_fs_tree: "fs_tree demo_fs"
  unfolding demo_fs_def
  by (rule fs_tree_apply_requests [OF fs_ok_init fs_tree_init demo_ok]) (simp add: demo_def)

lemma demo_slash_free: "slash_free demo_fs"
  by (simp add: slash_free_def demo_fs_eq)

lemma demo_rep: "\<exists>db. fs_rep db demo_fs"
proof -
  have "wp (bind (vfs_buildDatabase doc_server) (\<lambda>_. run_requests doc_server demo))
      (\<lambda>_ db. fs_rep db demo_fs) Map.empty"
    unfolding wp_bind demo_fs_def
    by (rule wp_mono [OF doc.wp_build]) (rule doc.wp_requests [OF _ fs_ok_init demo_ok])
  from wp_run_unit [OF this] show ?thesis by blast
qed



text \<open>
  \<^verbatim>\<open>vfs_mkdir\<close> returns an id that no folder, file or list of the file system holds, and afterwards
  the new folder has the name and the parent, is the first in its parent's list, and nothing else
  has changed.
\<close>

theorem mkdir_refines:
  assumes "redis_server srv view" and "fs_rep (view s) a" and "fs_ok a"
    and "request_ok (Mkdir p name) a"
  shows "\<exists>s'. vfs_mkdir srv p name s = (Ok (fs_next a), s') \<and>
     fs_rep (view s') (add_dir p (c_str name) a) \<and> fs_ok (add_dir p (c_str name) a) \<and>
     fs_dir a (fs_next a) = None \<and> fs_file a (fs_next a) = None \<and>
     (\<forall>d. fs_next a \<notin> set (fs_subdirs a d) \<and> fs_next a \<notin> set (fs_files a d))"
proof -
  have "wp (vfs_mkdir srv p name)
      (\<lambda>r s'. r = fs_next a \<and> fs_rep (view s') (add_dir p (c_str name) a)) s"
    using assms(4) by (intro redis.wp_mkdir [OF redis.intro [OF assms(1)] assms(2,3)]) auto
  from wp_run_eq [OF this] show ?thesis
    using fs_ok_fresh [OF assms(3)] fs_ok_apply [OF assms(3,4)] by auto
qed

theorem mkdir_refines_witness:
  "\<exists>db db'. fs_rep db fs_init \<and> vfs_mkdir doc_server 0 ''docs'' db = (Ok 1, db') \<and>
     fs_rep db' (add_dir 0 ''docs'' fs_init)"
proof -
  have "request_ok (Mkdir 0 ''docs'') fs_init" by (simp add: fs_init_def MAX_FILENAME_SIZE_def)
  from mkdir_refines [where srv = doc_server and view = "\<lambda>db. db", OF redis_server_doc_server fs_rep_init fs_ok_init this]
  show ?thesis using fs_rep_init by (auto simp: fs_init_def)
qed

text \<open>
  \<^verbatim>\<open>vfs_createFile\<close> does the same for a file with its name, size and URLs.
\<close>

theorem createFile_refines:
  assumes "redis_server srv view" and "fs_rep (view s) a" and "fs_ok a"
    and "request_ok (CreateFile p name sz g w u) a"
  shows "\<exists>s'. vfs_createFile srv p name sz g w u s = (Ok (fs_next a), s') \<and>
     fs_rep (view s') (apply_request (CreateFile p name sz g w u) a) \<and>
     fs_ok (apply_request (CreateFile p name sz g w u) a) \<and> fs_file a (fs_next a) = None"
proof -
  have "wp (vfs_createFile srv p name sz g w u)
      (\<lambda>r s'. r = fs_next a \<and> fs_rep (view s') (apply_request (CreateFile p name sz g w u) a)) s"
    using assms(4) by (intro redis.wp_createFile [OF redis.intro [OF assms(1)] assms(2,3)]) auto
  from wp_run_eq [OF this] show ?thesis
    using fs_ok_fresh [OF assms(3)] fs_ok_apply [OF assms(3,4)] by auto
qed

theorem createFile_refines_witness:
  "\<exists>db db'. fs_rep db fs_init \<and> vfs_createFile doc_server 0 ''f'' 5 ''g'' ''w'' ''u'' db = (Ok 1, db') \<and>
     fs_rep db' (apply_request (CreateFile 0 ''f'' 5 ''g'' ''w'' ''u'') fs_init)"
proof -
  have "request_ok (CreateFile 0 ''f'' 5 ''g'' ''w'' ''u'') fs_init"
    by (simp add: fs_init_def MAX_FILENAME_SIZE_def)
  from createFile_refines [where srv = doc_server and view = "\<lambda>db. db", OF redis_server_doc_server fs_rep_init fs_ok_init this]
  show ?thesis using fs_rep_init by (auto simp: fs_init_def)
qed



text \<open>
  Histories of folder and file creations, deletions and renamings keep the folders a tree: a parent
  is older than its children, the list of a folder holds children of it only, and a file is in the
  list of one folder at most.
\<close>

theorem history_tree:
  assumes "requests_ok rs fs_init" and "list_all tree_request rs"
  shows "fs_tree (apply_requests rs fs_init)"
  by (rule fs_tree_apply_requests [OF fs_ok_init fs_tree_init assms])

theorem history_tree_witness: "fs_tree (apply_requests demo fs_init)"
  by (rule history_tree [OF demo_ok]) (simp add: demo_def)

section \<open>Queries\<close>

text \<open>
  Round trip: after \<^verbatim>\<open>vfs_createFile\<close> the getters return the name, the size and the URL the file was
  created with, when they fit the caller's buffers.
\<close>

theorem createFile_getters:
  assumes srv: "redis_server srv view" and rep: "fs_rep (view s) a" and ok: "fs_ok a"
    and r: "request_ok (CreateFile p name sz g w u) a"
    and caps: "length (c_str name) < cap" "length (c_str u) < cap2"
  shows "\<exists>s' t1 t2 t3. vfs_createFile srv p name sz g w u s = (Ok (fs_next a), s') \<and>
     vfs_getFileName srv (fs_next a) cap s' = (Ok (c_str name), t1) \<and>
     vfs_getFileSizeFromId srv (fs_next a) s' = (Ok sz, t2) \<and>
     vfs_getFileWebUrl srv (fs_next a) cap2 s' = (Ok (c_str u), t3)"
proof -
  note red = redis.intro [OF srv]
  let ?e = "\<lparr>file_name = c_str name, file_size = sz, file_googleId = c_str g, file_webUrl = c_str w,
      file_apiUrl = c_str u\<rparr>"
  let ?b = "add_file p ?e a"
  have b: "fs_file ?b (fs_next a) = Some ?e" by (simp add: add_file_def)
  then have bd: "fs_next a \<in> dom (fs_file ?b)" by (rule domI)
  have okb: "fs_ok ?b" using fs_ok_apply [OF ok r] by simp
  have "wp (vfs_createFile srv p name sz g w u) (\<lambda>r s'. r = fs_next a \<and> fs_rep (view s') ?b) s"
    using r by (intro redis.wp_createFile [OF red rep ok]) auto
  from wp_run_eq [OF this] obtain s' where
    s': "vfs_createFile srv p name sz g w u s = (Ok (fs_next a), s')" "fs_rep (view s') ?b" by blast
  have 1: "wp (vfs_getFileName srv (fs_next a) cap) (\<lambda>x t. x = c_str name \<and> True) s'"
    by (rule redis.wp_file_name [OF red s'(2) okb bd]) (use b caps in \<open>simp_all add: fname_def\<close>)
  have 2: "wp (vfs_getFileSizeFromId srv (fs_next a)) (\<lambda>x t. x = sz \<and> True) s'"
    by (rule redis.wp_file_size [OF red s'(2) okb bd]) (use b in \<open>simp_all add: fsize_def\<close>)
  have 3: "wp (vfs_getFileWebUrl srv (fs_next a) cap2) (\<lambda>x t. x = c_str u \<and> True) s'"
    by (rule redis.wp_file_url [OF red s'(2) b]) (use caps in simp_all)
  from wp_run_eq [OF 1] wp_run_eq [OF 2] wp_run_eq [OF 3] s'(1) show ?thesis by blast
qed

theorem createFile_getters_witness:
  "\<exists>db db' t1 t2 t3. vfs_createFile doc_server 0 ''f'' 5 ''g'' ''w'' ''u'' db = (Ok 1, db') \<and>
     vfs_getFileName doc_server 1 10 db' = (Ok ''f'', t1) \<and>
     vfs_getFileSizeFromId doc_server 1 db' = (Ok 5, t2) \<and>
     vfs_getFileWebUrl doc_server 1 10 db' = (Ok ''u'', t3)"
proof -
  have "request_ok (CreateFile 0 ''f'' 5 ''g'' ''w'' ''u'') fs_init"
    by (simp add: fs_init_def MAX_FILENAME_SIZE_def)
  from createFile_getters [where srv = doc_server and view = "\<lambda>db. db", OF redis_server_doc_server fs_rep_init fs_ok_init this, of 10 10]
  show ?thesis by (auto simp: fs_init_def)
qed

text \<open>C28.
  \<^verbatim>\<open>vfs_ls\<close> prints the names of the folders of a folder, then those of its files, each in the order
  of the lists, and changes nothing.
\<close>

theorem ls_refines:
  assumes "redis_server srv view" and "fs_rep (view s) a" and "fs_ok a"
  shows "\<exists>s'. vfs_ls srv d s = (Ok (ls_lines a d), s') \<and> fs_rep (view s') a"
  by (rule wp_run_eq, rule redis.wp_ls [OF redis.intro [OF assms(1)] assms(2,3)]) simp

theorem ls_refines_witness:
  "\<exists>db db'. fs_rep db demo_fs \<and>
     vfs_ls doc_server 1 db = (Ok [''ls: b.txt'' @ [LF], ''ls: a.txt'' @ [LF]], db') \<and> fs_rep db' demo_fs"
proof -
  obtain db where db: "fs_rep db demo_fs" using demo_rep by blast
  have "ls_lines demo_fs 1 = [''ls: b.txt'' @ [LF], ''ls: a.txt'' @ [LF]]"
    by (simp add: ls_lines_def dname_def fname_def demo_fs_eq)
  then show ?thesis
    using db ls_refines [of doc_server "\<lambda>db. db" db demo_fs 1, OF redis_server_doc_server db demo_fs_ok]
    by auto
qed

text \<open>C29.
  \<^verbatim>\<open>vfs_listUnixStyle\<close> returns one line for every folder and every file of a folder when these lines
  and the terminator fit the 20000 bytes of its buffer.
\<close>

theorem listUnixStyle_refines:
  assumes "redis_server srv view" and "fs_rep (view s) a" and "fs_ok a"
    and "length (unix_text a d) < LINE_SIZE"
  shows "\<exists>s'. vfs_listUnixStyle srv d s = (Ok (unix_text a d), s') \<and> fs_rep (view s') a"
  by (rule wp_run_eq, rule redis.wp_listUnixStyle [OF redis.intro [OF assms(1)] assms(2,3,4)]) simp

theorem listUnixStyle_refines_witness:
  "\<exists>db db'. fs_rep db demo_fs \<and>
     vfs_listUnixStyle doc_server 1 db =
       (Ok (''-rwxrwxr-x   1 linux linux          7 Jan  1  1980 b.txt'' @ crlf @
            ''-rwxrwxr-x   1 linux linux         42 Jan  1  1980 a.txt'' @ crlf), db')"
proof -
  obtain db where db: "fs_rep db demo_fs" using demo_rep by blast
  have sizes: "show_ulong 7 = ''7''" "show_ulong 42 = ''42''"
    by (simp_all add: show_ulong_def dec.simps [of 7] dec.simps [of 42] dec.simps [of 4])
  have listing: "unix_text demo_fs 1 =
      ''-rwxrwxr-x   1 linux linux          7 Jan  1  1980 b.txt'' @ crlf @
      ''-rwxrwxr-x   1 linux linux         42 Jan  1  1980 a.txt'' @ crlf"
    by (simp add: unix_text_def unix_dir_text_def unix_file_text_def dname_def fname_def fsize_def
        demo_fs_eq unix_line_def pad_left_def sizes eval_nat_numeral)
  then have "length (unix_text demo_fs 1) = 116" by (simp only: length_append) (simp add: crlf_def eval_nat_numeral)
  then have "length (unix_text demo_fs 1) < LINE_SIZE" by (simp add: LINE_SIZE_def)
  from listUnixStyle_refines [of doc_server "\<lambda>db. db" db demo_fs 1, OF redis_server_doc_server db demo_fs_ok this]
  show ?thesis unfolding listing using db by auto
qed

text \<open>
  \<^verbatim>\<open>vfs_findFileNameInDir\<close> returns the id of the oldest entry of the folder's file list whose name is
  exactly the given one, and -1 when there is none. The name is followed by a slash or by the end of
  the string, and no file name of the folder has a slash in it.
\<close>

theorem findFileNameInDir_refines:
  assumes "redis_server srv view" and "fs_rep (view s) a" and "fs_ok a" and "name_at p n"
    and "\<forall>f \<in> set (fs_files a d). CHR ''/'' \<notin> set (fname a f)"
  shows "\<exists>s'. vfs_findFileNameInDir srv d p n s = (Ok (or_minus1 (find_file a d (take n p))), s') \<and>
     fs_rep (view s') a"
  by (rule wp_run_eq, rule redis.wp_findFile [OF redis.intro [OF assms(1)] assms(2,3,4)])
     (use assms(5) in auto)

theorem findFileNameInDir_refines_witness:
  "\<exists>db db'. fs_rep db demo_fs \<and> vfs_findFileNameInDir doc_server 1 ''a.txt/x'' 5 db = (Ok 2, db')"
proof -
  obtain db where db: "fs_rep db demo_fs" using demo_rep by blast
  have p: "name_at ''a.txt/x'' 5" by (simp add: name_at_def)
  have "\<forall>f \<in> set (fs_files demo_fs 1). CHR ''/'' \<notin> set (fname demo_fs f)"
    by (simp add: demo_fs_eq fname_def)
  from findFileNameInDir_refines [of doc_server "\<lambda>db. db" db demo_fs, OF redis_server_doc_server db demo_fs_ok p this]
  show ?thesis using db by (auto simp: find_file_def or_minus1_def fname_def demo_fs_eq)
qed

text \<open>
  \<^verbatim>\<open>vfs_findDirNameInDir\<close> answers \<^verbatim>\<open>.\<close> and \<^verbatim>\<open>..\<close> itself; for another name it returns the first
  entry of the folder list whose name merely starts with the given one, and -1 when there is none.
\<close>

theorem findDirNameInDir_refines:
  assumes "redis_server srv view" and "fs_rep (view s) a" and "fs_ok a" and "name_at p n"
    and "d \<in> dom (fs_dir a)"
  shows "\<exists>s'. vfs_findDirNameInDir srv d p n s = (Ok (or_minus1 (find_dir a d (take n p))), s') \<and>
     fs_rep (view s') a"
  by (rule wp_run_eq, rule redis.wp_findDir [OF redis.intro [OF assms(1)] assms(2,3,4,5)]) simp

text \<open>The witness asks for \<^verbatim>\<open>do\<close> and gets the folder \<^verbatim>\<open>docs\<close>.\<close>

theorem findDirNameInDir_refines_witness:
  "\<exists>db db'. fs_rep db demo_fs \<and> vfs_findDirNameInDir doc_server 0 ''do'' 2 db = (Ok 1, db')"
proof -
  obtain db where db: "fs_rep db demo_fs" using demo_rep by blast
  have p: "name_at ''do'' 2" by (simp add: name_at_def)
  have "0 \<in> dom (fs_dir demo_fs)" by (simp add: demo_fs_eq)
  from findDirNameInDir_refines [of doc_server "\<lambda>db. db" db demo_fs, OF redis_server_doc_server db demo_fs_ok p this]
  show ?thesis using db by (auto simp: find_dir_def or_minus1_def dname_def demo_fs_eq)
qed

section \<open>Paths\<close>

text \<open>C30.
  On a tree the loop of \<^verbatim>\<open>vfs_getDirPathFromId\<close> ends, with a path or a fault, whatever id it is
  given and however small the buffer.
\<close>

theorem getDirPathFromId_terminates:
  assumes "redis_server srv view" and "fs_rep (view s) a" and "fs_ok a" and "fs_tree a"
  shows "\<exists>r. vfs_getDirPathFromId srv d cap s = Some r"
  using redis.path_loop_terminates [OF redis.intro [OF assms(1)] assms(2-4)]
  by (simp add: vfs_getDirPathFromId_def)

theorem getDirPathFromId_terminates_witness:
  "\<exists>db r. fs_rep db demo_fs \<and> vfs_getDirPathFromId doc_server 1 1000 db = Some r"
  using demo_rep getDirPathFromId_terminates [where srv = doc_server and view = "\<lambda>db. db" and a = demo_fs,
      OF redis_server_doc_server _ demo_fs_ok demo_fs_tree] by blast

text \<open>C31.
  The path \<^verbatim>\<open>vfs_getDirPathFromId\<close> returns for a folder whose parent has an id below 10 consists of
  the folder's own name: for the folders of the root that is their path, for deeper ones it is not,
  because the first digit of the parent's id is skipped.
\<close>

theorem getDirPathFromId_digit:
  assumes srv: "redis_server srv view" and rep: "fs_rep (view s) a" and ok: "fs_ok a"
    and d: "d \<in> dom (fs_dir a)" "d \<noteq> 0" and digit: "unat (dparent a d) < 10"
    and cap: "length (dname a d) + 3 \<le> cap"
  shows "\<exists>s'. vfs_getDirPathFromId srv d cap s = Some (Ok (''/'' @ dname a d @ ''/''), s')"
proof -
  have "wp (path_step srv cap d []) (\<lambda>x s'. x = (0, ''/'' @ dname a d) \<and> True) s"
    by (rule redis.wp_path_step_digit [OF redis.intro [OF srv] rep ok d(1) digit]) (use cap in simp_all)
  from wp_run_eq [OF this] obtain s' where
    "path_step srv cap d [] s = (Ok (0, ''/'' @ dname a d), s')" by blast
  moreover have "path_loop srv cap 0 (''/'' @ dname a d) s' = Some (Ok (''/'' @ dname a d @ ''/''), s')"
    using cap by (subst path_loop.simps) simp
  ultimately have "path_loop srv cap d [] s = Some (Ok (''/'' @ dname a d @ ''/''), s')"
    using d(2) by (subst path_loop.simps) simp
  then show ?thesis using cap by (simp add: vfs_getDirPathFromId_def)
qed

text \<open>The witness has the folder \<^verbatim>\<open>/a/b\<close> and gets the path \<^verbatim>\<open>/b/\<close>.\<close>

theorem getDirPathFromId_digit_witness:
  "\<exists>db db'. fs_rep db (apply_requests [Mkdir 0 ''a'', Mkdir 1 ''b''] fs_init) \<and>
     vfs_getDirPathFromId doc_server 2 100 db = Some (Ok ''/b/'', db')"
proof -
  let ?rs = "[Mkdir 0 ''a'', Mkdir 1 ''b'']"
  have ok: "requests_ok ?rs fs_init"
    by (simp add: fs_init_def add_dir_def MAX_FILENAME_SIZE_def)
  obtain db where db: "fs_rep db (apply_requests ?rs fs_init)"
    using wp_run_unit [OF doc.wp_requests [OF fs_rep_init fs_ok_init ok]] by blast
  show ?thesis
    using db getDirPathFromId_digit [of doc_server "\<lambda>db. db" db, OF redis_server_doc_server db
        fs_ok_apply_requests [OF fs_ok_init ok], of 2 100]
    by (auto simp: fs_init_def add_dir_def dname_def dparent_def)
qed

text \<open>
  \<^verbatim>\<open>vfs_getDirIdFromPath\<close> follows the parts of the path up to its last slash, from the root when the
  path starts with a slash: the loop over characters computes \<open>resolve\<close> of the list of parts.
\<close>

theorem getDirIdFromPath_refines:
  assumes "redis_server srv view" and "fs_rep (view s) a" and "fs_ok a" and "slash_free a"
    and "no_nul path" and "n \<le> length path" "0 < n" and "cwd \<in> dom (fs_dir a)"
  shows "\<exists>s'. vfs_getDirIdFromPath srv cwd path n s =
       (Ok (or_minus1 (dir_of_path a (take n path) cwd)), s') \<and> fs_rep (view s') a"
  by (rule wp_run_eq, rule redis.wp_getDirIdFromPath [OF redis.intro [OF assms(1)] assms(2-8)]) simp

theorem getDirIdFromPath_refines_witness:
  "\<exists>db db'. fs_rep db demo_fs \<and> vfs_getDirIdFromPath doc_server 0 ''/docs/../docs/a.txt'' 19 db = (Ok 1, db')"
proof -
  obtain db where db: "fs_rep db demo_fs" using demo_rep by blast
  have r: "resolve demo_fs 0 [''docs'', ''..'', ''docs''] = Some 1"
    by (simp add: lookup_obj_def find_file_def find_dir_def dname_def dparent_def fname_def demo_fs_eq)
  have dom: "0 \<in> dom (fs_dir demo_fs)" by (simp add: demo_fs_eq)
  have "dir_of_path demo_fs ''/docs/../docs/a.txt'' 0 = Some 1"
    using r by (simp add: dir_of_path_def)
  then show ?thesis
    using db getDirIdFromPath_refines [of doc_server "\<lambda>db. db" db demo_fs "''/docs/../docs/a.txt''" 19 0,
        OF redis_server_doc_server db demo_fs_ok demo_slash_free _ _ _ dom]
    by (auto simp: or_minus1_def)
qed



text \<open>C32.
  \<^verbatim>\<open>vfs_deleteObjectWithPath\<close> of a path other than the root takes the object out of the list of its
  parent and returns 0, returns -1 when the last part does not exist, and returns 0 without removing
  anything when a part before it is not a folder.
\<close>

theorem deleteObjectWithPath_refines:
  assumes "redis_server srv view" and "fs_rep (view s) a" and "fs_ok a" and "slash_free a"
    and "no_nul path" and "path \<noteq> []" and "path \<noteq> ''/''" and "cwd \<in> dom (fs_dir a)"
  shows "\<exists>s'. vfs_deleteObjectWithPath srv uninit path cwd s = (Ok (fst (delete_spec a path cwd)), s') \<and>
     fs_rep (view s') (snd (delete_spec a path cwd))"
  by (rule wp_run_eq, rule redis.wp_deleteObject [OF redis.intro [OF assms(1)] assms(2-8)]) simp

text \<open>The witness deletes below a folder that does not exist and is told that it succeeded.\<close>

theorem deleteObjectWithPath_refines_witness:
  "\<exists>db db'. fs_rep db demo_fs \<and>
     vfs_deleteObjectWithPath doc_server blank_state ''no/a.txt'' 0 db = (Ok 0, db') \<and> fs_rep db' demo_fs"
proof -
  obtain db where db: "fs_rep db demo_fs" using demo_rep by blast
  have 1: "resolve demo_fs 0 [''no''] = None"
    by (simp add: lookup_obj_def find_file_def find_dir_def dname_def dparent_def fname_def demo_fs_eq)
  have dom: "0 \<in> dom (fs_dir demo_fs)" by (simp add: demo_fs_eq)
  from deleteObjectWithPath_refines [of doc_server "\<lambda>db. db" db demo_fs "''no/a.txt''" 0 blank_state,
        OF redis_server_doc_server db demo_fs_ok demo_slash_free _ _ _ dom]
  show ?thesis using db 1
    by (auto simp: delete_spec_def Let_def strip_slash_def dir_of_path_def)
qed

end
