(* ===== verification/Reader.thy ===== *)
theory Reader
  imports Server
begin

text \<open>
  The reply parser \<^verbatim>\<open>hiredis/read.c\<close> and the reply objects \<^verbatim>\<open>hiredis.c\<close> builds with it. A reader
  keeps the bytes not yet consumed and a stack of nine tasks, one per level of nesting; the functions
  that build objects are a record of optional functions \<open>fn\<close> over a heap \<open>'h\<close>, with NULL entries
  \<open>None\<close>. A pointer is a number or \<open>None\<close>; the task \<^verbatim>\<open>parent\<close> pointer is an index into the stack.
  Asserts and null dereferences are faults.
\<close>

type_synonym ptr = "nat option"

definition REDIS_ERR_PROTOCOL :: nat where "REDIS_ERR_PROTOCOL = 4"
definition REDIS_ERR_OOM :: nat where "REDIS_ERR_OOM = 5"

definition REDIS_REPLY_STRING :: int where "REDIS_REPLY_STRING = 1"
definition REDIS_REPLY_ARRAY :: int where "REDIS_REPLY_ARRAY = 2"
definition REDIS_REPLY_INTEGER :: int where "REDIS_REPLY_INTEGER = 3"
definition REDIS_REPLY_NIL :: int where "REDIS_REPLY_NIL = 4"
definition REDIS_REPLY_STATUS :: int where "REDIS_REPLY_STATUS = 5"
definition REDIS_REPLY_ERROR :: int where "REDIS_REPLY_ERROR = 6"

lemmas reply_types = REDIS_REPLY_STRING_def REDIS_REPLY_ARRAY_def REDIS_REPLY_INTEGER_def
  REDIS_REPLY_NIL_def REDIS_REPLY_STATUS_def REDIS_REPLY_ERROR_def

definition REDIS_READER_MAX_BUF :: nat where "REDIS_READER_MAX_BUF = 1024 * 16"

section \<open>State\<close>

record redisReadTask =
  t_type :: int
  t_elements :: int
  t_idx :: int
  t_obj :: ptr
  t_parent :: ptr
  t_privdata :: ptr

record redisReader =
  r_err :: nat
  r_errstr :: string
  r_buf :: "sdshdr option"
  r_pos :: nat
  r_len :: nat
  r_maxbuf :: nat
  r_rstack :: "redisReadTask list"
  r_ridx :: int
  r_reply :: ptr
  r_privdata :: ptr

text \<open>
  The object functions see the task and, through its \<^verbatim>\<open>parent\<close> pointer, the parent task; a string
  comes as its bytes.
\<close>

record 'h redisReplyObjectFunctions =
  createString :: "(redisReadTask \<Rightarrow> redisReadTask option \<Rightarrow> string \<Rightarrow> 'h \<Rightarrow> (ptr \<times> 'h) outcome) option"
  createArray :: "(redisReadTask \<Rightarrow> redisReadTask option \<Rightarrow> int \<Rightarrow> 'h \<Rightarrow> (ptr \<times> 'h) outcome) option"
  createInteger :: "(redisReadTask \<Rightarrow> redisReadTask option \<Rightarrow> clong \<Rightarrow> 'h \<Rightarrow> (ptr \<times> 'h) outcome) option"
  createNil :: "(redisReadTask \<Rightarrow> redisReadTask option \<Rightarrow> 'h \<Rightarrow> (ptr \<times> 'h) outcome) option"
  freeObject :: "(ptr \<Rightarrow> 'h \<Rightarrow> 'h outcome) option"

type_synonym 'h fns = "'h redisReplyObjectFunctions option"

definition cur_task :: "redisReader \<Rightarrow> redisReadTask" where
  "cur_task r = r_rstack r ! nat (r_ridx r)"

definition set_task :: "nat \<Rightarrow> redisReadTask \<Rightarrow> redisReader \<Rightarrow> redisReader" where
  "set_task k t r = r\<lparr>r_rstack := (r_rstack r)[k := t]\<rparr>"

definition parent_task :: "redisReader \<Rightarrow> redisReadTask \<Rightarrow> redisReadTask option" where
  "parent_task r t = map_option (\<lambda>k. r_rstack r ! k) (t_parent t)"

section \<open>Errors\<close>

definition redisReaderSetError ::
    "'h fns \<Rightarrow> redisReader \<Rightarrow> 'h \<Rightarrow> nat \<Rightarrow> string \<Rightarrow> (redisReader \<times> 'h) outcome" where
  "redisReaderSetError fn r h type str =
     obind (case (r_reply r, Option.bind fn freeObject) of
              (Some p, Some f) \<Rightarrow> obind (f (Some p) h) (\<lambda>h'. Ok (r\<lparr>r_reply := None\<rparr>, h'))
            | _ \<Rightarrow> Ok (r, h)) (\<lambda>(r1, h1).
     let r2 = (case r_buf r1 of None \<Rightarrow> r1 | Some _ \<Rightarrow> r1\<lparr>r_buf := None, r_pos := 0, r_len := 0\<rparr>);
         len = (if length str < 127 then length str else 127)
     in Ok (r2\<lparr>r_ridx := -1, r_err := type, r_errstr := take len str\<rparr>, h1))"

text \<open>\<^verbatim>\<open>chrtos\<close>: the printed form of a byte.\<close>

definition hex2 :: "nat \<Rightarrow> string" where
  "hex2 n = [hex_char 97 (n div 16), hex_char 97 (n mod 16)]"

definition chrtos :: "char \<Rightarrow> string" where
  "chrtos b =
     (if b = CHR 0x5C \<or> b = CHR 0x22 then [CHR 0x22, CHR 0x5C, b, CHR 0x22]
      else if b = LF then [CHR 0x22, CHR 0x5C, CHR ''n'', CHR 0x22]
      else if b = CR then [CHR 0x22, CHR 0x5C, CHR ''r'', CHR 0x22]
      else if b = CHR 0x09 then [CHR 0x22, CHR 0x5C, CHR ''t'', CHR 0x22]
      else if b = CHR 0x07 then [CHR 0x22, CHR 0x5C, CHR ''a'', CHR 0x22]
      else if b = CHR 0x08 then [CHR 0x22, CHR 0x5C, CHR ''b'', CHR 0x22]
      else if isprint b then [CHR 0x22, b, CHR 0x22]
      else [CHR 0x22, CHR 0x5C, CHR ''x''] @ hex2 (byte b) @ [CHR 0x22])"

definition redisReaderSetErrorProtocolByte ::
    "'h fns \<Rightarrow> redisReader \<Rightarrow> 'h \<Rightarrow> char \<Rightarrow> (redisReader \<times> 'h) outcome" where
  "redisReaderSetErrorProtocolByte fn r h b =
     redisReaderSetError fn r h REDIS_ERR_PROTOCOL
       (take 127 (''Protocol error, got '' @ take 7 (chrtos b) @ '' as reply type byte''))"

definition redisReaderSetErrorOOM :: "'h fns \<Rightarrow> redisReader \<Rightarrow> 'h \<Rightarrow> (redisReader \<times> 'h) outcome" where
  "redisReaderSetErrorOOM fn r h = redisReaderSetError fn r h REDIS_ERR_OOM ''Out of memory''"

section \<open>Reading from the buffer\<close>

text \<open>\<^verbatim>\<open>r->buf + r->pos\<close>\<close>

definition read_ptr :: "redisReader \<Rightarrow> string outcome" where
  "read_ptr r = (case r_buf r of None \<Rightarrow> Fault NullDeref | Some s \<Rightarrow> Ok (drop (r_pos r) (sds_buf s)))"

definition readBytes :: "redisReader \<Rightarrow> nat \<Rightarrow> (string \<times> redisReader) option outcome" where
  "readBytes r n =
     (if r_len r - r_pos r \<ge> n
      then obind (read_ptr r) (\<lambda>p. Ok (Some (p, r\<lparr>r_pos := r_pos r + n\<rparr>)))
      else Ok None)"

text \<open>
  \<^verbatim>\<open>seekNewline\<close>: the inner loop runs to the next carriage return or to the last position, where
  the byte after it is looked at as well.
\<close>

function skip_to_cr :: "string \<Rightarrow> nat \<Rightarrow> nat \<Rightarrow> nat" where
  "skip_to_cr s n pos = (if pos < n \<and> s ! pos \<noteq> CR then skip_to_cr s n (pos + 1) else pos)"
  by pat_completeness auto
termination
  by (relation "measure (\<lambda>(s, n, pos). n - pos)") auto

declare skip_to_cr.simps [simp del]

lemma skip_to_cr_ge: "pos \<le> skip_to_cr s n pos"
proof (induction s n pos rule: skip_to_cr.induct)
  case (1 s n pos)
  then show ?case by (subst skip_to_cr.simps) auto
qed

function seek_from :: "string \<Rightarrow> nat \<Rightarrow> nat \<Rightarrow> nat option" where
  "seek_from s n pos =
     (if pos < n then
        let pos' = skip_to_cr s n pos
        in if s ! pos' \<noteq> CR then None
           else if s ! (pos' + 1) = LF then Some pos'
           else seek_from s n (pos' + 1)
      else None)"
  by pat_completeness auto
termination
  by (relation "measure (\<lambda>(s, n, pos). n - pos)")
     (auto simp: less_Suc_eq_le intro!: diff_less_mono2 skip_to_cr_ge)

declare seek_from.simps [simp del]

definition seekNewline :: "string \<Rightarrow> nat \<Rightarrow> nat option" where
  "seekNewline s len = seek_from s (len - 1) 0"

text \<open>\<^verbatim>\<open>readLongLong\<close>, with the 64-bit wrap-around of its arithmetic.\<close>

fun read_digits :: "string \<Rightarrow> clong \<Rightarrow> clong option outcome" where
  "read_digits [] v = Fault OutOfBounds"
| "read_digits (c # s) v =
     (if c = CR then Ok (Some v)
      else if isdigit c then read_digits s (v * 10 + of_nat (byte c - 48))
      else Ok None)"

definition readLongLong :: "string \<Rightarrow> clong outcome" where
  "readLongLong s =
     (case s of
        [] \<Rightarrow> Fault OutOfBounds
      | c # s' \<Rightarrow>
          let mult = (if c = CHR ''-'' then -1 else 1);
              t = (if c = CHR ''-'' \<or> c = CHR ''+'' then s' else s)
          in obind (read_digits t 0) (\<lambda>v. case v of None \<Rightarrow> Ok (-1) | Some v \<Rightarrow> Ok (mult * v)))"

definition readLine :: "redisReader \<Rightarrow> (string \<times> nat \<times> redisReader) option outcome" where
  "readLine r =
     obind (read_ptr r) (\<lambda>p.
       case seekNewline p (r_len r - r_pos r) of
         None \<Rightarrow> Ok None
       | Some len \<Rightarrow> Ok (Some (p, len, r\<lparr>r_pos := r_pos r + (len + 2)\<rparr>)))"

section \<open>Processing items\<close>

function moveToNextTask :: "redisReader \<Rightarrow> redisReader outcome" where
  "moveToNextTask r =
     (if r_ridx r < 0 then Ok r
      else if r_ridx r = 0 then Ok (r\<lparr>r_ridx := -1\<rparr>)
      else
        let k = nat (r_ridx r); cur = r_rstack r ! k; prv = r_rstack r ! (k - 1)
        in if t_type prv \<noteq> REDIS_REPLY_ARRAY then Fault AssertFailure
           else if t_idx cur = t_elements prv - 1 then moveToNextTask (r\<lparr>r_ridx := r_ridx r - 1\<rparr>)
           else if \<not> t_idx cur < t_elements prv then Fault AssertFailure
           else Ok (set_task k (cur\<lparr>t_type := -1, t_elements := -1, t_idx := t_idx cur + 1\<rparr>) r))"
  by pat_completeness auto
termination
  by (relation "measure (\<lambda>r. nat (r_ridx r))") auto

declare moveToNextTask.simps [simp del]

text \<open>What follows the creation of an object that is complete.\<close>

definition item_done ::
    "'h fns \<Rightarrow> redisReader \<Rightarrow> ptr \<Rightarrow> 'h \<Rightarrow> (bool \<times> redisReader \<times> 'h) outcome" where
  "item_done fn r obj h =
     (if obj = None then obind (redisReaderSetErrorOOM fn r h) (\<lambda>(r', h'). Ok (False, r', h'))
      else
        let r1 = (if r_ridx r = 0 then r\<lparr>r_reply := obj\<rparr> else r)
        in obind (moveToNextTask r1) (\<lambda>r2. Ok (True, r2, h)))"

definition processLineItem :: "'h fns \<Rightarrow> redisReader \<Rightarrow> 'h \<Rightarrow> (bool \<times> redisReader \<times> 'h) outcome" where
  "processLineItem fn r h =
     (let cur = cur_task r; par = parent_task r cur
      in obind (readLine r) (\<lambda>line.
           case line of
             None \<Rightarrow> Ok (False, r, h)
           | Some (p, len, r1) \<Rightarrow>
               obind
                 (if t_type cur = REDIS_REPLY_INTEGER then
                    (case Option.bind fn createInteger of
                       Some f \<Rightarrow> obind (readLongLong p) (\<lambda>v. f cur par v h)
                     | None \<Rightarrow> Ok (Some (nat REDIS_REPLY_INTEGER), h))
                  else
                    (case Option.bind fn createString of
                       Some f \<Rightarrow> f cur par (take len p) h
                     | None \<Rightarrow> Ok (Some (nat (t_type cur)), h)))
                 (\<lambda>(obj, h1). item_done fn r1 obj h1)))"

definition create_nil :: "'h fns \<Rightarrow> redisReader \<Rightarrow> 'h \<Rightarrow> (ptr \<times> 'h) outcome" where
  "create_nil fn r h =
     (case Option.bind fn createNil of
        Some f \<Rightarrow> f (cur_task r) (parent_task r (cur_task r)) h
      | None \<Rightarrow> Ok (Some (nat REDIS_REPLY_NIL), h))"

definition processBulkItem :: "'h fns \<Rightarrow> redisReader \<Rightarrow> 'h \<Rightarrow> (bool \<times> redisReader \<times> 'h) outcome" where
  "processBulkItem fn r h =
     (let cur = cur_task r; par = parent_task r cur
      in obind (read_ptr r) (\<lambda>p.
           case seekNewline p (r_len r - r_pos r) of
             None \<Rightarrow> Ok (False, r, h)
           | Some s \<Rightarrow>
               obind (readLongLong p) (\<lambda>len.
                 if sint len < 0 then
                   obind (create_nil fn r h) (\<lambda>(obj, h1).
                     if obj = None then item_done fn r obj h1
                     else item_done fn (r\<lparr>r_pos := r_pos r + (s + 2)\<rparr>) obj h1)
                 else
                   let bytelen = s + 2 + (nat (sint len) + 2)
                   in if r_pos r + bytelen \<le> r_len r then
                        obind
                          (case Option.bind fn createString of
                             Some f \<Rightarrow> f cur par (take (nat (sint len)) (drop (s + 2) p)) h
                           | None \<Rightarrow> Ok (Some (nat REDIS_REPLY_STRING), h))
                          (\<lambda>(obj, h1).
                             if obj = None then item_done fn r obj h1
                             else item_done fn (r\<lparr>r_pos := r_pos r + bytelen\<rparr>) obj h1)
                      else Ok (False, r, h))))"

text \<open>\<^verbatim>\<open>(int) elements\<close>\<close>

definition to_int :: "clong \<Rightarrow> int" where
  "to_int v = sint (ucast v :: cint)"

text \<open>Entering an array: the task below the current one starts with its first element.\<close>

definition push_task :: "redisReader \<Rightarrow> int \<Rightarrow> ptr \<Rightarrow> redisReader" where
  "push_task r elements obj =
     (let k = nat (r_ridx r); cur = (r_rstack r ! k)\<lparr>t_elements := elements, t_obj := obj\<rparr>
      in set_task (k + 1)
           ((r_rstack r ! (k + 1))\<lparr>t_type := -1, t_elements := -1, t_idx := 0, t_obj := None,
              t_parent := Some k, t_privdata := r_privdata r\<rparr>)
           (set_task k cur (r\<lparr>r_ridx := r_ridx r + 1\<rparr>)))"

text \<open>What follows the creation of an array, or of the nil that stands for one.\<close>

definition multi_done ::
    "'h fns \<Rightarrow> redisReader \<Rightarrow> clong \<Rightarrow> ptr \<Rightarrow> 'h \<Rightarrow> (bool \<times> redisReader \<times> 'h) outcome" where
  "multi_done fn r elements obj h =
     (if obj = None then obind (redisReaderSetErrorOOM fn r h) (\<lambda>(r', h'). Ok (False, r', h'))
      else
        obind (if elements \<noteq> -1 \<and> 0 < sint elements then Ok (push_task r (to_int elements) obj)
               else moveToNextTask r)
          (\<lambda>r2. Ok (True, if r_ridx r = 0 then r2\<lparr>r_reply := obj\<rparr> else r2, h)))"

definition processMultiBulkItem :: "'h fns \<Rightarrow> redisReader \<Rightarrow> 'h \<Rightarrow> (bool \<times> redisReader \<times> 'h) outcome" where
  "processMultiBulkItem fn r h =
     (if r_ridx r = 8 then
        obind (redisReaderSetError fn r h REDIS_ERR_PROTOCOL
                 ''No support for nested multi bulk replies with depth > 7'')
          (\<lambda>(r', h'). Ok (False, r', h'))
      else
        obind (readLine r) (\<lambda>line.
          case line of
            None \<Rightarrow> Ok (False, r, h)
          | Some (p, _, r1) \<Rightarrow>
              obind (readLongLong p) (\<lambda>elements.
              obind
                (if elements = -1 then create_nil fn r1 h
                 else
                   (case Option.bind fn createArray of
                      Some f \<Rightarrow> f (cur_task r1) (parent_task r1 (cur_task r1)) (to_int elements) h
                    | None \<Rightarrow> Ok (Some (nat REDIS_REPLY_ARRAY), h)))
                (\<lambda>(obj, h1). multi_done fn r1 elements obj h1))))"

definition type_of_byte :: "char \<Rightarrow> int option" where
  "type_of_byte c =
     (if c = CHR ''-'' then Some REDIS_REPLY_ERROR
      else if c = CHR ''+'' then Some REDIS_REPLY_STATUS
      else if c = CHR '':'' then Some REDIS_REPLY_INTEGER
      else if c = CHR ''$'' then Some REDIS_REPLY_STRING
      else if c = CHR ''*'' then Some REDIS_REPLY_ARRAY
      else None)"

text \<open>The \<^verbatim>\<open>switch\<close> on the type of the current task.\<close>

definition processTyped :: "'h fns \<Rightarrow> redisReader \<Rightarrow> 'h \<Rightarrow> (bool \<times> redisReader \<times> 'h) outcome" where
  "processTyped fn r h =
     (let ty = t_type (cur_task r)
      in if ty = REDIS_REPLY_ERROR \<or> ty = REDIS_REPLY_STATUS \<or> ty = REDIS_REPLY_INTEGER
         then processLineItem fn r h
         else if ty = REDIS_REPLY_STRING then processBulkItem fn r h
         else if ty = REDIS_REPLY_ARRAY then processMultiBulkItem fn r h
         else Fault AssertFailure)"

definition processItem :: "'h fns \<Rightarrow> redisReader \<Rightarrow> 'h \<Rightarrow> (bool \<times> redisReader \<times> 'h) outcome" where
  "processItem fn r h =
     (if t_type (cur_task r) < 0 then
        obind (readBytes r 1) (\<lambda>b.
          case b of
            None \<Rightarrow> Ok (False, r, h)
          | Some (p, r1) \<Rightarrow>
              (case type_of_byte (hd p) of
                 None \<Rightarrow> obind (redisReaderSetErrorProtocolByte fn r1 h (hd p)) (\<lambda>(r', h'). Ok (False, r', h'))
               | Some ty \<Rightarrow>
                   processTyped fn (set_task (nat (r_ridx r1)) ((cur_task r1)\<lparr>t_type := ty\<rparr>) r1) h))
      else processTyped fn r h)"

section \<open>The loop\<close>

text \<open>An item that is processed consumes input, so the loop over items ends.\<close>

lemma moveToNextTask_keeps:
  "moveToNextTask r = Ok r' \<Longrightarrow>
    r_pos r' = r_pos r \<and> r_len r' = r_len r \<and> r_buf r' = r_buf r \<and> r_err r' = r_err r"
proof (induction r rule: moveToNextTask.induct)
  case (1 r)
  then show ?case
    by (auto simp: moveToNextTask.simps [of r] Let_def set_task_def split: if_split_asm)
qed

lemma item_done_keeps:
  assumes "item_done fn r obj h = Ok (True, r', h')"
  shows "r_pos r' = r_pos r \<and> r_len r' = r_len r \<and> obj \<noteq> None"
  using assms moveToNextTask_keeps by (fastforce simp: item_done_def Let_def split: if_splits)

lemma multi_done_keeps:
  assumes "multi_done fn r elements obj h = Ok (True, r', h')"
  shows "r_pos r' = r_pos r \<and> r_len r' = r_len r"
  using assms
  by (auto simp: multi_done_def push_task_def set_task_def Let_def dest!: moveToNextTask_keeps split: if_split_asm)

lemma item_done_None [simp]: "item_done fn r None h \<noteq> Ok (True, r', h')"
  by (auto simp: item_done_def)

lemma set_task_keeps [simp]:
  "r_pos (set_task k t r) = r_pos r" "r_len (set_task k t r) = r_len r"
  "r_buf (set_task k t r) = r_buf r" "r_ridx (set_task k t r) = r_ridx r"
  "r_err (set_task k t r) = r_err r" "r_reply (set_task k t r) = r_reply r"
  "r_privdata (set_task k t r) = r_privdata r"
  by (simp_all add: set_task_def)

lemma seekNewline_pos: "seekNewline s len = Some p \<Longrightarrow> 1 < len"
  by (subst (asm) seekNewline_def, subst (asm) seek_from.simps) (auto split: if_splits)

lemma readLine_progress:
  "readLine r = Ok (Some (p, len, r1)) \<Longrightarrow> r_pos r < r_pos r1 \<and> r_len r1 = r_len r \<and> r_pos r < r_len r"
  by (clarsimp simp: readLine_def) (auto dest!: seekNewline_pos split: option.split_asm)

lemma processLineItem_progress:
  assumes "processLineItem fn r h = Ok (True, r', h')"
  shows "r_pos r < r_pos r' \<and> r_len r' = r_len r \<and> r_pos r < r_len r"
  using assms
  by (clarsimp simp: processLineItem_def Let_def)
     (auto split: option.split_asm prod.split_asm dest!: readLine_progress item_done_keeps)

lemma processBulkItem_progress:
  assumes "processBulkItem fn r h = Ok (True, r', h')"
  shows "r_pos r < r_pos r' \<and> r_len r' = r_len r \<and> r_pos r < r_len r"
  using assms
  by (clarsimp simp: processBulkItem_def Let_def)
     (auto dest!: item_done_keeps seekNewline_pos
      split: option.split_asm if_split_asm)

lemma push_task_keeps [simp]:
  "r_pos (push_task r n obj) = r_pos r" "r_len (push_task r n obj) = r_len r"
  "r_buf (push_task r n obj) = r_buf r" "r_ridx (push_task r n obj) = r_ridx r + 1"
  by (simp_all add: push_task_def set_task_def Let_def)

lemma processMultiBulkItem_progress:
  assumes "processMultiBulkItem fn r h = Ok (True, r', h')"
  shows "r_pos r < r_pos r' \<and> r_len r' = r_len r \<and> r_pos r < r_len r"
  using assms
  by (clarsimp simp: processMultiBulkItem_def split: if_split_asm)
     (auto split: option.split_asm dest!: readLine_progress multi_done_keeps)

lemma processTyped_progress:
  assumes "processTyped fn r h = Ok (True, r', h')"
  shows "r_pos r < r_pos r' \<and> r_len r' = r_len r \<and> r_pos r < r_len r"
  using assms
  by (auto simp: processTyped_def Let_def split: if_split_asm
      dest!: processLineItem_progress processBulkItem_progress processMultiBulkItem_progress)

lemma processItem_progress:
  assumes "processItem fn r h = Ok (True, r', h')"
  shows "r_pos r < r_pos r' \<and> r_len r' = r_len r \<and> r_pos r < r_len r"
  using assms
  by (clarsimp simp: processItem_def readBytes_def split: if_split_asm)
     (auto split: option.split_asm if_split_asm
      dest!: processTyped_progress)

function process_loop :: "'h fns \<Rightarrow> redisReader \<Rightarrow> 'h \<Rightarrow> (redisReader \<times> 'h) outcome" where
  "process_loop fn r h =
     (if r_ridx r < 0 then Ok (r, h)
      else
        (case processItem fn r h of
           Fault e \<Rightarrow> Fault e
         | Ok (ok, r', h') \<Rightarrow> if ok then process_loop fn r' h' else Ok (r', h')))"
  by pat_completeness auto
termination
  by (relation "measure (\<lambda>(fn, r, h). r_len r - r_pos r)")
     (auto dest!: processItem_progress)

declare process_loop.simps [simp del]

section \<open>The reader API\<close>

definition blank_task :: redisReadTask where
  "blank_task = \<lparr>t_type = 0, t_elements = 0, t_idx = 0, t_obj = None, t_parent = None, t_privdata = None\<rparr>"

definition redisReaderCreateWithFunctions :: "cmem \<Rightarrow> redisReader option" where
  "redisReaderCreateWithFunctions m =
     (case sdsempty m of
        None \<Rightarrow> None
      | Some buf \<Rightarrow>
          Some \<lparr>r_err = 0, r_errstr = [], r_buf = Some buf, r_pos = 0, r_len = 0,
                r_maxbuf = REDIS_READER_MAX_BUF, r_rstack = replicate 9 blank_task, r_ridx = -1,
                r_reply = None, r_privdata = None\<rparr>)"

definition redisReaderFree :: "'h fns \<Rightarrow> redisReader \<Rightarrow> 'h \<Rightarrow> 'h outcome" where
  "redisReaderFree fn r h =
     (case (r_reply r, Option.bind fn freeObject) of
        (Some p, Some f) \<Rightarrow> f (Some p) h
      | _ \<Rightarrow> Ok h)"

definition redisReaderFeed ::
    "cmem \<Rightarrow> 'h fns \<Rightarrow> redisReader \<Rightarrow> 'h \<Rightarrow> string option \<Rightarrow> nat \<Rightarrow> (bool \<times> redisReader \<times> 'h) outcome" where
  "redisReaderFeed m fn r h data n =
     (if r_err r \<noteq> 0 then Ok (False, r, h)
      else
        case data of
          None \<Rightarrow> Ok (True, r, h)
        | Some t \<Rightarrow>
            if n < 1 then Ok (True, r, h)
            else
              obind (case r_buf r of None \<Rightarrow> Fault NullDeref | Some s \<Rightarrow> Ok s) (\<lambda>s.
              obind
                (if r_len r = 0 \<and> r_maxbuf r \<noteq> 0 \<and> sdsavail s > r_maxbuf r
                 then (case sdsempty m of
                         None \<Rightarrow> Fault AssertFailure
                       | Some s' \<Rightarrow> Ok (s', r\<lparr>r_buf := Some s', r_pos := 0\<rparr>))
                 else Ok (s, r))
                (\<lambda>(s1, r1).
                   case sdscatlen m s1 t n of
                     None \<Rightarrow> obind (redisReaderSetErrorOOM fn r1 h) (\<lambda>(r', h'). Ok (False, r', h'))
                   | Some newbuf \<Rightarrow>
                       Ok (True, r1\<lparr>r_buf := Some newbuf, r_len := sdslen newbuf\<rparr>, h))))"

definition start_task :: "redisReader \<Rightarrow> redisReader" where
  "start_task r =
     (if r_ridx r = -1 then
        set_task 0 \<lparr>t_type = -1, t_elements = -1, t_idx = -1, t_obj = None, t_parent = None,
                    t_privdata = r_privdata r\<rparr> (r\<lparr>r_ridx := 0\<rparr>)
      else r)"

text \<open>The value of \<^verbatim>\<open>*reply\<close> and the new reader; the buffer is cut after 1024 consumed bytes.\<close>

definition cut_buffer :: "redisReader \<Rightarrow> redisReader" where
  "cut_buffer r =
     (if r_pos r \<ge> 1024 then
        (case r_buf r of
           None \<Rightarrow> r
         | Some s \<Rightarrow>
             let s' = sdsrange s (int (r_pos r)) (-1)
             in r\<lparr>r_buf := Some s', r_pos := 0, r_len := sdslen s'\<rparr>)
      else r)"

definition redisReaderGetReply ::
    "'h fns \<Rightarrow> redisReader \<Rightarrow> 'h \<Rightarrow> (bool \<times> ptr \<times> redisReader \<times> 'h) outcome" where
  "redisReaderGetReply fn r h =
     (if r_err r \<noteq> 0 then Ok (False, None, r, h)
      else if r_len r = 0 then Ok (True, None, r, h)
      else
        obind (process_loop fn (start_task r) h) (\<lambda>(r1, h1).
          if r_err r1 \<noteq> 0 then Ok (False, None, r1, h1)
          else
            let r2 = cut_buffer r1
            in if r_ridx r2 = -1 then Ok (True, r_reply r2, r2\<lparr>r_reply := None\<rparr>, h1)
               else Ok (True, None, r2, h1)))"

section \<open>Reply objects\<close>

text \<open>
  The heap of reply objects: allocated cells by address, the next address, and which of the
  allocations to come succeed. \<^verbatim>\<open>element\<close> is an array of pointers.
\<close>

record robj =
  ob_type :: int
  ob_integer :: clong
  ob_str :: "string option"
  ob_elements :: clong
  ob_element :: "ptr list option"

record rheap =
  cells :: "nat \<rightharpoonup> robj"
  fresh :: nat
  calls :: nat
  alloc_succeeds :: "nat \<Rightarrow> bool"

text \<open>One call of an allocator.\<close>

definition h_alloc :: "rheap \<Rightarrow> bool \<times> rheap" where
  "h_alloc h = (alloc_succeeds h (calls h), h\<lparr>calls := calls h + 1\<rparr>)"

definition createReplyObject :: "int \<Rightarrow> rheap \<Rightarrow> ptr \<times> rheap" where
  "createReplyObject type h =
     (let (ok, h1) = h_alloc h
      in if \<not> ok then (None, h1)
         else (Some (fresh h1),
               h1\<lparr>cells := (cells h1)(fresh h1 \<mapsto>
                    \<lparr>ob_type = type, ob_integer = 0, ob_str = None, ob_elements = 0, ob_element = None\<rparr>),
                  fresh := fresh h1 + 1\<rparr>))"

text \<open>
  \<^verbatim>\<open>freeReplyObject\<close>. The fuel bounds the nesting: an element is allocated after its array, so the
  number of addresses handed out is enough; \<open>OutOfBounds\<close> stands for running out of it, and freeing
  what is not allocated is a fault.
\<close>

fun free_obj :: "nat \<Rightarrow> ptr \<Rightarrow> rheap \<Rightarrow> rheap outcome"
and free_all :: "nat \<Rightarrow> ptr list \<Rightarrow> rheap \<Rightarrow> rheap outcome" where
  "free_obj n None h = Ok h"
| "free_obj 0 (Some p) h = Fault OutOfBounds"
| "free_obj (Suc n) (Some p) h =
     (case cells h p of
        None \<Rightarrow> Fault NullDeref
      | Some ob \<Rightarrow>
          obind (if ob_type ob = REDIS_REPLY_ARRAY
                 then (case ob_element ob of
                         None \<Rightarrow> Ok h
                       | Some es \<Rightarrow> free_all n (take (unat (ob_elements ob)) es) h)
                 else Ok h)
            (\<lambda>h'. Ok (h'\<lparr>cells := (cells h')(p := None)\<rparr>)))"
| "free_all n [] h = Ok h"
| "free_all n (e # es) h = obind (free_obj n e h) (\<lambda>h'. free_all n es h')"

definition freeReplyObject :: "ptr \<Rightarrow> rheap \<Rightarrow> rheap outcome" where
  "freeReplyObject reply h = free_obj (fresh h) reply h"

definition update_cell :: "nat \<Rightarrow> (robj \<Rightarrow> robj) \<Rightarrow> rheap \<Rightarrow> rheap" where
  "update_cell p f h = h\<lparr>cells := (cells h)(p := map_option f (cells h p))\<rparr>"

text \<open>\<^verbatim>\<open>parent->element[task->idx] = r\<close>, when the task has a parent.\<close>

definition link_parent ::
    "redisReadTask \<Rightarrow> redisReadTask option \<Rightarrow> nat \<Rightarrow> rheap \<Rightarrow> (ptr \<times> rheap) outcome" where
  "link_parent task parent p h =
     (case parent of
        None \<Rightarrow> Ok (Some p, h)
      | Some pt \<Rightarrow>
          (case t_obj pt of
             None \<Rightarrow> Fault NullDeref
           | Some q \<Rightarrow>
               (case cells h q of
                  None \<Rightarrow> Fault NullDeref
                | Some ob \<Rightarrow>
                    if ob_type ob \<noteq> REDIS_REPLY_ARRAY then Fault AssertFailure
                    else
                      (case ob_element ob of
                         None \<Rightarrow> Fault NullDeref
                       | Some es \<Rightarrow>
                           if t_idx task < 0 \<or> nat (t_idx task) \<ge> length es then Fault OutOfBounds
                           else Ok (Some p, update_cell q
                                  (\<lambda>ob. ob\<lparr>ob_element := Some (es[nat (t_idx task) := Some p])\<rparr>) h)))))"

definition createStringObject ::
    "redisReadTask \<Rightarrow> redisReadTask option \<Rightarrow> string \<Rightarrow> rheap \<Rightarrow> (ptr \<times> rheap) outcome" where
  "createStringObject task parent str h =
     (case createReplyObject (t_type task) h of
        (None, h1) \<Rightarrow> Ok (None, h1)
      | (Some p, h1) \<Rightarrow>
          let (ok, h2) = h_alloc h1
          in if \<not> ok then obind (freeReplyObject (Some p) h2) (\<lambda>h3. Ok (None, h3))
             else if t_type task \<noteq> REDIS_REPLY_ERROR \<and> t_type task \<noteq> REDIS_REPLY_STATUS \<and>
                     t_type task \<noteq> REDIS_REPLY_STRING then Fault AssertFailure
             else link_parent task parent p (update_cell p (\<lambda>ob. ob\<lparr>ob_str := Some str\<rparr>) h2))"

definition createArrayObject ::
    "redisReadTask \<Rightarrow> redisReadTask option \<Rightarrow> int \<Rightarrow> rheap \<Rightarrow> (ptr \<times> rheap) outcome" where
  "createArrayObject task parent elements h =
     (case createReplyObject REDIS_REPLY_ARRAY h of
        (None, h1) \<Rightarrow> Ok (None, h1)
      | (Some p, h1) \<Rightarrow>
          let (ok, h2) = (if elements > 0 then h_alloc h1 else (True, h1))
          in if \<not> ok then obind (freeReplyObject (Some p) h2) (\<lambda>h3. Ok (None, h3))
             else link_parent task parent p
                    (update_cell p
                       (\<lambda>ob. ob\<lparr>ob_element := (if elements > 0 then Some (replicate (nat elements) None) else None),
                               ob_elements := of_int elements\<rparr>) h2))"

definition createIntegerObject ::
    "redisReadTask \<Rightarrow> redisReadTask option \<Rightarrow> clong \<Rightarrow> rheap \<Rightarrow> (ptr \<times> rheap) outcome" where
  "createIntegerObject task parent value h =
     (case createReplyObject REDIS_REPLY_INTEGER h of
        (None, h1) \<Rightarrow> Ok (None, h1)
      | (Some p, h1) \<Rightarrow> link_parent task parent p (update_cell p (\<lambda>ob. ob\<lparr>ob_integer := value\<rparr>) h1))"

definition createNilObject ::
    "redisReadTask \<Rightarrow> redisReadTask option \<Rightarrow> rheap \<Rightarrow> (ptr \<times> rheap) outcome" where
  "createNilObject task parent h =
     (case createReplyObject REDIS_REPLY_NIL h of
        (None, h1) \<Rightarrow> Ok (None, h1)
      | (Some p, h1) \<Rightarrow> link_parent task parent p h1)"

definition defaultFunctions :: "rheap fns" where
  "defaultFunctions = Some \<lparr>createString = Some createStringObject, createArray = Some createArrayObject,
     createInteger = Some createIntegerObject, createNil = Some createNilObject,
     freeObject = Some freeReplyObject\<rparr>"

end
