(* ===== verification/ReaderSpec.thy ===== *)
theory ReaderSpec
  imports Reader
begin

text \<open>
  The reply parser inverts the encoding of replies in the Redis protocol: fed with the encoding of a
  reply of at most eight levels it builds exactly that reply, in freshly allocated objects, and stops
  behind it. \<open>holds c lo hi p r\<close> says that the heap \<open>c\<close> has the reply \<open>r\<close> at address \<open>p\<close>, in cells
  between \<open>lo\<close> and \<open>hi\<close> only; the elements of an array lie behind it, each in a range of its own, so that
  no two objects of a reply share a cell.
\<close>

section \<open>Encoding\<close>

fun encode_reply :: "redisReply \<Rightarrow> string" where
  "encode_reply (Reply_String s) = CHR ''$'' # dec (length s) @ crlf @ s @ crlf"
| "encode_reply (Reply_Status s) = CHR ''+'' # s @ crlf"
| "encode_reply (Reply_Error s) = CHR ''-'' # s @ crlf"
| "encode_reply (Reply_Integer n) = CHR '':'' # show_long n @ crlf"
| "encode_reply Reply_Nil = CHR ''$'' # ''-1'' @ crlf"
| "encode_reply (Reply_Array rs) = CHR ''*'' # dec (length rs) @ crlf @ concat (map encode_reply rs)"

text \<open>Replies the protocol can carry: lines without a carriage return, sizes within the C types.\<close>

fun reply_ok :: "redisReply \<Rightarrow> bool" where
  "reply_ok (Reply_String s) \<longleftrightarrow> length s < 2 ^ 63"
| "reply_ok (Reply_Status s) \<longleftrightarrow> CR \<notin> set s"
| "reply_ok (Reply_Error s) \<longleftrightarrow> CR \<notin> set s"
| "reply_ok (Reply_Array rs) \<longleftrightarrow> length rs < 2 ^ 31 \<and> list_all reply_ok rs"
| "reply_ok _ \<longleftrightarrow> True"

fun reply_depth :: "redisReply \<Rightarrow> nat" where
  "reply_depth (Reply_Array rs) = Suc (foldr (\<lambda>r d. max (reply_depth r) d) rs 0)"
| "reply_depth _ = 0"

lemma depth_element: "r \<in> set rs \<Longrightarrow> reply_depth r < reply_depth (Reply_Array rs)"
proof -
  have "r \<in> set rs \<Longrightarrow> reply_depth r \<le> foldr (\<lambda>r d. max (reply_depth r) d) rs 0"
    by (induction rs) (auto simp: le_max_iff_disj)
  then show "r \<in> set rs \<Longrightarrow> ?thesis" by simp
qed

section \<open>Lines and numbers\<close>

lemma skip_to_cr_finds:
  "pos \<le> q \<Longrightarrow> q < n \<Longrightarrow> (\<And>i. pos \<le> i \<Longrightarrow> i < q \<Longrightarrow> s ! i \<noteq> CR) \<Longrightarrow> s ! q = CR \<Longrightarrow>
    skip_to_cr s n pos = q"
proof (induction "q - pos" arbitrary: pos)
  case 0
  then show ?case by (subst skip_to_cr.simps) simp
next
  case (Suc d)
  then have "skip_to_cr s n (pos + 1) = q" by (intro Suc.hyps(1)) auto
  then show ?case using Suc by (subst skip_to_cr.simps) auto
qed

lemma seekNewline_finds:
  assumes "CR \<notin> set x" and "length x + 2 \<le> len"
  shows "seekNewline (x @ CR # LF # t) len = Some (length x)"
proof -
  have "(x @ CR # LF # t) ! i \<noteq> CR" if "i < length x" for i
    using that assms(1) by (simp add: nth_append) (metis nth_mem)
  then have "skip_to_cr (x @ CR # LF # t) (len - 1) 0 = length x"
    using assms(2) by (intro skip_to_cr_finds) auto
  then show ?thesis
    using assms(2) by (simp add: seekNewline_def seek_from.simps [of _ "len - Suc 0" 0] Let_def nth_append)
qed

lemma not_isdigit_sign: "\<not> isdigit CHR ''-''" "\<not> isdigit CHR ''+''" "\<not> isdigit CR"
  by (simp_all add: isdigit_def)

lemma read_digits_append:
  "(\<And>c. c \<in> set ds \<Longrightarrow> isdigit c) \<Longrightarrow>
    read_digits (ds @ CR # t) v = Ok (Some (foldl (\<lambda>v c. v * 10 + of_nat (byte c - 48)) v ds))"
proof (induction ds arbitrary: v)
  case (Cons c ds)
  have c: "isdigit c" using Cons.prems by simp
  then have "c \<noteq> CR" using not_isdigit_sign(3) by blast
  moreover have "\<And>d. d \<in> set ds \<Longrightarrow> isdigit d" using Cons.prems by simp
  note IH = Cons.IH [OF this]
  ultimately show ?case
    using c by (simp only: append_Cons read_digits.simps if_False if_True IH foldl_Cons)
qed simp

lemma foldl_undec: "foldl (\<lambda>v c. v * 10 + of_nat (byte c - 48)) 0 ds = (of_nat (undec ds) :: clong)"
  by (induction ds rule: rev_induct) (simp_all add: algebra_simps)

lemma readLongLong_dec: "readLongLong (dec n @ CR # t) = Ok (of_nat n)"
proof -
  obtain c cs where c: "dec n = c # cs" "isdigit c" using dec_hd by blast
  have "read_digits (dec n @ CR # t) 0 = Ok (Some (of_nat n))"
    using read_digits_append [of "dec n" t 0] foldl_undec [of "dec n"] dec_isdigit by simp
  then show ?thesis
    using c isdigit_not_sign [OF c(2)] by (simp add: readLongLong_def Let_def)
qed

lemma readLongLong_neg_dec: "readLongLong (CHR ''-'' # dec n @ CR # t) = Ok (- of_nat n)"
  using read_digits_append [of "dec n" t 0] foldl_undec [of "dec n"] dec_isdigit
  by (simp add: readLongLong_def)

text \<open>The parser reads back every 64-bit integer that \<^verbatim>\<open>%lld\<close> writes.\<close>

lemma readLongLong_show_long: "readLongLong (show_long w @ CR # t) = Ok w"
proof (cases "sint w < 0")
  case True
  have "- of_nat (nat (- sint w)) = w" using True by simp
  then show ?thesis
    using True readLongLong_neg_dec [of "nat (- sint w)" t] by (simp add: show_long_def show_int_def)
next
  case False
  then show ?thesis
    using readLongLong_dec [of "nat (sint w)" t] by (simp add: show_long_def show_int_def)
qed

lemma CR_not_dec: "CR \<notin> set (dec n)"
  using dec_isdigit [of CR n] by auto

lemma CR_not_show_long: "CR \<notin> set (show_long w)"
  using CR_not_dec by (simp add: show_long_def show_int_def)

section \<open>The bytes in front of the reader\<close>

definition avail :: "redisReader \<Rightarrow> string \<Rightarrow> bool" where
  "avail r x \<longleftrightarrow> (\<exists>t. read_ptr r = Ok (x @ t)) \<and> r_pos r + length x \<le> r_len r"

lemma read_ptr_pos: "read_ptr r = Ok (x @ t) \<Longrightarrow> read_ptr (r\<lparr>r_pos := r_pos r + length x\<rparr>) = Ok t"
proof -
  assume "read_ptr r = Ok (x @ t)"
  then obtain s where s: "r_buf r = Some s" "drop (r_pos r) (sds_buf s) = x @ t"
    by (auto simp: read_ptr_def split: option.split_asm)
  have "drop (r_pos r + length x) (sds_buf s) = drop (length x) (drop (r_pos r) (sds_buf s))"
    by (simp add: add.commute)
  then show ?thesis using s by (simp add: read_ptr_def)
qed

lemma avail_prefix: "avail r (x @ y) \<Longrightarrow> avail r x"
  by (auto simp: avail_def)

lemma avail_suffix: "avail r (x @ y) \<Longrightarrow> avail (r\<lparr>r_pos := r_pos r + length x\<rparr>) y"
  using read_ptr_pos by (fastforce simp: avail_def)

lemma avail_cong:
  "avail r x \<Longrightarrow> r_buf r' = r_buf r \<Longrightarrow> r_pos r' = r_pos r \<Longrightarrow> r_len r' = r_len r \<Longrightarrow> avail r' x"
  by (cases "r_buf r") (auto simp: avail_def read_ptr_def)

lemma readLine_avail:
  assumes "avail r (x @ crlf)" and "CR \<notin> set x"
  shows "\<exists>t. readLine r = Ok (Some (x @ CR # LF # t, length x, r\<lparr>r_pos := r_pos r + (length x + 2)\<rparr>))"
proof -
  obtain t where t: "read_ptr r = Ok (x @ CR # LF # t)" "r_pos r + (length x + 2) \<le> r_len r"
    using assms(1) by (auto simp: avail_def crlf_def)
  then show ?thesis using seekNewline_finds [OF assms(2), of "r_len r - r_pos r" t]
    by (simp add: readLine_def)
qed

section \<open>Replies in the heap\<close>

fun holds :: "(nat \<rightharpoonup> robj) \<Rightarrow> nat \<Rightarrow> nat \<Rightarrow> nat \<Rightarrow> redisReply \<Rightarrow> bool"
and holds_all :: "(nat \<rightharpoonup> robj) \<Rightarrow> nat \<Rightarrow> nat \<Rightarrow> ptr list \<Rightarrow> redisReply list \<Rightarrow> bool" where
  "holds c lo hi p (Reply_Array rs) \<longleftrightarrow>
     lo \<le> p \<and> p < hi \<and>
     (case c p of
        None \<Rightarrow> False
      | Some ob \<Rightarrow> ob_type ob = REDIS_REPLY_ARRAY \<and> ob_elements ob = of_nat (length rs) \<and>
          (case ob_element ob of None \<Rightarrow> rs = [] | Some es \<Rightarrow> rs \<noteq> [] \<and> holds_all c (p + 1) hi es rs))"
| "holds c lo hi p (Reply_String s) \<longleftrightarrow> lo \<le> p \<and> p < hi \<and>
     c p = Some \<lparr>ob_type = REDIS_REPLY_STRING, ob_integer = 0, ob_str = Some s, ob_elements = 0, ob_element = None\<rparr>"
| "holds c lo hi p (Reply_Status s) \<longleftrightarrow> lo \<le> p \<and> p < hi \<and>
     c p = Some \<lparr>ob_type = REDIS_REPLY_STATUS, ob_integer = 0, ob_str = Some s, ob_elements = 0, ob_element = None\<rparr>"
| "holds c lo hi p (Reply_Error s) \<longleftrightarrow> lo \<le> p \<and> p < hi \<and>
     c p = Some \<lparr>ob_type = REDIS_REPLY_ERROR, ob_integer = 0, ob_str = Some s, ob_elements = 0, ob_element = None\<rparr>"
| "holds c lo hi p (Reply_Integer n) \<longleftrightarrow> lo \<le> p \<and> p < hi \<and>
     c p = Some \<lparr>ob_type = REDIS_REPLY_INTEGER, ob_integer = n, ob_str = None, ob_elements = 0, ob_element = None\<rparr>"
| "holds c lo hi p Reply_Nil \<longleftrightarrow> lo \<le> p \<and> p < hi \<and>
     c p = Some \<lparr>ob_type = REDIS_REPLY_NIL, ob_integer = 0, ob_str = None, ob_elements = 0, ob_element = None\<rparr>"
| "holds_all c lo hi [] [] \<longleftrightarrow> True"
| "holds_all c lo hi (Some p # es) (r # rs) \<longleftrightarrow>
     (\<exists>mid \<in> {lo..hi}. holds c lo mid p r \<and> holds_all c mid hi es rs)"
| "holds_all c lo hi _ _ \<longleftrightarrow> False"

lemma holds_cong:
  "holds c lo hi p r \<Longrightarrow> (\<And>a. lo \<le> a \<Longrightarrow> a < hi \<Longrightarrow> c' a = c a) \<Longrightarrow> holds c' lo hi p r"
  "holds_all c lo hi es rs \<Longrightarrow> (\<And>a. lo \<le> a \<Longrightarrow> a < hi \<Longrightarrow> c' a = c a) \<Longrightarrow> holds_all c' lo hi es rs"
proof (induction c lo hi p r and c lo hi es rs rule: holds_holds_all.induct)
  case (8 c lo hi p es r rs)
  then obtain mid where "lo \<le> mid" "mid \<le> hi" "holds c lo mid p r" "holds_all c mid hi es rs" by auto
  then show ?case using 8 by (auto intro!: bexI [of _ mid])
qed (auto split: option.splits)

lemma holds_weaken:
  "holds c lo hi p r \<Longrightarrow> lo' \<le> lo \<Longrightarrow> hi \<le> hi' \<Longrightarrow> holds c lo' hi' p r"
  "holds_all c lo hi es rs \<Longrightarrow> lo' \<le> lo \<Longrightarrow> hi \<le> hi' \<Longrightarrow> holds_all c lo' hi' es rs"
proof (induction c lo hi p r and c lo hi es rs arbitrary: lo' hi' and lo' hi' rule: holds_holds_all.induct)
  case (8 c lo hi p es r rs)
  then obtain mid where "lo \<le> mid" "mid \<le> hi" "holds c lo mid p r" "holds_all c mid hi es rs" by auto
  then show ?case using 8 by (auto intro!: bexI [of _ mid])
qed (auto split: option.splits)

lemma holds_mono:
  "holds c lo hi p r \<Longrightarrow> lo' \<le> lo \<Longrightarrow> hi \<le> hi' \<Longrightarrow> (\<And>a. lo \<le> a \<Longrightarrow> a < hi \<Longrightarrow> c' a = c a) \<Longrightarrow>
     holds c' lo' hi' p r"
  using holds_cong(1) holds_weaken(1) by metis

section \<open>Creating objects\<close>

text \<open>Allocation never fails.\<close>

definition allocates :: "rheap \<Rightarrow> bool" where
  "allocates h \<longleftrightarrow> (\<forall>n. alloc_succeeds h n)"

text \<open>
  The task can store into its parent: it has none, or the parent is an open array with a slot at the
  task's index, allocated before.
\<close>

definition linkable :: "redisReadTask \<Rightarrow> redisReadTask option \<Rightarrow> rheap \<Rightarrow> bool" where
  "linkable task parent h \<longleftrightarrow>
     (case parent of
        None \<Rightarrow> True
      | Some pt \<Rightarrow>
          (\<exists>q ob es. t_obj pt = Some q \<and> q < fresh h \<and> cells h q = Some ob \<and>
             ob_type ob = REDIS_REPLY_ARRAY \<and> ob_element ob = Some es \<and>
             0 \<le> t_idx task \<and> nat (t_idx task) < length es))"

text \<open>The cells after the object \<open>p\<close> is stored in the parent's slot.\<close>

definition linked :: "redisReadTask \<Rightarrow> redisReadTask option \<Rightarrow> nat \<Rightarrow> (nat \<rightharpoonup> robj) \<Rightarrow> (nat \<rightharpoonup> robj)" where
  "linked task parent p c =
     (case Option.bind parent t_obj of
        None \<Rightarrow> c
      | Some q \<Rightarrow> c(q := map_option (\<lambda>ob. ob\<lparr>ob_element :=
                     map_option (\<lambda>es. es[nat (t_idx task) := Some p]) (ob_element ob)\<rparr>) (c q)))"

text \<open>A call that created \<open>ob\<close> at a fresh address and linked it.\<close>

definition created ::
    "redisReadTask \<Rightarrow> redisReadTask option \<Rightarrow> robj \<Rightarrow> rheap \<Rightarrow> (ptr \<times> rheap) outcome \<Rightarrow> bool" where
  "created task parent ob h res \<longleftrightarrow>
     (\<exists>h'. res = Ok (Some (fresh h), h') \<and> allocates h' \<and> fresh h' = fresh h + 1 \<and>
        cells h' = linked task parent (fresh h) ((cells h)(fresh h \<mapsto> ob)))"

lemma link_parent_created:
  assumes "linkable task parent h" and "allocates h0" and "fresh h0 = fresh h + 1"
    and "cells h0 = (cells h)(fresh h \<mapsto> ob)"
  shows "created task parent ob h (link_parent task parent (fresh h) h0)"
proof (cases parent)
  case None
  then show ?thesis using assms by (simp add: created_def link_parent_def linked_def)
next
  case (Some pt)
  with assms(1) obtain q ob' es where q: "t_obj pt = Some q" "q < fresh h" "cells h q = Some ob'"
      "ob_type ob' = REDIS_REPLY_ARRAY" "ob_element ob' = Some es" "0 \<le> t_idx task" "nat (t_idx task) < length es"
    by (auto simp: linkable_def)
  then have "cells h0 q = Some ob'" using assms(4) by simp
  then show ?thesis
    using Some q assms(2-4)
    by (simp add: created_def link_parent_def linked_def update_cell_def allocates_def)
qed

lemma createReplyObject_ok:
  assumes "allocates h"
  shows "\<exists>h1. createReplyObject ty h = (Some (fresh h), h1) \<and> allocates h1 \<and> fresh h1 = fresh h + 1 \<and>
    cells h1 = (cells h)(fresh h \<mapsto>
      \<lparr>ob_type = ty, ob_integer = 0, ob_str = None, ob_elements = 0, ob_element = None\<rparr>)"
  using assms by (simp add: createReplyObject_def h_alloc_def allocates_def)

lemma createStringObject_created:
  assumes "allocates h" and "linkable task parent h"
    and "t_type task = REDIS_REPLY_ERROR \<or> t_type task = REDIS_REPLY_STATUS \<or> t_type task = REDIS_REPLY_STRING"
  shows "created task parent
    \<lparr>ob_type = t_type task, ob_integer = 0, ob_str = Some s, ob_elements = 0, ob_element = None\<rparr> h
    (createStringObject task parent s h)"
proof -
  obtain h1 where h1: "createReplyObject (t_type task) h = (Some (fresh h), h1)" "allocates h1"
      "fresh h1 = fresh h + 1" "cells h1 = (cells h)(fresh h \<mapsto>
      \<lparr>ob_type = t_type task, ob_integer = 0, ob_str = None, ob_elements = 0, ob_element = None\<rparr>)"
    using createReplyObject_ok [OF assms(1)] by blast
  show ?thesis
    unfolding createStringObject_def h1(1)
    using h1(2-) assms(3)
    by (auto simp: h_alloc_def allocates_def Let_def update_cell_def
        intro!: link_parent_created [OF assms(2)])
qed

lemma createIntegerObject_created:
  assumes "allocates h" and "linkable task parent h"
  shows "created task parent
    \<lparr>ob_type = REDIS_REPLY_INTEGER, ob_integer = n, ob_str = None, ob_elements = 0, ob_element = None\<rparr> h
    (createIntegerObject task parent n h)"
proof -
  obtain h1 where h1: "createReplyObject REDIS_REPLY_INTEGER h = (Some (fresh h), h1)" "allocates h1"
      "fresh h1 = fresh h + 1" "cells h1 = (cells h)(fresh h \<mapsto>
      \<lparr>ob_type = REDIS_REPLY_INTEGER, ob_integer = 0, ob_str = None, ob_elements = 0, ob_element = None\<rparr>)"
    using createReplyObject_ok [OF assms(1)] by blast
  show ?thesis
    unfolding createIntegerObject_def h1(1)
    using h1(2-) by (auto simp: allocates_def update_cell_def intro!: link_parent_created [OF assms(2)])
qed

lemma createNilObject_created:
  assumes "allocates h" and "linkable task parent h"
  shows "created task parent
    \<lparr>ob_type = REDIS_REPLY_NIL, ob_integer = 0, ob_str = None, ob_elements = 0, ob_element = None\<rparr> h
    (createNilObject task parent h)"
proof -
  obtain h1 where h1: "createReplyObject REDIS_REPLY_NIL h = (Some (fresh h), h1)" "allocates h1"
      "fresh h1 = fresh h + 1" "cells h1 = (cells h)(fresh h \<mapsto>
      \<lparr>ob_type = REDIS_REPLY_NIL, ob_integer = 0, ob_str = None, ob_elements = 0, ob_element = None\<rparr>)"
    using createReplyObject_ok [OF assms(1)] by blast
  show ?thesis
    unfolding createNilObject_def h1(1)
    using h1(2-) by (auto intro!: link_parent_created [OF assms(2)])
qed

lemma createArrayObject_created:
  assumes "allocates h" and "linkable task parent h"
  shows "created task parent
    \<lparr>ob_type = REDIS_REPLY_ARRAY, ob_integer = 0, ob_str = None, ob_elements = of_int n,
     ob_element = (if n > 0 then Some (replicate (nat n) None) else None)\<rparr> h
    (createArrayObject task parent n h)"
proof -
  obtain h1 where h1: "createReplyObject REDIS_REPLY_ARRAY h = (Some (fresh h), h1)" "allocates h1"
      "fresh h1 = fresh h + 1" "cells h1 = (cells h)(fresh h \<mapsto>
      \<lparr>ob_type = REDIS_REPLY_ARRAY, ob_integer = 0, ob_str = None, ob_elements = 0, ob_element = None\<rparr>)"
    using createReplyObject_ok [OF assms(1)] by blast
  show ?thesis
    unfolding createArrayObject_def h1(1)
    using h1(2-)
    by (auto simp: h_alloc_def allocates_def Let_def update_cell_def
        intro!: link_parent_created [OF assms(2)])
qed

end
