(* ===== verification/ReaderRoundTrip.thy ===== *)
theory ReaderRoundTrip
  imports ReaderSpec
begin

text \<open>
  The induction behind the round trip of \<open>encode_reply\<close> and the parser: \<open>reads r\<close> is what happens to
  a reader in front of the encoding of \<open>r\<close> at any level of the task stack, \<open>reads_all\<close> the same for
  the elements of an array. The work of the loop is split at \<^verbatim>\<open>moveToNextTask\<close>, so that finishing the
  last element of an array continues as finishing the array itself.
\<close>

abbreviation dF :: "rheap fns" where "dF \<equiv> defaultFunctions"

lemma default_fields [simp]:
  "Option.bind dF createString = Some createStringObject"
  "Option.bind dF createArray = Some createArrayObject"
  "Option.bind dF createInteger = Some createIntegerObject"
  "Option.bind dF createNil = Some createNilObject"
  "Option.bind dF freeObject = Some freeReplyObject"
  by (simp_all add: defaultFunctions_def)

section \<open>Reader states\<close>

definition ready :: "redisReader \<Rightarrow> nat \<Rightarrow> rheap \<Rightarrow> bool" where
  "ready R k h \<longleftrightarrow>
     length (r_rstack R) = 9 \<and> r_ridx R = int k \<and> k \<le> 8 \<and> t_type (r_rstack R ! k) = -1 \<and>
     t_parent (r_rstack R ! k) = (if k = 0 then None else Some (k - 1)) \<and>
     (0 < k \<longrightarrow> t_type (r_rstack R ! (k - 1)) = REDIS_REPLY_ARRAY) \<and>
     linkable (r_rstack R ! k) (parent_task R (r_rstack R ! k)) h \<and> allocates h"

text \<open>The state in front of \<open>moveToNextTask\<close> once the bytes \<open>x\<close> of an object \<open>p\<close> are consumed.\<close>

definition read_as :: "redisReader \<Rightarrow> nat \<Rightarrow> string \<Rightarrow> nat \<Rightarrow> redisReader \<Rightarrow> bool" where
  "read_as R k x p R1 \<longleftrightarrow>
     r_ridx R1 = int k \<and> r_pos R1 = r_pos R + length x \<and> r_len R1 = r_len R \<and> r_buf R1 = r_buf R \<and>
     r_err R1 = r_err R \<and> length (r_rstack R1) = 9 \<and>
     (\<forall>i < k. r_rstack R1 ! i = r_rstack R ! i) \<and>
     t_idx (r_rstack R1 ! k) = t_idx (r_rstack R ! k) \<and>
     t_parent (r_rstack R1 ! k) = t_parent (r_rstack R ! k) \<and>
     r_reply R1 = (if k = 0 then Some p else r_reply R)"

definition grown :: "rheap \<Rightarrow> redisReadTask \<Rightarrow> redisReadTask option \<Rightarrow> redisReply \<Rightarrow> rheap \<Rightarrow> bool" where
  "grown h task parent r h1 \<longleftrightarrow>
     allocates h1 \<and> fresh h < fresh h1 \<and>
     (\<forall>a < fresh h. cells h1 a = linked task parent (fresh h) (cells h) a) \<and>
     holds (cells h1) (fresh h) (fresh h1) (fresh h) r"

definition reads :: "redisReply \<Rightarrow> bool" where
  "reads r \<longleftrightarrow>
     (\<forall>R h k. ready R k h \<longrightarrow> k + reply_depth r \<le> 8 \<longrightarrow> reply_ok r \<longrightarrow> avail R (encode_reply r) \<longrightarrow>
        (\<exists>R1 h1. process_loop dF R h = obind (moveToNextTask R1) (\<lambda>R2. process_loop dF R2 h1) \<and>
           read_as R k (encode_reply r) (fresh h) R1 \<and>
           grown h (r_rstack R ! k) (parent_task R (r_rstack R ! k)) r h1))"

lemma process_loop_step:
  assumes "0 \<le> r_ridx R" and "processItem fn R h = obind m (\<lambda>R2. Ok (True, R2, h1))"
  shows "process_loop fn R h = obind m (\<lambda>R2. process_loop fn R2 h1)"
  using assms by (cases m) (simp_all add: process_loop.simps [of fn R h])

section \<open>Reading the type\<close>

definition typed :: "redisReader \<Rightarrow> nat \<Rightarrow> int \<Rightarrow> redisReader" where
  "typed R k ty = set_task k ((r_rstack R ! k)\<lparr>t_type := ty\<rparr>) (R\<lparr>r_pos := r_pos R + 1\<rparr>)"

lemma processItem_typed:
  assumes "ready R k h" and "avail R (c # x)" and "type_of_byte c = Some ty"
  shows "processItem fn R h = processTyped fn (typed R k ty) h" "avail (typed R k ty) x"
proof -
  obtain t where t: "read_ptr R = Ok (c # x @ t)" "r_pos R + Suc (length x) \<le> r_len R"
    using assms(2) by (auto simp: avail_def)
  then have "1 \<le> r_len R - r_pos R" by simp
  then show "processItem fn R h = processTyped fn (typed R k ty) h"
    using t assms(1,3) by (simp add: processItem_def readBytes_def cur_task_def ready_def typed_def)
  have "avail (R\<lparr>r_pos := r_pos R + 1\<rparr>) x" using avail_suffix [of R "[c]" x] assms(2) by simp
  then show "avail (typed R k ty) x" by (rule avail_cong) (simp_all add: typed_def)
qed

lemma typed_fields [simp]:
  "r_ridx (typed R k ty) = r_ridx R" "r_pos (typed R k ty) = r_pos R + 1" "r_len (typed R k ty) = r_len R"
  "r_buf (typed R k ty) = r_buf R" "r_err (typed R k ty) = r_err R" "r_reply (typed R k ty) = r_reply R"
  "length (r_rstack (typed R k ty)) = length (r_rstack R)"
  "i < k \<Longrightarrow> r_rstack (typed R k ty) ! i = r_rstack R ! i"
  by (simp_all add: typed_def set_task_def)

lemma typed_cur:
  assumes "ready R k h"
  shows "r_rstack (typed R k ty) ! k = (r_rstack R ! k)\<lparr>t_type := ty\<rparr>"
    and "cur_task (typed R k ty) = (r_rstack R ! k)\<lparr>t_type := ty\<rparr>"
    and "parent_task (typed R k ty) ((r_rstack R ! k)\<lparr>t_type := ty\<rparr>) = parent_task R (r_rstack R ! k)"
  using assms by (auto simp: typed_def set_task_def cur_task_def ready_def parent_task_def)

lemma linkable_type [simp]:
  "linkable (task\<lparr>t_type := ty\<rparr>) par h = linkable task par h"
  "linked (task\<lparr>t_type := ty\<rparr>) par p c = linked task par p c"
  by (simp_all add: linkable_def linked_def split: option.split)

lemma ready_linkable: "ready R k h \<Longrightarrow> linkable (r_rstack R ! k) (parent_task R (r_rstack R ! k)) h"
  by (simp add: ready_def)

lemma ready_allocates: "ready R k h \<Longrightarrow> allocates h"
  by (simp add: ready_def)

lemma linked_fresh:
  assumes "linkable task par h"
  shows "linked task par p (c(fresh h \<mapsto> ob)) (fresh h) = Some ob"
    and "a < fresh h \<Longrightarrow> linked task par p (c(fresh h \<mapsto> ob)) a = linked task par p c a"
  using assms by (cases par; auto simp: linked_def linkable_def)+

section \<open>Leaves\<close>

text \<open>An object that is complete as soon as it is created.\<close>

lemma reads_leaf:
  assumes R: "ready R k h"
    and item: "\<And>p h1. res = Ok (Some p, h1) \<Longrightarrow> processItem dF R h = item_done dF (T\<lparr>r_pos := n\<rparr>) (Some p) h1"
    and T: "T = typed R k ty" and n: "n = r_pos R + length x"
    and created: "created (r_rstack R ! k) (parent_task R (r_rstack R ! k)) ob h res"
    and holds: "\<And>c. c (fresh h) = Some ob \<Longrightarrow> holds c (fresh h) (fresh h + 1) (fresh h) r"
  shows "\<exists>R1 h1. process_loop dF R h = obind (moveToNextTask R1) (\<lambda>R2. process_loop dF R2 h1) \<and>
     read_as R k x (fresh h) R1 \<and> grown h (r_rstack R ! k) (parent_task R (r_rstack R ! k)) r h1"
proof -
  let ?task = "r_rstack R ! k" and ?par = "parent_task R (r_rstack R ! k)"
  obtain h1 where h1: "res = Ok (Some (fresh h), h1)" "allocates h1" "fresh h1 = fresh h + 1"
      "cells h1 = linked ?task ?par (fresh h) ((cells h)(fresh h \<mapsto> ob))"
    using created by (auto simp: created_def)
  let ?R1 = "if k = 0 then T\<lparr>r_pos := n, r_reply := Some (fresh h)\<rparr> else T\<lparr>r_pos := n\<rparr>"
  have "processItem dF R h = obind (moveToNextTask ?R1) (\<lambda>R2. Ok (True, R2, h1))"
    unfolding item [OF h1(1)] using R by (simp add: item_done_def T ready_def Let_def)
  then have "process_loop dF R h = obind (moveToNextTask ?R1) (\<lambda>R2. process_loop dF R2 h1)"
    using R by (intro process_loop_step) (simp_all add: ready_def)
  moreover have "read_as R k x (fresh h) ?R1"
    using R typed_cur [OF R] by (cases "k = 0") (auto simp: read_as_def T n ready_def)
  moreover have "grown h ?task ?par r h1"
  proof -
    note linked = linked_fresh [OF ready_linkable [OF R]]
    have "cells h1 a = linked ?task ?par (fresh h) (cells h) a" if "a < fresh h" for a
      using that by (simp add: h1(4) linked)
    moreover have "cells h1 (fresh h) = Some ob" by (simp add: h1(4) linked)
    ultimately show ?thesis using h1 holds by (simp add: grown_def)
  qed
  ultimately show ?thesis by blast
qed

lemma reads_line:
  assumes ty: "ty = REDIS_REPLY_ERROR \<or> ty = REDIS_REPLY_STATUS" and c: "type_of_byte c = Some ty"
    and enc: "encode_reply r = c # s @ crlf" and s: "CR \<notin> set s"
    and holds: "\<And>c p. c p = Some \<lparr>ob_type = ty, ob_integer = 0, ob_str = Some s, ob_elements = 0,
                          ob_element = None\<rparr> \<Longrightarrow> holds c p (p + 1) p r"
    and R: "ready R k h" and av: "avail R (encode_reply r)"
  shows "\<exists>R1 h1. process_loop dF R h = obind (moveToNextTask R1) (\<lambda>R2. process_loop dF R2 h1) \<and>
     read_as R k (encode_reply r) (fresh h) R1 \<and>
     grown h (r_rstack R ! k) (parent_task R (r_rstack R ! k)) r h1"
proof -
  let ?T = "typed R k ty"
  note typed = processItem_typed [OF R av [unfolded enc] c]
  obtain t where line: "readLine ?T = Ok (Some (s @ CR # LF # t, length s, ?T\<lparr>r_pos := r_pos ?T + (length s + 2)\<rparr>))"
    using readLine_avail [OF typed(2) s] by blast
  have "t_type (cur_task ?T) = ty" using typed_cur [OF R] by simp
  moreover have "ty \<noteq> REDIS_REPLY_INTEGER" using ty by (auto simp: reply_types)
  ultimately have item: "processItem dF R h = item_done dF (?T\<lparr>r_pos := r_pos R + length (encode_reply r)\<rparr>) (Some p) h1"
    if "createStringObject ((r_rstack R ! k)\<lparr>t_type := ty\<rparr>) (parent_task R (r_rstack R ! k)) s h = Ok (Some p, h1)"
    for p h1 using that
    using ty typed_cur [OF R]
    by (simp add: typed(1) processTyped_def processLineItem_def line Let_def enc crlf_def)
  have "created ((r_rstack R ! k)\<lparr>t_type := ty\<rparr>) (parent_task R (r_rstack R ! k))
      \<lparr>ob_type = ty, ob_integer = 0, ob_str = Some s, ob_elements = 0, ob_element = None\<rparr> h
      (createStringObject ((r_rstack R ! k)\<lparr>t_type := ty\<rparr>) (parent_task R (r_rstack R ! k)) s h)"
    using createStringObject_created [OF ready_allocates [OF R],
        of "(r_rstack R ! k)\<lparr>t_type := ty\<rparr>" "parent_task R (r_rstack R ! k)" s] ready_linkable [OF R] ty
    by auto
  then have "created (r_rstack R ! k) (parent_task R (r_rstack R ! k))
      \<lparr>ob_type = ty, ob_integer = 0, ob_str = Some s, ob_elements = 0, ob_element = None\<rparr> h
      (createStringObject ((r_rstack R ! k)\<lparr>t_type := ty\<rparr>) (parent_task R (r_rstack R ! k)) s h)"
    by (simp add: created_def)
  then show ?thesis
    by (rule reads_leaf [OF R _ refl refl, rotated]) (erule holds, erule item)
qed

lemma reads_integer: "reads (Reply_Integer n)"
  unfolding reads_def
proof (intro allI impI)
  fix R h k
  assume R: "ready R k h" and av: "avail R (encode_reply (Reply_Integer n))"
  let ?T = "typed R k REDIS_REPLY_INTEGER"
  have c: "type_of_byte CHR '':'' = Some REDIS_REPLY_INTEGER" by (simp add: type_of_byte_def)
  note typed = processItem_typed [OF R av [unfolded encode_reply.simps] c]
  obtain t where line: "readLine ?T = Ok (Some (show_long n @ CR # LF # t, length (show_long n),
      ?T\<lparr>r_pos := r_pos ?T + (length (show_long n) + 2)\<rparr>))"
    using readLine_avail [OF typed(2) CR_not_show_long] by blast
  have "t_type (cur_task ?T) = REDIS_REPLY_INTEGER" using typed_cur [OF R] by simp
  then have item: "processItem dF R h =
      item_done dF (?T\<lparr>r_pos := r_pos R + length (encode_reply (Reply_Integer n))\<rparr>) (Some p) h1"
    if "createIntegerObject ((r_rstack R ! k)\<lparr>t_type := REDIS_REPLY_INTEGER\<rparr>)
         (parent_task R (r_rstack R ! k)) n h = Ok (Some p, h1)" for p h1 using that
    using typed_cur [OF R]
    by (simp add: typed(1) processTyped_def processLineItem_def line Let_def crlf_def readLongLong_show_long)
  have "created (r_rstack R ! k) (parent_task R (r_rstack R ! k))
      \<lparr>ob_type = REDIS_REPLY_INTEGER, ob_integer = n, ob_str = None, ob_elements = 0, ob_element = None\<rparr> h
      (createIntegerObject ((r_rstack R ! k)\<lparr>t_type := REDIS_REPLY_INTEGER\<rparr>)
         (parent_task R (r_rstack R ! k)) n h)"
    using createIntegerObject_created [OF ready_allocates [OF R],
        of "(r_rstack R ! k)\<lparr>t_type := REDIS_REPLY_INTEGER\<rparr>" "parent_task R (r_rstack R ! k)" n] ready_linkable [OF R]
    by (simp add: created_def)
  then show "\<exists>R1 h1. process_loop dF R h = obind (moveToNextTask R1) (\<lambda>R2. process_loop dF R2 h1) \<and>
     read_as R k (encode_reply (Reply_Integer n)) (fresh h) R1 \<and>
     grown h (r_rstack R ! k) (parent_task R (r_rstack R ! k)) (Reply_Integer n) h1"
    by (rule reads_leaf [OF R _ refl refl, rotated]) (simp, erule item)
qed

lemma reads_nil: "reads Reply_Nil"
  unfolding reads_def
proof (intro allI impI)
  fix R h k
  assume R: "ready R k h" and av: "avail R (encode_reply Reply_Nil)"
  let ?T = "typed R k REDIS_REPLY_STRING"
  have c: "type_of_byte CHR ''$'' = Some REDIS_REPLY_STRING" by (simp add: type_of_byte_def)
  note typed = processItem_typed [OF R av [unfolded encode_reply.simps] c]
  obtain t where t: "read_ptr ?T = Ok (''-1'' @ CR # LF # t)" "r_pos ?T + 4 \<le> r_len ?T"
    using typed(2) by (auto simp: avail_def crlf_def)
  have seek: "seekNewline (''-1'' @ CR # LF # t) (r_len ?T - r_pos ?T) = Some 2"
    using seekNewline_finds [of "''-1''" "r_len ?T - r_pos ?T" t] t(2) by (simp add: numeral_2_eq_2)
  have num: "readLongLong (''-1'' @ CR # LF # t) = Ok (-1)"
    using readLongLong_neg_dec [of 1 "LF # t"] by (simp add: dec.simps [of "Suc 0"])
  have "t_type (cur_task ?T) = REDIS_REPLY_STRING" using typed_cur [OF R] by simp
  then have item: "processItem dF R h =
      item_done dF (?T\<lparr>r_pos := r_pos R + length (encode_reply Reply_Nil)\<rparr>) (Some p) h1"
    if "createNilObject ((r_rstack R ! k)\<lparr>t_type := REDIS_REPLY_STRING\<rparr>) (parent_task R (r_rstack R ! k)) h
          = Ok (Some p, h1)" for p h1
    using that typed_cur [OF R] t(1) seek num
    by (simp add: typed(1) processTyped_def processBulkItem_def create_nil_def Let_def reply_types crlf_def
        eval_nat_numeral)
  have "created (r_rstack R ! k) (parent_task R (r_rstack R ! k))
      \<lparr>ob_type = REDIS_REPLY_NIL, ob_integer = 0, ob_str = None, ob_elements = 0, ob_element = None\<rparr> h
      (createNilObject ((r_rstack R ! k)\<lparr>t_type := REDIS_REPLY_STRING\<rparr>) (parent_task R (r_rstack R ! k)) h)"
    using createNilObject_created [OF ready_allocates [OF R],
        of "(r_rstack R ! k)\<lparr>t_type := REDIS_REPLY_STRING\<rparr>" "parent_task R (r_rstack R ! k)"] ready_linkable [OF R]
    by (simp add: created_def)
  then show "\<exists>R1 h1. process_loop dF R h = obind (moveToNextTask R1) (\<lambda>R2. process_loop dF R2 h1) \<and>
     read_as R k (encode_reply Reply_Nil) (fresh h) R1 \<and>
     grown h (r_rstack R ! k) (parent_task R (r_rstack R ! k)) Reply_Nil h1"
    by (rule reads_leaf [OF R _ refl refl, rotated]) (simp, erule item)
qed

lemma of_nat_sint: "n < 2 ^ 63 \<Longrightarrow> sint (of_nat n :: clong) = int n"
  by (simp add: sint_uint unsigned_of_nat take_bit_int_eq_self signed_take_bit_int_eq_self of_nat_take_bit)

lemma reads_bulk: "reads (Reply_String s)"
  unfolding reads_def
proof (intro allI impI)
  fix R h k
  assume R: "ready R k h" and ok: "reply_ok (Reply_String s)" and av: "avail R (encode_reply (Reply_String s))"
  let ?T = "typed R k REDIS_REPLY_STRING" and ?d = "dec (length s)"
  have c: "type_of_byte CHR ''$'' = Some REDIS_REPLY_STRING" by (simp add: type_of_byte_def)
  note typed = processItem_typed [OF R av [unfolded encode_reply.simps] c]
  obtain t where t: "read_ptr ?T = Ok (?d @ CR # LF # s @ CR # LF # t)"
      "r_pos ?T + (length ?d + 2 + (length s + 2)) \<le> r_len ?T"
    using typed(2) by (auto simp: avail_def crlf_def)
  have seek: "seekNewline (?d @ CR # LF # s @ CR # LF # t) (r_len ?T - r_pos ?T) = Some (length ?d)"
    using t(2) by (intro seekNewline_finds CR_not_dec) simp
  have num: "readLongLong (?d @ CR # LF # s @ CR # LF # t) = Ok (of_nat (length s))"
    by (rule readLongLong_dec)
  have len: "sint (of_nat (length s) :: clong) = int (length s)" using ok by (simp add: of_nat_sint)
  have "t_type (cur_task ?T) = REDIS_REPLY_STRING" using typed_cur [OF R] by simp
  then have item: "processItem dF R h =
      item_done dF (?T\<lparr>r_pos := r_pos R + length (encode_reply (Reply_String s))\<rparr>) (Some p) h1"
    if "createStringObject ((r_rstack R ! k)\<lparr>t_type := REDIS_REPLY_STRING\<rparr>) (parent_task R (r_rstack R ! k)) s h
          = Ok (Some p, h1)" for p h1
    using that typed_cur [OF R] t seek num len
    by (simp add: typed(1) processTyped_def processBulkItem_def Let_def reply_types crlf_def add.assoc)
  have "created (r_rstack R ! k) (parent_task R (r_rstack R ! k))
      \<lparr>ob_type = REDIS_REPLY_STRING, ob_integer = 0, ob_str = Some s, ob_elements = 0, ob_element = None\<rparr> h
      (createStringObject ((r_rstack R ! k)\<lparr>t_type := REDIS_REPLY_STRING\<rparr>) (parent_task R (r_rstack R ! k)) s h)"
    using createStringObject_created [OF ready_allocates [OF R],
        of "(r_rstack R ! k)\<lparr>t_type := REDIS_REPLY_STRING\<rparr>" "parent_task R (r_rstack R ! k)" s] ready_linkable [OF R]
    by (simp add: created_def)
  then show "\<exists>R1 h1. process_loop dF R h = obind (moveToNextTask R1) (\<lambda>R2. process_loop dF R2 h1) \<and>
     read_as R k (encode_reply (Reply_String s)) (fresh h) R1 \<and>
     grown h (r_rstack R ! k) (parent_task R (r_rstack R ! k)) (Reply_String s) h1"
    by (rule reads_leaf [OF R _ refl refl, rotated]) (simp, erule item)
qed

lemma reads_status: "reads (Reply_Status s)"
  unfolding reads_def
  by (intro allI impI, rule reads_line [where ty = REDIS_REPLY_STATUS])
     (simp_all add: type_of_byte_def)

lemma reads_error: "reads (Reply_Error s)"
  unfolding reads_def
  by (intro allI impI, rule reads_line [where ty = REDIS_REPLY_ERROR])
     (simp_all add: type_of_byte_def)

section \<open>The elements of an array\<close>

text \<open>The reader is inside the array \<open>p\<close> of \<open>n\<close> elements at level \<open>k\<close>, in front of element \<open>i\<close>.\<close>

definition in_array :: "redisReader \<Rightarrow> nat \<Rightarrow> nat \<Rightarrow> nat \<Rightarrow> nat \<Rightarrow> bool" where
  "in_array S k n i p \<longleftrightarrow>
     length (r_rstack S) = 9 \<and> r_ridx S = int (Suc k) \<and> Suc k \<le> 8 \<and>
     t_type (r_rstack S ! Suc k) = -1 \<and> t_idx (r_rstack S ! Suc k) = int i \<and>
     t_parent (r_rstack S ! Suc k) = Some k \<and>
     t_type (r_rstack S ! k) = REDIS_REPLY_ARRAY \<and> t_elements (r_rstack S ! k) = int n \<and>
     t_obj (r_rstack S ! k) = Some p"

definition open_array :: "rheap \<Rightarrow> nat \<Rightarrow> robj \<Rightarrow> ptr list \<Rightarrow> bool" where
  "open_array h p ob es \<longleftrightarrow>
     allocates h \<and> p < fresh h \<and> cells h p = Some ob \<and> ob_type ob = REDIS_REPLY_ARRAY \<and>
     ob_element ob = Some es"

lemma in_array_ready:
  assumes "in_array S k n i p" and "open_array h p ob es" and "i < length es"
  shows "ready S (Suc k) h"
  using assms by (auto simp: in_array_def open_array_def ready_def linkable_def parent_task_def)

text \<open>Reading one element stores it in the array.\<close>

lemma grown_element:
  assumes "in_array S k n i p" and "open_array h p ob es"
    and "grown h (r_rstack S ! Suc k) (parent_task S (r_rstack S ! Suc k)) r h1"
  shows "open_array h1 p (ob\<lparr>ob_element := Some (es[i := Some (fresh h)])\<rparr>) (es[i := Some (fresh h)])"
    and "\<And>a. a < fresh h \<Longrightarrow> a \<noteq> p \<Longrightarrow> cells h1 a = cells h a" and "fresh h < fresh h1"
    and "holds (cells h1) (fresh h) (fresh h1) (fresh h) r"
  using assms by (auto simp: grown_def in_array_def open_array_def parent_task_def linked_def)

text \<open>What the elements leave behind: the array is filled from index \<open>i\<close> on.\<close>

definition filled ::
    "redisReader \<Rightarrow> rheap \<Rightarrow> nat \<Rightarrow> nat \<Rightarrow> nat \<Rightarrow> robj \<Rightarrow> ptr list \<Rightarrow> redisReply list \<Rightarrow> redisReader \<Rightarrow> rheap \<Rightarrow> bool" where
  "filled S h k i p ob es rs S1 h1 \<longleftrightarrow>
     r_ridx S1 = int k \<and> r_pos S1 = r_pos S + length (concat (map encode_reply rs)) \<and>
     r_len S1 = r_len S \<and> r_buf S1 = r_buf S \<and> r_err S1 = r_err S \<and> length (r_rstack S1) = 9 \<and>
     (\<forall>j \<le> k. r_rstack S1 ! j = r_rstack S ! j) \<and> r_reply S1 = r_reply S \<and>
     allocates h1 \<and> fresh h \<le> fresh h1 \<and> (\<forall>a < fresh h. a \<noteq> p \<longrightarrow> cells h1 a = cells h a) \<and>
     (\<exists>es'. cells h1 p = Some (ob\<lparr>ob_element := Some es'\<rparr>) \<and> length es' = length es \<and>
        take i es' = take i es \<and> holds_all (cells h1) (fresh h) (fresh h1) (drop i es') rs)"

lemma nat_1_int: "nat (1 + int k) = Suc k"
  by simp

text \<open>One element, then the others.\<close>

lemma filled_Cons:
  assumes R1: "read_as S (Suc k) (encode_reply r) (fresh h) R1"
    and S': "r_pos S' = r_pos R1" "r_len S' = r_len R1" "r_buf S' = r_buf R1" "r_err S' = r_err R1"
      "r_reply S' = r_reply R1" "\<And>j. j \<le> k \<Longrightarrow> r_rstack S' ! j = r_rstack R1 ! j"
    and p: "p < fresh h" and il: "i < length es"
    and g: "\<And>a. a < fresh h \<Longrightarrow> a \<noteq> p \<Longrightarrow> cells h1 a = cells h a" "fresh h < fresh h1"
      "holds (cells h1) (fresh h) (fresh h1) (fresh h) r"
    and fill: "filled S' h1 k (i + 1) p (ob\<lparr>ob_element := Some (es[i := Some (fresh h)])\<rparr>)
        (es[i := Some (fresh h)]) rs S1 h2"
  shows "filled S h k i p ob es (r # rs) S1 h2"
proof -
  let ?es = "es[i := Some (fresh h)]"
  obtain es' where es': "cells h2 p = Some (ob\<lparr>ob_element := Some es'\<rparr>)" "length es' = length es"
      "take (i + 1) es' = take (i + 1) ?es" "holds_all (cells h2) (fresh h1) (fresh h2) (drop (i + 1) es') rs"
    using fill by (auto simp: filled_def)
  have h2: "cells h2 a = cells h1 a" if "a < fresh h1" "a \<noteq> p" for a
    using fill that by (simp add: filled_def)
  have grow: "fresh h1 \<le> fresh h2" using fill by (simp add: filled_def)
  have "es' ! i = take (i + 1) es' ! i" by simp
  also have "\<dots> = Some (fresh h)" unfolding es'(3) using il by simp
  finally have drop: "drop i es' = Some (fresh h) # drop (i + 1) es'"
    using il es'(2) by (simp add: Cons_nth_drop_Suc [symmetric])
  have "take i es' = take i (take (i + 1) es')" by (simp add: min_def)
  also have "\<dots> = take i es" unfolding es'(3) by (simp add: min_def)
  finally have take: "take i es' = take i es" .
  have "holds (cells h2) (fresh h) (fresh h1) (fresh h) r"
    by (rule holds_cong(1) [OF g(3)]) (use h2 p in auto)
  then have "holds_all (cells h2) (fresh h) (fresh h2) (drop i es') (r # rs)"
    unfolding drop using es'(4) g(2) grow by auto
  moreover have "cells h2 a = cells h a" if "a < fresh h" "a \<noteq> p" for a
    using h2 [of a] g(1) [of a] g(2) that by simp
  moreover have "\<forall>j \<le> k. r_rstack S1 ! j = r_rstack S ! j"
    using fill R1 S'(6) by (simp add: filled_def read_as_def)
  ultimately show ?thesis
    using fill R1 S' es' take g(2) grow by (auto simp: filled_def read_as_def)
qed

lemma reads_all:
  assumes "\<And>r. r \<in> set rs \<Longrightarrow> reads r \<and> Suc k + reply_depth r \<le> 8 \<and> reply_ok r"
    and "in_array S k n i p" and "open_array h p ob es" and "length es = n"
    and "i + length rs = n" and "rs \<noteq> []" and "avail S (concat (map encode_reply rs))"
  shows "\<exists>S1 h1. process_loop dF S h = obind (moveToNextTask S1) (\<lambda>R2. process_loop dF R2 h1) \<and>
     filled S h k i p ob es rs S1 h1"
  using assms
proof (induction rs arbitrary: S h i ob es)
  case (Cons r rs)
  note S = Cons.prems(2) and h = Cons.prems(3) and len = Cons.prems(4,5)
  let ?es = "es[i := Some (fresh h)]" and ?ob = "ob\<lparr>ob_element := Some (es[i := Some (fresh h)])\<rparr>"
  have il: "i < length es" using len by simp
  have av: "avail S (encode_reply r @ concat (map encode_reply rs))" using Cons.prems(7) by simp
  have "reads r" "Suc k + reply_depth r \<le> 8" "reply_ok r" using Cons.prems(1) by auto
  then obtain R1 h1 where loop: "process_loop dF S h = obind (moveToNextTask R1) (\<lambda>R2. process_loop dF R2 h1)"
    and R1: "read_as S (Suc k) (encode_reply r) (fresh h) R1"
    and g: "grown h (r_rstack S ! Suc k) (parent_task S (r_rstack S ! Suc k)) r h1"
    using in_array_ready [OF S h il] avail_prefix [OF av] unfolding reads_def by blast
  note g = grown_element [OF S h g]
  have low: "r_rstack R1 ! j = r_rstack S ! j" if "j \<le> k" for j
    using R1 that by (simp add: read_as_def)
  have cur: "t_idx (r_rstack R1 ! Suc k) = int i" "r_ridx R1 = int (Suc k)"
      "t_parent (r_rstack R1 ! Suc k) = Some k" "length (r_rstack R1) = 9"
    using R1 S by (auto simp: read_as_def in_array_def)
  have prv: "t_type (r_rstack R1 ! k) = REDIS_REPLY_ARRAY" "t_elements (r_rstack R1 ! k) = int n"
    using low [of k] S by (auto simp: in_array_def)
  show ?case
  proof (cases rs)
    case Nil
    let ?S1 = "R1\<lparr>r_ridx := int k\<rparr>"
    have "moveToNextTask R1 = moveToNextTask ?S1"
      using cur prv len Nil by (subst moveToNextTask.simps) (simp add: Let_def nat_1_int)
    moreover have "filled S h k i p ob es [r] ?S1 h1"
    proof -
      have "drop i ?es = [Some (fresh h)]" using len Nil il by (simp add: Cons_nth_drop_Suc [symmetric])
      then show ?thesis
        using R1 g low il by (auto simp: filled_def read_as_def open_array_def intro!: exI [of _ ?es] bexI [of _ "fresh h1"])
    qed
    ultimately show ?thesis using loop Nil by auto
  next
    case (Cons r2 rs2)
    let ?T = "(r_rstack R1 ! Suc k)\<lparr>t_type := -1, t_elements := -1, t_idx := int i + 1\<rparr>"
    let ?S' = "set_task (Suc k) ?T R1"
    have "moveToNextTask R1 = Ok ?S'"
      using cur prv len Cons by (subst moveToNextTask.simps) (simp add: Let_def nat_1_int)
    then have loop': "process_loop dF S h = process_loop dF ?S' h1" using loop by simp
    have "in_array ?S' k n (i + 1) p"
      using S cur low [of k] prv by (simp add: in_array_def set_task_def)
    moreover have "avail ?S' (concat (map encode_reply rs))"
      using avail_suffix [OF av] by (rule avail_cong) (use R1 in \<open>auto simp: read_as_def\<close>)
    ultimately obtain S1 h2 where
      IH: "process_loop dF ?S' h1 = obind (moveToNextTask S1) (\<lambda>R2. process_loop dF R2 h2)"
      and fill: "filled ?S' h1 k (i + 1) p ?ob ?es rs S1 h2"
      using Cons.IH [of ?S' "i + 1" h1 ?ob ?es] Cons.prems(1) g(1) len Cons by auto
    have "filled S h k i p ob es (r # rs) S1 h2"
      by (rule filled_Cons [OF R1 _ _ _ _ _ _ _ il g(2,3,4) fill])
         (use h in \<open>auto simp: open_array_def set_task_def\<close>)
    then show ?thesis using loop' IH by auto
  qed
qed simp

section \<open>Arrays\<close>

lemma to_int_of_nat:
  assumes "n < 2 ^ 31"
  shows "to_int (of_nat n) = int n"
proof -
  have "take_bit 64 n = n" using assms by (simp add: take_bit_nat_eq_self)
  then have "(ucast (of_nat n :: clong) :: cint) = of_nat n" by (simp add: unsigned_of_nat)
  moreover have "sint (of_nat n :: cint) = int n"
    using assms
    by (simp add: sint_uint unsigned_of_nat take_bit_int_eq_self signed_take_bit_int_eq_self of_nat_take_bit)
  ultimately show ?thesis by (simp add: to_int_def)
qed

text \<open>The header of an array, up to what follows the creation of its object.\<close>

definition head_read :: "redisReader \<Rightarrow> nat \<Rightarrow> nat \<Rightarrow> redisReader" where
  "head_read R k n = (typed R k REDIS_REPLY_ARRAY)\<lparr>r_pos := r_pos R + (1 + (length (dec n) + 2))\<rparr>"

lemma head_read_fields [simp]:
  "r_ridx (head_read R k n) = r_ridx R" "r_len (head_read R k n) = r_len R"
  "r_buf (head_read R k n) = r_buf R" "r_reply (head_read R k n) = r_reply R"
  "r_err (head_read R k n) = r_err R"
  "r_pos (head_read R k n) = r_pos R + (1 + (length (dec n) + 2))"
  by (simp_all add: head_read_def)

lemma process_array_head:
  assumes R: "ready R k h" and k: "k \<noteq> 8" and n: "n < 2 ^ 31"
    and av: "avail R (CHR ''*'' # (dec n @ crlf) @ x)"
  shows "\<exists>h1. processItem dF R h = multi_done dF (head_read R k n) (of_nat n) (Some (fresh h)) h1 \<and>
     created (r_rstack R ! k) (parent_task R (r_rstack R ! k))
       \<lparr>ob_type = REDIS_REPLY_ARRAY, ob_integer = 0, ob_str = None, ob_elements = of_nat n,
        ob_element = (if n > 0 then Some (replicate n None) else None)\<rparr> h (Ok (Some (fresh h), h1)) \<and>
     avail (head_read R k n) x"
proof -
  let ?T = "typed R k REDIS_REPLY_ARRAY"
  let ?ob = "\<lparr>ob_type = REDIS_REPLY_ARRAY, ob_integer = 0, ob_str = None, ob_elements = of_nat n,
        ob_element = (if n > 0 then Some (replicate n None) else None)\<rparr>"
  have c: "type_of_byte CHR ''*'' = Some REDIS_REPLY_ARRAY" by (simp add: type_of_byte_def)
  note typed = processItem_typed [OF R av c]
  have "avail ?T (dec n @ crlf)" using avail_prefix [OF typed(2)] .
  then obtain t where line: "readLine ?T = Ok (Some (dec n @ CR # LF # t, length (dec n), head_read R k n))"
    using readLine_avail [OF _ CR_not_dec] by (fastforce simp: head_read_def)
  have sn: "sint (of_nat n :: clong) = int n" using n by (simp add: of_nat_sint)
  then have ne: "(of_nat n :: clong) \<noteq> -1" by auto
  have par: "parent_task (head_read R k n) ((r_rstack R ! k)\<lparr>t_type := REDIS_REPLY_ARRAY\<rparr>) =
      parent_task R (r_rstack R ! k)"
    and cur: "cur_task (head_read R k n) = (r_rstack R ! k)\<lparr>t_type := REDIS_REPLY_ARRAY\<rparr>"
    using typed_cur [OF R, of REDIS_REPLY_ARRAY] by (simp_all add: head_read_def parent_task_def cur_task_def)
  have "created ((r_rstack R ! k)\<lparr>t_type := REDIS_REPLY_ARRAY\<rparr>) (parent_task R (r_rstack R ! k)) ?ob h
      (createArrayObject ((r_rstack R ! k)\<lparr>t_type := REDIS_REPLY_ARRAY\<rparr>) (parent_task R (r_rstack R ! k)) (int n) h)"
    using createArrayObject_created [OF ready_allocates [OF R],
        of "(r_rstack R ! k)\<lparr>t_type := REDIS_REPLY_ARRAY\<rparr>" "parent_task R (r_rstack R ! k)" "int n"] ready_linkable [OF R]
    by (cases "n = 0") simp_all
  then obtain h1 where h1: "createArrayObject ((r_rstack R ! k)\<lparr>t_type := REDIS_REPLY_ARRAY\<rparr>)
        (parent_task R (r_rstack R ! k)) (int n) h = Ok (Some (fresh h), h1)"
    and cr: "created (r_rstack R ! k) (parent_task R (r_rstack R ! k)) ?ob h (Ok (Some (fresh h), h1))"
    by (auto simp: created_def)
  have "processItem dF R h = multi_done dF (head_read R k n) (of_nat n) (Some (fresh h)) h1"
    using R k line par cur h1 ne to_int_of_nat [OF n] typed_cur [OF R, of REDIS_REPLY_ARRAY]
    by (simp add: typed(1) processTyped_def processMultiBulkItem_def readLongLong_dec ready_def)
       (simp add: reply_types)
  moreover have "avail (head_read R k n) x"
    using avail_suffix [OF typed(2)] by (rule avail_cong) (simp_all add: head_read_def crlf_def)
  ultimately show ?thesis using cr by blast
qed

lemma push_entered:
  assumes "ready R k h" and "k \<le> 7"
  shows "r_rstack (push_task (head_read R k n) e (Some p)) ! Suc k =
      (r_rstack R ! Suc k)\<lparr>t_type := -1, t_elements := -1, t_idx := 0, t_obj := None, t_parent := Some k,
        t_privdata := r_privdata R\<rparr>"
    and "r_rstack (push_task (head_read R k n) e (Some p)) ! k =
      (r_rstack R ! k)\<lparr>t_type := REDIS_REPLY_ARRAY, t_elements := e, t_obj := Some p\<rparr>"
    and "i < k \<Longrightarrow> r_rstack (push_task (head_read R k n) e (Some p)) ! i = r_rstack R ! i"
    and "length (r_rstack (push_task (head_read R k n) e (Some p))) = 9"
    and "r_err (push_task (head_read R k n) e (Some p)) = r_err R"
    and "r_reply (push_task (head_read R k n) e (Some p)) = r_reply R"
  using assms by (auto simp: push_task_def set_task_def head_read_def typed_def ready_def Let_def nth_list_update)

lemma reads_array:
  assumes elems: "\<And>r. r \<in> set rs \<Longrightarrow> reads r"
  shows "reads (Reply_Array rs)"
  unfolding reads_def
proof (intro allI impI)
  fix R h k
  let ?n = "length rs" and ?x = "encode_reply (Reply_Array rs)"
  let ?task = "r_rstack R ! k" and ?par = "parent_task R (r_rstack R ! k)"
  let ?H = "head_read R k (length rs)"
  let ?ob = "\<lparr>ob_type = REDIS_REPLY_ARRAY, ob_integer = 0, ob_str = None, ob_elements = of_nat ?n,
        ob_element = (if ?n > 0 then Some (replicate ?n None) else None)\<rparr>"
  assume R: "ready R k h" and depth: "k + reply_depth (Reply_Array rs) \<le> 8"
    and ok: "reply_ok (Reply_Array rs)" and av: "avail R ?x"
  have k8: "k \<noteq> 8" and n31: "?n < 2 ^ 31" using depth ok by auto
  obtain h1 where item: "processItem dF R h = multi_done dF ?H (of_nat ?n) (Some (fresh h)) h1"
    and cr: "created ?task ?par ?ob h (Ok (Some (fresh h), h1))"
    and avH: "avail ?H (concat (map encode_reply rs))"
    using process_array_head [OF R k8 n31, of "concat (map encode_reply rs)"] av by auto
  have sn: "sint (of_nat ?n :: clong) = int ?n" using n31 by (simp add: of_nat_sint)
  then have ne: "(of_nat ?n :: clong) \<noteq> -1" by auto
  show "\<exists>R1 h1. process_loop dF R h = obind (moveToNextTask R1) (\<lambda>R2. process_loop dF R2 h1) \<and>
     read_as R k ?x (fresh h) R1 \<and> grown h ?task ?par (Reply_Array rs) h1"
  proof (cases "rs = []")
    case True
    have "multi_done dF ?H (of_nat ?n) (Some (fresh h)) h1 = item_done dF ?H (Some (fresh h)) h1"
      using True R by (simp add: multi_done_def item_done_def Let_def moveToNextTask.simps ready_def head_read_def)
    then have "processItem dF R h =
        item_done dF ((typed R k REDIS_REPLY_ARRAY)\<lparr>r_pos := r_pos R + length ?x\<rparr>) (Some p) h'"
      if "Ok (Some (fresh h), h1) = (Ok (Some p, h') :: (ptr \<times> rheap) outcome)" for p h'
      using item that True by (simp add: head_read_def crlf_def)
    then show ?thesis
      by (rule reads_leaf [OF R _ refl refl cr]) (use True in \<open>simp_all add: reply_types\<close>)
  next
    case False
    then have pos: "0 < ?n" by simp
    let ?S = "let S = push_task ?H (int ?n) (Some (fresh h)) in if k = 0 then S\<lparr>r_reply := Some (fresh h)\<rparr> else S"
    have "processItem dF R h = Ok (True, ?S, h1)"
      using item pos ne sn n31 R
      by (simp add: multi_done_def to_int_of_nat head_read_def ready_def Let_def)
    then have loop: "process_loop dF R h = process_loop dF ?S h1"
      using R by (subst process_loop.simps) (simp add: ready_def)
    have k7: "k \<le> 7" using depth by simp
    note fields = push_entered [OF R k7, where n = ?n and p = "fresh h" and e = "int ?n"]
    have in_arr: "in_array ?S k ?n 0 (fresh h)"
      using fields k7 R by (auto simp: in_array_def Let_def ready_def)
    have h1: "allocates h1" "fresh h1 = fresh h + 1"
      "cells h1 (fresh h) = Some ?ob" "\<And>a. a < fresh h \<Longrightarrow> cells h1 a = linked ?task ?par (fresh h) (cells h) a"
      using cr linked_fresh [OF ready_linkable [OF R]] by (auto simp: created_def)
    have arr: "open_array h1 (fresh h) ?ob (replicate ?n None)"
      using h1 pos by (simp add: open_array_def)
    have avS: "avail ?S (concat (map encode_reply rs))"
      using avH by (rule avail_cong) (simp_all add: Let_def)
    have el: "reads r \<and> Suc k + reply_depth r \<le> 8 \<and> reply_ok r" if "r \<in> set rs" for r
      using elems [OF that] depth_element [OF that] depth ok that by (auto simp: list_all_iff)
    obtain S1 h2 where S1: "process_loop dF ?S h1 = obind (moveToNextTask S1) (\<lambda>R2. process_loop dF R2 h2)"
      and fill: "filled ?S h1 k 0 (fresh h) ?ob (replicate ?n None) rs S1 h2"
      using reads_all [of rs, OF el in_arr arr _ _ False avS] by auto
    have "read_as R k ?x (fresh h) S1"
      using fill fields R by (auto simp: filled_def read_as_def ready_def Let_def head_read_def crlf_def)
    moreover have "grown h ?task ?par (Reply_Array rs) h2"
    proof -
      obtain es' where es': "cells h2 (fresh h) = Some (?ob\<lparr>ob_element := Some es'\<rparr>)"
          "holds_all (cells h2) (fresh h1) (fresh h2) es' rs"
        using fill by (auto simp: filled_def)
      have "holds_all (cells h2) (fresh h + 1) (fresh h2) es' rs"
        using es'(2) by (simp add: h1(2))
      then show ?thesis
        using fill h1 es'(1) False by (auto simp: grown_def filled_def)
    qed
    ultimately show ?thesis using loop S1 by metis
  qed
qed

theorem reads_reply: "reads r"
proof (induction r)
  case (Reply_Array rs)
  then show ?case by (rule reads_array)
qed (simp_all add: reads_bulk reads_integer reads_nil reads_status reads_error)

section \<open>The reader API\<close>

text \<open>The unread input of a reader whose buffer is sound.\<close>

definition buffer_ok :: "redisReader \<Rightarrow> bool" where
  "buffer_ok R \<longleftrightarrow>
     (case r_buf R of None \<Rightarrow> False | Some s \<Rightarrow> wf_sds s \<and> sds_len s = r_len R \<and> r_pos R \<le> r_len R)"

definition unread :: "redisReader \<Rightarrow> string" where
  "unread R = (case r_buf R of None \<Rightarrow> [] | Some s \<Rightarrow> drop (r_pos R) (sds_val s))"

lemma buffer_input:
  assumes "buffer_ok R"
  obtains g where "read_ptr R = Ok (unread R @ NUL # g)" and "r_len R - r_pos R = length (unread R)"
    and "r_pos R \<le> r_len R"
proof -
  obtain s where s: "r_buf R = Some s" "wf_sds s" "sds_len s = r_len R" "r_pos R \<le> r_len R"
    using assms by (auto simp: buffer_ok_def split: option.split_asm)
  have "sds_buf s = sds_val s @ NUL # drop (Suc (sds_len s)) (sds_buf s)"
    using s(2) id_take_nth_drop [of "sds_len s" "sds_buf s"] by (simp add: wf_sds_def sds_val_def)
  then have "drop (r_pos R) (sds_buf s) = drop (r_pos R) (sds_val s @ NUL # drop (Suc (sds_len s)) (sds_buf s))" by simp
  also have "\<dots> = unread R @ NUL # drop (Suc (sds_len s)) (sds_buf s)"
    using s by (simp add: unread_def)
  finally show ?thesis
    using s by (intro that [of "drop (Suc (sds_len s)) (sds_buf s)"]) (simp_all add: read_ptr_def unread_def)
qed

lemma avail_unread:
  assumes "buffer_ok R" and "unread R = x @ y"
  shows "avail R x"
proof -
  obtain g where "read_ptr R = Ok (unread R @ NUL # g)" "r_len R - r_pos R = length (unread R)" "r_pos R \<le> r_len R"
    using buffer_input [OF assms(1)] .
  then show ?thesis using assms(2) by (auto simp: avail_def)
qed

text \<open>A reader between two replies, with the bytes \<open>u\<close> not yet read.\<close>

definition idle :: "redisReader \<Rightarrow> string \<Rightarrow> bool" where
  "idle R u \<longleftrightarrow>
     r_err R = 0 \<and> r_ridx R = -1 \<and> length (r_rstack R) = 9 \<and> r_reply R = None \<and>
     (case r_buf R of None \<Rightarrow> False
      | Some s \<Rightarrow> wf_sds s \<and> sds_len s = r_len R \<and> r_pos R \<le> r_len R \<and> drop (r_pos R) (sds_val s) = u)"

lemma idle_unread:
  "idle R u \<longleftrightarrow> r_err R = 0 \<and> r_ridx R = -1 \<and> length (r_rstack R) = 9 \<and> r_reply R = None \<and>
     buffer_ok R \<and> unread R = u"
  by (auto simp: idle_def buffer_ok_def unread_def split: option.splits)

lemma slice_drop: "0 < n \<Longrightarrow> n \<le> length v \<Longrightarrow> slice (int n) (-1) v = drop n v"
  by (auto simp: slice_def Let_def max_def min_def)

lemma cut_buffer_unread:
  assumes "buffer_ok R"
  shows "buffer_ok (cut_buffer R) \<and> unread (cut_buffer R) = unread R"
proof -
  obtain s where s: "r_buf R = Some s" "wf_sds s" "sds_len s = r_len R" "r_pos R \<le> r_len R"
    using assms by (auto simp: buffer_ok_def split: option.split_asm)
  show ?thesis
  proof (cases "r_pos R \<ge> 1024")
    case True
    let ?s' = "sdsrange s (int (r_pos R)) (-1)"
    have "wf_sds ?s'" "sds_val ?s' = drop (r_pos R) (sds_val s)"
      using sdsrange_spec [OF s(2), of "int (r_pos R)" "-1"] slice_drop [of "r_pos R" "sds_val s"] s True
      by auto
    then show ?thesis
      using True s(1) by (simp add: cut_buffer_def buffer_ok_def unread_def Let_def sdslen_def)
  qed (use assms in \<open>simp add: cut_buffer_def\<close>)
qed

lemma cut_buffer_frame [simp]:
  "r_err (cut_buffer R) = r_err R" "r_ridx (cut_buffer R) = r_ridx R" "r_rstack (cut_buffer R) = r_rstack R"
  "r_reply (cut_buffer R) = r_reply R" "r_privdata (cut_buffer R) = r_privdata R"
  by (simp_all add: cut_buffer_def Let_def split: option.split)

text \<open>A reader at the start of a reply, and one that has just read one.\<close>

definition started :: "redisReader \<Rightarrow> string \<Rightarrow> bool" where
  "started R u \<longleftrightarrow>
     r_err R = 0 \<and> r_ridx R = 0 \<and> length (r_rstack R) = 9 \<and> buffer_ok R \<and> unread R = u \<and>
     t_type (r_rstack R ! 0) = -1 \<and> t_parent (r_rstack R ! 0) = None"

definition read_off :: "rheap \<Rightarrow> redisReply \<Rightarrow> string \<Rightarrow> redisReader \<Rightarrow> rheap \<Rightarrow> bool" where
  "read_off h0 r rest R h \<longleftrightarrow>
     r_err R = 0 \<and> r_ridx R = -1 \<and> length (r_rstack R) = 9 \<and> buffer_ok R \<and> unread R = rest \<and>
     r_reply R = Some (fresh h0) \<and> allocates h \<and> fresh h0 < fresh h \<and>
     (\<forall>a < fresh h0. cells h a = cells h0 a) \<and> holds (cells h) (fresh h0) (fresh h) (fresh h0) r"

lemma start_task_idle: "idle R u \<Longrightarrow> started (start_task R) u"
  by (auto simp: idle_unread started_def start_task_def set_task_def buffer_ok_def unread_def split: option.splits)

lemma loop_reads:
  assumes R: "started R (encode_reply r @ rest)" and h: "allocates h"
    and ok: "reply_ok r" and depth: "reply_depth r \<le> 8"
  shows "\<exists>R1 h1. process_loop dF R h = Ok (R1, h1) \<and> read_off h r rest R1 h1"
proof -
  let ?x = "encode_reply r"
  have av: "avail R ?x" using R avail_unread by (auto simp: started_def)
  have "ready R 0 h" using R h by (simp add: started_def ready_def linkable_def parent_task_def)
  then obtain R1 h1 where loop: "process_loop dF R h = obind (moveToNextTask R1) (\<lambda>R2. process_loop dF R2 h1)"
    and R1: "read_as R 0 ?x (fresh h) R1"
    and g: "grown h (r_rstack R ! 0) (parent_task R (r_rstack R ! 0)) r h1"
    using reads_reply [of r, unfolded reads_def, rule_format, of R 0 h] av ok depth by auto
  have "moveToNextTask R1 = Ok (R1\<lparr>r_ridx := -1\<rparr>)"
    using R1 by (simp add: moveToNextTask.simps read_as_def)
  then have result: "process_loop dF R h = Ok (R1\<lparr>r_ridx := -1\<rparr>, h1)"
    using loop by (simp add: process_loop.simps)
  obtain s where s: "r_buf R = Some s" "wf_sds s" "sds_len s = r_len R" "r_pos R \<le> r_len R"
      "drop (r_pos R) (sds_val s) = ?x @ rest"
    using R by (auto simp: started_def buffer_ok_def unread_def split: option.split_asm)
  have "drop (r_pos R + length ?x) (sds_val s) = drop (length ?x) (drop (r_pos R) (sds_val s))"
    by (simp add: add.commute)
  then have "drop (r_pos R + length ?x) (sds_val s) = rest" using s(5) by simp
  moreover have "r_pos R + length ?x \<le> r_len R" using av by (simp add: avail_def)
  ultimately have "read_off h r rest (R1\<lparr>r_ridx := -1\<rparr>) h1"
    using R R1 s g
    by (auto simp: read_off_def started_def read_as_def buffer_ok_def unread_def grown_def linked_def parent_task_def)
  then show ?thesis using result by blast
qed

text \<open>What a caller sees of one reply.\<close>

lemma getReply_done:
  assumes "r_err R = 0" and "r_len R \<noteq> 0" and "process_loop dF (start_task R) h = Ok (R1, h1)" and "read_off h0 r rest R1 h1"
  shows "\<exists>R'. redisReaderGetReply dF R h = Ok (True, Some (fresh h0), R', h1) \<and> idle R' rest"
proof -
  let ?R' = "(cut_buffer R1)\<lparr>r_reply := None\<rparr>"
  have "buffer_ok ?R' = buffer_ok (cut_buffer R1)" "unread ?R' = unread (cut_buffer R1)"
    by (simp_all add: buffer_ok_def unread_def split: option.split)
  then have "idle ?R' rest" using assms(4) cut_buffer_unread [of R1] by (simp add: idle_unread read_off_def)
  moreover have "redisReaderGetReply dF R h = Ok (True, Some (fresh h0), ?R', h1)"
    using assms by (simp add: redisReaderGetReply_def read_off_def Let_def)
  ultimately show ?thesis by blast
qed

lemma unread_len: "unread R \<noteq> [] \<Longrightarrow> buffer_ok R \<Longrightarrow> r_len R \<noteq> 0"
  by (auto simp: buffer_ok_def unread_def wf_sds_def sds_val_def split: option.splits)

lemma encode_reply_nonempty: "encode_reply r \<noteq> []"
  by (cases r) auto

lemma getReply_reads:
  assumes R: "idle R (encode_reply r @ rest)" and h: "allocates h"
    and ok: "reply_ok r" and depth: "reply_depth r \<le> 8"
  shows "\<exists>R' h'. redisReaderGetReply dF R h = Ok (True, Some (fresh h), R', h') \<and> idle R' rest \<and>
     allocates h' \<and> fresh h < fresh h' \<and> (\<forall>a < fresh h. cells h' a = cells h a) \<and>
     holds (cells h') (fresh h) (fresh h') (fresh h) r"
proof -
  obtain R1 h1 where 1: "process_loop dF (start_task R) h = Ok (R1, h1)" "read_off h r rest R1 h1"
    using loop_reads [OF start_task_idle [OF R] h ok depth] by blast
  have "r_len R \<noteq> 0" using R unread_len [of R] encode_reply_nonempty by (simp add: idle_unread)
  from getReply_done [OF _ this 1] R 1(2) show ?thesis by (auto simp: idle_unread read_off_def)
qed

lemma idle_create:
  assumes "redisReaderCreateWithFunctions m = Some R"
  shows "idle R []"
  using assms sdsempty_spec [of m]
  by (auto simp: redisReaderCreateWithFunctions_def idle_def wf_sds_def sds_val_def split: option.split_asm)

lemma feed_unread:
  assumes R: "buffer_ok R" "r_err R = 0" and m: "\<not> mem_fails m"
  shows "\<exists>R'. redisReaderFeed m fn R h (Some data) (length data) = Ok (True, R', h) \<and> buffer_ok R' \<and>
     unread R' = unread R @ data \<and> r_err R' = 0 \<and> r_ridx R' = r_ridx R \<and> r_rstack R' = r_rstack R \<and>
     r_reply R' = r_reply R \<and> r_privdata R' = r_privdata R"
proof -
  let ?n = "length data"
  obtain s where s: "r_buf R = Some s" "wf_sds s" "sds_len s = r_len R" "r_pos R \<le> r_len R"
    using R by (auto simp: buffer_ok_def split: option.split_asm)
  let ?like = "\<lambda>R'. r_err R' = 0 \<and> r_ridx R' = r_ridx R \<and> r_rstack R' = r_rstack R \<and>
     r_reply R' = r_reply R \<and> r_privdata R' = r_privdata R"
  have append: "\<exists>R'. (case sdscatlen m s1 data ?n of
             None \<Rightarrow> obind (redisReaderSetErrorOOM fn R1 h) (\<lambda>(r', h'). Ok (False, r', h'))
           | Some newbuf \<Rightarrow> Ok (True, R1\<lparr>r_buf := Some newbuf, r_len := sdslen newbuf\<rparr>, h)) = Ok (True, R', h)
         \<and> buffer_ok R' \<and> unread R' = unread R1 @ data \<and> ?like R'"
    if R1: "buffer_ok R1" "r_buf R1 = Some s1" "?like R1" for s1 R1
  proof -
    have s1: "wf_sds s1" "sds_len s1 = r_len R1" "r_pos R1 \<le> r_len R1"
      using R1 by (auto simp: buffer_ok_def)
    obtain s' where s': "sdscatlen m s1 data ?n = Some s'" using sdscatlen_None m by (cases "sdscatlen m s1 data ?n") blast+
    have "wf_sds s'" "sds_val s' = sds_val s1 @ data"
      using sdscatlen_spec [OF s' s1(1)] by auto
    moreover from this have "sds_len s' = r_len R1 + length data"
      using length_sds_val [of s'] s1(1,2) by simp
    ultimately show ?thesis using s' R1 s1 by (simp add: buffer_ok_def unread_def sdslen_def)
  qed
  show ?thesis
  proof (cases "?n < 1")
    case True
    then show ?thesis using R by (simp add: redisReaderFeed_def)
  next
    case False
    show ?thesis
    proof (cases "r_len R = 0 \<and> r_maxbuf R \<noteq> 0 \<and> sdsavail s > r_maxbuf R")
      case True
      obtain e where e: "sdsempty m = Some e" using sdsempty_None m by (cases "sdsempty m") blast+
      have "length (sds_val s) = 0" using s(2,3) True by simp
      then have "unread R = []" using s(1) by (simp add: unread_def)
      moreover have "buffer_ok (R\<lparr>r_buf := Some e, r_pos := 0\<rparr>)" "unread (R\<lparr>r_buf := Some e, r_pos := 0\<rparr>) = []"
        using sdsempty_spec [OF e] True by (auto simp: buffer_ok_def unread_def wf_sds_def sds_val_def)
      ultimately show ?thesis
        using append [of "R\<lparr>r_buf := Some e, r_pos := 0\<rparr>" e] False R s(1) True e by (simp add: redisReaderFeed_def)
    next
      case no: False
      have err: "\<not> r_err R \<noteq> 0" using R by simp
      from append [OF R(1) s(1)] show ?thesis
        unfolding redisReaderFeed_def if_not_P [OF err]
        using False s(1) no err by (simp, elim disjE) simp_all
    qed
  qed
qed

lemma idle_feed:
  assumes R: "idle R u" and m: "\<not> mem_fails m" and n: "n = length data"
  shows "\<exists>R'. redisReaderFeed m fn R h (Some data) n = Ok (True, R', h) \<and> idle R' (u @ data)"
  using feed_unread [of R m fn h data] assms by (auto simp: idle_unread)

section \<open>Freeing a reply\<close>

text \<open>\<open>freeReplyObject\<close> frees a reply that \<open>holds\<close>, and touches no cell outside its range.\<close>

definition frees :: "nat \<Rightarrow> nat \<Rightarrow> rheap \<Rightarrow> rheap outcome \<Rightarrow> bool" where
  "frees lo hi h res \<longleftrightarrow>
     (\<exists>c'. res = Ok (h\<lparr>cells := c'\<rparr>) \<and> (\<forall>a. a < lo \<or> hi \<le> a \<longrightarrow> c' a = cells h a))"

lemma frees_same: "frees lo hi h (Ok h)"
  unfolding frees_def by (rule exI [of _ "cells h"]) simp

lemma frees_one:
  assumes "frees (p + 1) hi h res" and "lo \<le> p" and "p < hi"
  shows "frees lo hi h (obind res (\<lambda>h'. Ok (h'\<lparr>cells := (cells h')(p := None)\<rparr>)))"
  using assms by (auto simp: frees_def)

lemma free_leaf:
  assumes "cells h p = Some ob" and "ob_type ob \<noteq> REDIS_REPLY_ARRAY" and "lo \<le> p" and "p < hi" and "hi - lo \<le> n"
  shows "frees lo hi h (free_obj n (Some p) h)"
proof -
  obtain n' where "n = Suc n'" using assms(3-5) by (cases n) auto
  then show ?thesis using assms by (auto simp: frees_def)
qed

lemma holds_all_length: "holds_all c lo hi es rs \<Longrightarrow> length es = length rs"
proof (induction es arbitrary: lo rs)
  case Nil
  then show ?case by (cases rs) auto
next
  case (Cons e es)
  then show ?case by (cases rs; cases e) auto
qed

lemma free_holds:
  "holds c lo hi p r \<Longrightarrow> reply_ok r \<Longrightarrow> hi - lo \<le> n \<Longrightarrow> (\<And>a. lo \<le> a \<Longrightarrow> a < hi \<Longrightarrow> cells h a = c a) \<Longrightarrow>
     frees lo hi h (free_obj n (Some p) h)"
  "holds_all c lo hi es rs \<Longrightarrow> list_all reply_ok rs \<Longrightarrow> hi - lo \<le> n \<Longrightarrow>
     (\<And>a. lo \<le> a \<Longrightarrow> a < hi \<Longrightarrow> cells h a = c a) \<Longrightarrow> frees lo hi h (free_all n es h)"
proof (induction c lo hi p r and c lo hi es rs arbitrary: n h and n h rule: holds_holds_all.induct)
  case (1 c lo hi p rs)
  then obtain ob where ob: "lo \<le> p" "p < hi" "cells h p = Some ob" "c p = Some ob" "ob_type ob = REDIS_REPLY_ARRAY"
      "ob_elements ob = of_nat (length rs)"
      "case ob_element ob of None \<Rightarrow> rs = [] | Some es \<Rightarrow> rs \<noteq> [] \<and> holds_all c (p + 1) hi es rs"
    by (auto split: option.splits)
  obtain n' where n: "n = Suc n'" "hi - (p + 1) \<le> n'" using ob(1,2) "1.prems"(3) by (cases n) auto
  show ?case
  proof (cases "ob_element ob")
    case None
    have "frees (p + 1) hi h (Ok h)" by (rule frees_same)
    from frees_one [OF this ob(1,2)] show ?thesis using n(1) ob(3,5) None by simp
  next
    case (Some es)
    have all: "holds_all c (p + 1) hi es rs" using ob(7) Some by simp
    have len: "length es = length rs" using all by (rule holds_all_length)
    have "length rs < 2 ^ 31" using "1.prems"(2) by simp
    then have "unat (ob_elements ob) = length rs" using ob(6) by (simp add: unat_of_nat)
    moreover have "frees (p + 1) hi h (free_all n' es h)"
      by (rule 1(1) [OF ob(4) Some _ _ n(2)]) (use 1 ob all in auto)
    ultimately have "frees (p + 1) hi h (free_all n' (take (unat (ob_elements ob)) es) h)" using len by simp
    from frees_one [OF this ob(1,2)] show ?thesis using n(1) ob(3,5) Some by simp
  qed
next
  case (8 c lo hi p es r rs)
  then obtain mid where mid: "lo \<le> mid" "mid \<le> hi" "holds c lo mid p r" "holds_all c mid hi es rs" by auto
  have "frees lo mid h (free_obj n (Some p) h)"
    by (rule "8.IH"(1) [of mid]) (use "8.prems" mid in auto)
  then obtain c1 where c1: "free_obj n (Some p) h = Ok (h\<lparr>cells := c1\<rparr>)"
      "\<And>a. a < lo \<or> mid \<le> a \<Longrightarrow> c1 a = cells h a" by (auto simp: frees_def)
  have "frees mid hi (h\<lparr>cells := c1\<rparr>) (free_all n es (h\<lparr>cells := c1\<rparr>))"
    by (rule "8.IH"(2) [of mid]) (use "8.prems" mid c1(2) in auto)
  then show ?case using c1 mid(1,2) by (auto simp: frees_def)
qed (auto intro: free_leaf simp: reply_types frees_same)

end
