(* ===== verification/ReaderProperties.thy ===== *)
theory ReaderProperties
  imports ReaderRoundTrip
begin

text \<open>
  The properties of the reply parser: replies fed in any number of pieces are returned one by one,
  requests written by the formatter are read back, integers are inverted, errors stay, and nesting is
  limited to eight levels of arrays.
\<close>

section \<open>Streams of replies\<close>

text \<open>A caller that feeds its input in pieces, and one that asks for replies \<open>n\<close> times.\<close>

fun feed_all :: "cmem \<Rightarrow> 'h fns \<Rightarrow> redisReader \<Rightarrow> 'h \<Rightarrow> string list \<Rightarrow> (redisReader \<times> 'h) outcome" where
  "feed_all m fn R h [] = Ok (R, h)"
| "feed_all m fn R h (x # xs) =
     obind (redisReaderFeed m fn R h (Some x) (length x)) (\<lambda>(_, R', h'). feed_all m fn R' h' xs)"

fun get_replies :: "nat \<Rightarrow> 'h fns \<Rightarrow> redisReader \<Rightarrow> 'h \<Rightarrow> (ptr list \<times> redisReader \<times> 'h) outcome" where
  "get_replies 0 fn R h = Ok ([], R, h)"
| "get_replies (Suc n) fn R h =
     obind (redisReaderGetReply fn R h) (\<lambda>(_, p, R1, h1).
     obind (get_replies n fn R1 h1) (\<lambda>(ps, R2, h2). Ok (p # ps, R2, h2)))"

lemma feed_all_idle:
  "idle R u \<Longrightarrow> \<not> mem_fails m \<Longrightarrow> \<exists>R'. feed_all m fn R h xs = Ok (R', h) \<and> idle R' (u @ concat xs)"
proof (induction xs arbitrary: R u)
  case (Cons x xs)
  obtain R1 where R1: "redisReaderFeed m fn R h (Some x) (length x) = Ok (True, R1, h)" "idle R1 (u @ x)"
    using idle_feed [where data = x and fn = fn and h = h, OF Cons.prems refl] by blast
  show ?case using Cons.IH [OF R1(2) Cons.prems(2)] R1(1) by auto
qed simp

lemma get_replies_reads:
  "idle R (concat (map encode_reply rs) @ rest) \<Longrightarrow> allocates h \<Longrightarrow>
   list_all (\<lambda>r. reply_ok r \<and> reply_depth r \<le> 8) rs \<Longrightarrow>
     \<exists>ps R' h'. get_replies (length rs) dF R h = Ok (ps, R', h') \<and> idle R' rest \<and> allocates h' \<and>
       fresh h \<le> fresh h' \<and> (\<forall>a < fresh h. cells h' a = cells h a) \<and>
       holds_all (cells h') (fresh h) (fresh h') ps rs"
proof (induction rs arbitrary: R h)
  case (Cons r rs)
  obtain R1 h1 where 1: "redisReaderGetReply dF R h = Ok (True, Some (fresh h), R1, h1)"
      "idle R1 (concat (map encode_reply rs) @ rest)" "allocates h1" "fresh h < fresh h1"
      "\<forall>a < fresh h. cells h1 a = cells h a" "holds (cells h1) (fresh h) (fresh h1) (fresh h) r"
    using getReply_reads [of R r "concat (map encode_reply rs) @ rest" h] Cons.prems by auto
  obtain ps R2 h2 where 2: "get_replies (length rs) dF R1 h1 = Ok (ps, R2, h2)" "idle R2 rest"
      "allocates h2" "fresh h1 \<le> fresh h2" "\<forall>a < fresh h1. cells h2 a = cells h1 a"
      "holds_all (cells h2) (fresh h1) (fresh h2) ps rs"
    using Cons.IH [OF 1(2,3)] Cons.prems(3) by auto
  have "holds (cells h2) (fresh h) (fresh h1) (fresh h) r"
    using holds_cong(1) [OF 1(6)] 2(5) by simp
  then have "holds_all (cells h2) (fresh h) (fresh h2) (Some (fresh h) # ps) (r # rs)"
    using 1(4) 2(4,6) by auto
  then show ?case using 1 2 by auto
qed simp

lemma dec_one_digit: "n < 10 \<Longrightarrow> dec n = [digit_char n]"
  by (subst dec.simps) simp

lemma digit_char_Suc:
  "digit_char (Suc (Suc 0)) = CHR ''2''" "digit_char (Suc (Suc (Suc 0))) = CHR ''3''"
  "digit_char (Suc (Suc (Suc (Suc 0)))) = CHR ''4''"
  by (simp_all flip: numeral_2_eq_2 numeral_3_eq_3 add: numeral_eq_Suc [of "num.Bit0 (num.Bit0 num.One)", symmetric, simplified])

definition demo_mem :: cmem where
  "demo_mem = \<lparr>alloc_ok = \<lambda>_. True, garbage = \<lambda>_. CHR 0x41\<rparr>"

lemma demo_mem_ok: "\<not> mem_fails demo_mem"
  by (simp add: mem_fails_def demo_mem_def)

definition empty_heap :: rheap where
  "empty_heap = \<lparr>cells = \<lambda>_. None, fresh = 0, calls = 0, alloc_succeeds = \<lambda>_. True\<rparr>"

lemma empty_heap_allocates: "allocates empty_heap"
  by (simp add: allocates_def empty_heap_def)

text \<open>C3.
  A new reader that is fed the encodings of any list of replies, cut into pieces anywhere, returns
  exactly these replies, one per call and in their order, each built from freshly allocated objects,
  and has no input left. Replies may nest eight levels deep.
\<close>

theorem redisReader_roundtrip:
  assumes "redisReaderCreateWithFunctions m = Some R" and "\<not> mem_fails m" and "allocates h"
    and "list_all (\<lambda>r. reply_ok r \<and> reply_depth r \<le> 8) rs"
    and "concat pieces = concat (map encode_reply rs)"
  shows "\<exists>R1 ps R2 h2. feed_all m defaultFunctions R h pieces = Ok (R1, h) \<and>
     get_replies (length rs) defaultFunctions R1 h = Ok (ps, R2, h2) \<and>
     holds_all (cells h2) (fresh h) (fresh h2) ps rs \<and>
     (\<forall>a < fresh h. cells h2 a = cells h a) \<and> idle R2 []"
proof -
  obtain R1 where R1: "feed_all m defaultFunctions R h pieces = Ok (R1, h)"
      "idle R1 (concat (map encode_reply rs) @ [])"
    using feed_all_idle [OF idle_create [OF assms(1)] assms(2)] assms(5) by fastforce
  from get_replies_reads [OF R1(2) assms(3,4)] R1(1) show ?thesis by fastforce
qed

theorem redisReader_roundtrip_witness:
  "\<exists>R R1 ps R2 h2. redisReaderCreateWithFunctions demo_mem = Some R \<and>
     feed_all demo_mem defaultFunctions R empty_heap
       [''*2'' @ [CR], [LF] @ ''+OK'' @ crlf @ ''$3'' @ crlf @ ''a'', ''bc'' @ crlf @ '':-7'', crlf] = Ok (R1, empty_heap) \<and>
     get_replies 2 defaultFunctions R1 empty_heap = Ok (ps, R2, h2) \<and>
     holds_all (cells h2) 0 (fresh h2) ps
       [Reply_Array [Reply_Status ''OK'', Reply_String ''abc''], Reply_Integer (-7)]"
proof -
  let ?rs = "[Reply_Array [Reply_Status ''OK'', Reply_String ''abc''], Reply_Integer (-7)]"
  let ?ps = "[''*2'' @ [CR], [LF] @ ''+OK'' @ crlf @ ''$3'' @ crlf @ ''a'', ''bc'' @ crlf @ '':-7'', crlf]"
  have enc: "concat ?ps = concat (map encode_reply ?rs)"
    by (simp add: crlf_def show_long_def show_int_def dec_one_digit digit_char_Suc)
  obtain R where R: "redisReaderCreateWithFunctions demo_mem = Some R"
    by (simp add: redisReaderCreateWithFunctions_def sdsempty_def sdsnewlen_def demo_mem_def Let_def)
  have ok: "list_all (\<lambda>r. reply_ok r \<and> reply_depth r \<le> 8) ?rs" by simp
  have "length ?rs = 2" "fresh empty_heap = 0" by (simp_all add: empty_heap_def)
  with redisReader_roundtrip [OF R demo_mem_ok empty_heap_allocates ok enc] R show ?thesis by metis
qed

section \<open>Numbers\<close>

text \<open>
  \<^verbatim>\<open>readLongLong\<close> inverts the way a 64-bit integer is written in an integer reply, whatever follows
  the line.
\<close>

theorem readLongLong_roundtrip:
  "readLongLong (show_long w @ crlf @ t) = Ok w"
  using readLongLong_show_long [of w "LF # t"] by (simp add: crlf_def)

section \<open>Requests\<close>

lemma resp_request_encode: "resp_request argv = encode_reply (Reply_Array (map Reply_String argv))"
  by (simp add: resp_request_def resp_bulk_def [abs_def] comp_def)

lemma request_depth: "reply_depth (Reply_Array (map Reply_String argv)) \<le> 8"
proof -
  have "foldr (\<lambda>r d. max (reply_depth r) d) (map Reply_String argv) 0 = 0" by (induction argv) auto
  then show ?thesis by simp
qed

text \<open>C8.
  What \<^verbatim>\<open>redisFormatCommand\<close> writes for a format and its arguments is read back by the reply parser as
  the array of exactly the words the format denotes.
\<close>

theorem redisFormatCommand_roundtrip:
  assumes "fmt_argv format ap = Ok (Some argv)"
    and "length argv < 2 ^ 31" and "list_all (\<lambda>a. length a < 2 ^ 63) argv"
    and "redisReaderCreateWithFunctions m = Some R" and "\<not> mem_fails m" and "allocates h"
  shows "\<exists>cmd R1 p R2 h2. redisFormatCommand m format ap = Ok (int (length cmd), Some cmd) \<and>
     redisReaderFeed m defaultFunctions R h (Some cmd) (length cmd) = Ok (True, R1, h) \<and>
     redisReaderGetReply defaultFunctions R1 h = Ok (True, Some p, R2, h2) \<and>
     holds (cells h2) (fresh h) (fresh h2) p (Reply_Array (map Reply_String argv)) \<and> idle R2 []"
proof -
  let ?cmd = "resp_request argv" and ?r = "Reply_Array (map Reply_String argv)"
  have cmd: "redisFormatCommand m format ap = Ok (int (length ?cmd), Some ?cmd)"
    using redisvFormatCommand_result [of m format ap] assms(1,5)
    by (simp add: redisFormatCommand_def format_result_def)
  obtain R1 where R1: "redisReaderFeed m defaultFunctions R h (Some ?cmd) (length ?cmd) = Ok (True, R1, h)"
      "idle R1 ?cmd"
    using idle_feed [where h = h and fn = defaultFunctions, OF idle_create [OF assms(4)] assms(5) refl] by auto
  have "idle R1 (encode_reply ?r @ [])" using R1(2) by (simp only: resp_request_encode append_Nil2)
  moreover have "reply_ok ?r" using assms(2,3) by (simp add: list_all_iff)
  ultimately obtain R2 h2 where "redisReaderGetReply defaultFunctions R1 h = Ok (True, Some (fresh h), R2, h2)"
      "idle R2 []" "holds (cells h2) (fresh h) (fresh h2) (fresh h) ?r"
    using getReply_reads [of R1 ?r "[]" h] assms(6) request_depth [of argv] by blast
  with cmd R1(1) show ?thesis by blast
qed

theorem redisFormatCommand_roundtrip_witness:
  "\<exists>R cmd R1 p R2 h2. redisReaderCreateWithFunctions demo_mem = Some R \<and>
     redisFormatCommand demo_mem ''RPUSH 5_folders %s'' [ArgStr ''a b''] = Ok (int (length cmd), Some cmd) \<and>
     redisReaderFeed demo_mem defaultFunctions R empty_heap (Some cmd) (length cmd) = Ok (True, R1, empty_heap) \<and>
     redisReaderGetReply defaultFunctions R1 empty_heap = Ok (True, Some p, R2, h2) \<and>
     holds (cells h2) 0 (fresh h2) p
       (Reply_Array [Reply_String ''RPUSH'', Reply_String ''5_folders'', Reply_String ''a b''])"
proof -
  obtain R where R: "redisReaderCreateWithFunctions demo_mem = Some R"
    by (simp add: redisReaderCreateWithFunctions_def sdsempty_def sdsnewlen_def demo_mem_def Let_def)
  have argv: "fmt_argv ''RPUSH 5_folders %s'' [ArgStr ''a b''] = Ok (Some [''RPUSH'', ''5_folders'', ''a b''])"
    by (simp add: fmt_eval c_str_def)
  from redisFormatCommand_roundtrip [OF argv _ _ R demo_mem_ok empty_heap_allocates] R show ?thesis
    by (auto simp: empty_heap_def)
qed

end
