(* ===== verification/Safe.thy ===== *)
theory Safe
  imports PathParser
begin

text \<open>
  The C++ accessors of \<^verbatim>\<open>vfs_safe.cc\<close>: they read the same keys as \<^verbatim>\<open>vfs.c\<close> and return C++ values
  instead of filling buffers. A \<^verbatim>\<open>std::string\<close> made from a null pointer is a fault; an exception is
  the fault \<open>Thrown\<close>. The empty stubs of the file (\<^verbatim>\<open>redis_mv...\<close>, \<^verbatim>\<open>redis_getDirItemInfo\<close>,
  \<^verbatim>\<open>redis_findFileIdInFolder\<close>) have no body to model.
\<close>

section \<open>Accessors\<close>

text \<open>\<^verbatim>\<open>string output(reply->str)\<close>\<close>

definition cxx_string :: "string option \<Rightarrow> string outcome" where
  "cxx_string str = (case str of None \<Rightarrow> Fault NullDeref | Some s \<Rightarrow> Ok (c_str s))"

text \<open>
  \<^verbatim>\<open>output.substr(1, output.size() - 2)\<close>: an exception on the empty string; on a string of one
  character the count wraps around and the rest, which is empty, is taken.
\<close>

definition cxx_unquote :: "string \<Rightarrow> string outcome" where
  "cxx_unquote s =
     (if s = [] then Fault (Thrown ''out_of_range'') else Ok (take (length s - 2) (drop 1 s)))"

definition redis_getFileName :: "'s server \<Rightarrow> clong \<Rightarrow> ('s, string) op" where
  "redis_getFileName srv oid =
     bind (redis_reply srv ''HGET FILE_%lu_info name'' [ArgLong oid]) (\<lambda>reply.
       lift (obind (cxx_string (reply_str reply)) cxx_unquote))"

definition redis_getFolderParentId :: "'s server \<Rightarrow> clong \<Rightarrow> ('s, clong) op" where
  "redis_getFolderParentId srv cwdId =
     bind (redis_reply srv ''HGET FOLDER_%lu_info parent'' [ArgLong cwdId]) (\<lambda>reply.
       case reply_str reply of None \<Rightarrow> ret (-1) | Some str \<Rightarrow> ret (strtol str))"

definition redis_getFileParentId :: "'s server \<Rightarrow> clong \<Rightarrow> ('s, clong) op" where
  "redis_getFileParentId srv cwdId =
     bind (redis_reply srv ''HGET FILE_%lu_info parent'' [ArgLong cwdId]) (\<lambda>reply.
       case reply_str reply of None \<Rightarrow> ret (-1) | Some str \<Rightarrow> ret (strtol str))"

definition redis_getFileWebUrl :: "'s server \<Rightarrow> clong \<Rightarrow> ('s, string) op" where
  "redis_getFileWebUrl srv oid =
     bind (redis_reply srv ''HGET FILE_%lu_info apiUrl'' [ArgLong oid]) (\<lambda>reply.
       lift (cxx_string (reply_str reply)))"

definition redis_getFileSizeFromId :: "'s server \<Rightarrow> clong \<Rightarrow> ('s, clong) op" where
  "redis_getFileSizeFromId srv oid =
     bind (redis_reply srv ''HGET FILE_%lu_info size'' [ArgLong oid]) (\<lambda>reply.
       case reply_str reply of None \<Rightarrow> ret (-1) | Some str \<Rightarrow> lift (strtol_from1 str))"

text \<open>The loop over the elements of a reply.\<close>

fun element_ids :: "redisReply list \<Rightarrow> clong list outcome" where
  "element_ids [] = Ok []"
| "element_ids (r # rs) = obind (element_id r) (\<lambda>tempId. obind (element_ids rs) (\<lambda>ids. Ok (tempId # ids)))"

definition redis_getFolderIds :: "'s server \<Rightarrow> clong \<Rightarrow> ('s, clong list) op" where
  "redis_getFolderIds srv oid =
     bind (redis_reply srv ''LRANGE FOLDER_%lu_folders 0 -1'' [ArgLong oid]) (\<lambda>reply.
       lift (element_ids (reply_elements reply)))"

definition redis_getFileIds :: "'s server \<Rightarrow> clong \<Rightarrow> ('s, clong list) op" where
  "redis_getFileIds srv oid =
     bind (redis_reply srv ''LRANGE FOLDER_%lu_files 0 -1'' [ArgLong oid]) (\<lambda>reply.
       lift (element_ids (reply_elements reply)))"

definition redis_getFolderName :: "'s server \<Rightarrow> clong \<Rightarrow> ('s, string) op" where
  "redis_getFolderName srv oid =
     bind (redis_reply srv ''HGET FOLDER_%lu_info name'' [ArgLong oid]) (\<lambda>reply.
       lift (obind (cxx_string (reply_str reply)) cxx_unquote))"

record Folder =
  fo_id :: clong
  fo_name :: string
  fo_parentId :: clong

record File =
  fi_id :: clong
  fi_name :: string
  fi_parentId :: clong

definition redis_getFolder :: "'s server \<Rightarrow> clong \<Rightarrow> ('s, Folder) op" where
  "redis_getFolder srv oid =
     bind (redis_getFolderName srv oid) (\<lambda>name.
     bind (redis_getFolderParentId srv oid) (\<lambda>parentId.
       ret \<lparr>fo_id = oid, fo_name = name, fo_parentId = parentId\<rparr>))"

definition redis_getFile :: "'s server \<Rightarrow> clong \<Rightarrow> ('s, File) op" where
  "redis_getFile srv oid =
     bind (redis_getFileName srv oid) (\<lambda>name.
     bind (redis_getFileParentId srv oid) (\<lambda>parentId.
       ret \<lparr>fi_id = oid, fi_name = name, fi_parentId = parentId\<rparr>))"

text \<open>\<^verbatim>\<open>for (auto id: ids) output.push_back(f(id))\<close>\<close>

fun push_each :: "('a \<Rightarrow> ('s, 'b) op) \<Rightarrow> 'a list \<Rightarrow> ('s, 'b list) op" where
  "push_each f [] = ret []"
| "push_each f (x # xs) = bind (f x) (\<lambda>y. bind (push_each f xs) (\<lambda>ys. ret (y # ys)))"

definition redis_getFolders :: "'s server \<Rightarrow> clong \<Rightarrow> ('s, Folder list) op" where
  "redis_getFolders srv oid = bind (redis_getFolderIds srv oid) (push_each (redis_getFolder srv))"

definition redis_getFiles :: "'s server \<Rightarrow> clong \<Rightarrow> ('s, File list) op" where
  "redis_getFiles srv oid = bind (redis_getFileIds srv oid) (push_each (redis_getFile srv))"

definition redis_setFolderParent :: "'s server \<Rightarrow> clong \<Rightarrow> clong \<Rightarrow> ('s, unit) op" where
  "redis_setFolderParent srv dirId newParent =
     bind (redis_call srv ''HSET FOLDER_%lu_info parent %ld'' [ArgLong dirId, ArgLong newParent])
       (\<lambda>_. ret ())"

definition redis_isFile :: "'s server \<Rightarrow> clong \<Rightarrow> ('s, cint) op" where
  "redis_isFile srv objId =
     bind (redis_reply srv ''EXISTS FILE_%lu_info'' [ArgLong objId]) (\<lambda>reply.
       ret (ucast (reply_integer reply)))"

definition redis_isDirectory :: "'s server \<Rightarrow> clong \<Rightarrow> ('s, cint) op" where
  "redis_isDirectory srv objId =
     bind (redis_reply srv ''EXISTS FOLDER_%lu_info'' [ArgLong objId]) (\<lambda>reply.
       ret (ucast (reply_integer reply)))"

section \<open>What the accessors return\<close>

lemma cxx_unquote_quoted [simp]: "cxx_unquote (quoted s) = Ok s"
  by (simp add: cxx_unquote_def quoted_def)

lemma element_ids_reply_ids [simp]:
  "(\<And>i. i \<in> set ids \<Longrightarrow> 0 \<le> sint i) \<Longrightarrow> element_ids (reply_ids ids) = Ok ids"
  by (induction ids) auto

lemma argv_safe:
  "fmt_argv ''HGET FILE_%lu_info parent'' [ArgLong oid] = Ok (Some [''HGET'', file_info oid, ''parent''])"
  "fmt_argv ''EXISTS FILE_%lu_info'' [ArgLong oid] = Ok (Some [''EXISTS'', file_info oid])"
  "fmt_argv ''EXISTS FOLDER_%lu_info'' [ArgLong oid] = Ok (Some [''EXISTS'', folder_info oid])"
  by (simp_all add: fmt_eval key_defs)

context redis
begin

lemma wp_cxx_folderName:
  assumes rep: "fs_rep (view s) a" and ok: "fs_ok a" and d: "d \<in> dom (fs_dir a)"
    and post: "\<And>s'. fs_rep (view s') a \<Longrightarrow> Q (dname a d) s'"
  shows "wp (redis_getFolderName srv d) Q s"
proof -
  obtain e where e: "fs_dir a d = Some e" using d by auto
  obtain h where h: "dir_hash e = RHash h" "h ''name'' = Some (quoted (dir_name e))"
    using dir_hash_fields by blast
  have "no_nul (dir_name e)" using fs_ok_dir [OF ok e] by (simp add: dirent_ok_def name_ok_def)
  then show ?thesis
    unfolding redis_getFolderName_def wp_bind
    by (intro wp_hget_gen [OF argv_getters(4), of s d h "quoted (dir_name e)"])
       (use e h post rep in \<open>auto simp: fs_repD(2) [OF rep] dname_def cxx_string_def\<close>)
qed

lemma wp_cxx_fileName:
  assumes rep: "fs_rep (view s) a" and ok: "fs_ok a" and f: "f \<in> dom (fs_file a)"
    and post: "\<And>s'. fs_rep (view s') a \<Longrightarrow> Q (fname a f) s'"
  shows "wp (redis_getFileName srv f) Q s"
proof -
  obtain e where e: "fs_file a f = Some e" using f by auto
  obtain h where h: "file_hash e = RHash h" "h ''name'' = Some (quoted (file_name e))"
    using file_hash_fields by blast
  have "no_nul (file_name e)" using fs_ok_file [OF ok e] by (simp add: fileent_ok_def name_ok_def)
  then show ?thesis
    unfolding redis_getFileName_def wp_bind
    by (intro wp_hget_gen [OF argv_getters(1), of s f h "quoted (file_name e)"])
       (use e h post rep in \<open>auto simp: fs_repD(3) [OF rep] fname_def cxx_string_def\<close>)
qed

lemma wp_cxx_folderParent:
  assumes rep: "fs_rep (view s) a" and ok: "fs_ok a" and d: "d \<in> dom (fs_dir a)"
    and post: "\<And>s'. fs_rep (view s') a \<Longrightarrow> Q (dparent a d) s'"
  shows "wp (redis_getFolderParentId srv d) Q s"
proof -
  obtain e where e: "fs_dir a d = Some e" using d by auto
  obtain h where h: "dir_hash e = RHash h" "h ''parent'' = Some (show_ulong (dir_parent e))"
    using dir_hash_fields by blast
  show ?thesis
    unfolding redis_getFolderParentId_def wp_bind
    by (intro wp_hget_gen [OF argv_getters(5), of s d h "show_ulong (dir_parent e)"])
       (use e h post rep fs_ok_parent_nonneg [OF ok e] in \<open>auto simp: fs_repD(2) [OF rep] dparent_def\<close>)
qed

text \<open>No operation stores the parent of a file, so the accessor finds none.\<close>

lemma wp_cxx_fileParent:
  assumes rep: "fs_rep (view s) a" and post: "\<And>s'. fs_rep (view s') a \<Longrightarrow> Q (-1) s'"
  shows "wp (redis_getFileParentId srv f) Q s"
proof -
  obtain h where h: "as_hash (map_option file_hash (fs_file a f)) = Some h" "h ''parent'' = None"
    by (cases "fs_file a f") (simp_all add: file_hash_def)
  show ?thesis
    unfolding redis_getFileParentId_def wp_bind
    by (rule wp_hget_any [OF argv_safe(1), of s f h])
       (use h post rep in \<open>auto simp: fs_repD(3) [OF rep]\<close>)
qed

lemma wp_cxx_folderIds:
  assumes rep: "fs_rep (view s) a" and ok: "fs_ok a"
    and post: "\<And>s'. fs_rep (view s') a \<Longrightarrow> Q (fs_subdirs a d) s'"
  shows "wp (redis_getFolderIds srv d) Q s"
  unfolding redis_getFolderIds_def wp_bind
  by (rule wp_list_folders [OF rep]) (simp add: ok_dir_list [OF ok] post)

lemma wp_cxx_fileIds:
  assumes rep: "fs_rep (view s) a" and ok: "fs_ok a"
    and post: "\<And>s'. fs_rep (view s') a \<Longrightarrow> Q (fs_files a d) s'"
  shows "wp (redis_getFileIds srv d) Q s"
  unfolding redis_getFileIds_def wp_bind
  by (rule wp_list_files(1) [OF rep]) (simp add: ok_file_list [OF ok] post)

lemma wp_push_each:
  assumes "\<And>x s' R. x \<in> set xs \<Longrightarrow> fs_rep (view s') a \<Longrightarrow>
        (\<And>s''. fs_rep (view s'') a \<Longrightarrow> R (g x) s'') \<Longrightarrow> wp (f x) R s'"
    and "fs_rep (view s) a" and "\<And>s'. fs_rep (view s') a \<Longrightarrow> Q (map g xs) s'"
  shows "wp (push_each f xs) Q s"
  using assms
proof (induction xs arbitrary: s Q)
  case (Cons x xs)
  have "wp (push_each f xs) (\<lambda>ys. Q (g x # ys)) s''" if "fs_rep (view s'') a" for s''
    using that Cons.prems by (intro Cons.IH) auto
  then show ?case using Cons.prems(1) [of x s] Cons.prems(2) by simp
qed simp

lemma wp_cxx_folders:
  assumes rep: "fs_rep (view s) a" and ok: "fs_ok a"
    and post: "\<And>s'. fs_rep (view s') a \<Longrightarrow>
      Q (map (\<lambda>c. \<lparr>fo_id = c, fo_name = dname a c, fo_parentId = dparent a c\<rparr>) (fs_subdirs a d)) s'"
  shows "wp (redis_getFolders srv d) Q s"
  unfolding redis_getFolders_def wp_bind
proof (rule wp_cxx_folderIds [OF rep ok], rule wp_push_each)
  fix c s' R assume c: "c \<in> set (fs_subdirs a d)" and rep': "fs_rep (view s') a"
    and R: "\<And>s''. fs_rep (view s'') a \<Longrightarrow> R \<lparr>fo_id = c, fo_name = dname a c, fo_parentId = dparent a c\<rparr> s''"
  have dom: "c \<in> dom (fs_dir a)" using ok_dir_list(1) [OF ok c] .
  show "wp (redis_getFolder srv c) R s'"
    unfolding redis_getFolder_def wp_bind wp_ret
    by (rule wp_cxx_folderName [OF rep' ok dom], rule wp_cxx_folderParent [OF _ ok dom]) (auto intro: R)
qed (simp_all add: post)

lemma wp_cxx_files:
  assumes rep: "fs_rep (view s) a" and ok: "fs_ok a"
    and post: "\<And>s'. fs_rep (view s') a \<Longrightarrow>
      Q (map (\<lambda>f. \<lparr>fi_id = f, fi_name = fname a f, fi_parentId = -1\<rparr>) (fs_files a d)) s'"
  shows "wp (redis_getFiles srv d) Q s"
  unfolding redis_getFiles_def wp_bind
proof (rule wp_cxx_fileIds [OF rep ok], rule wp_push_each)
  fix f s' R assume f: "f \<in> set (fs_files a d)" and rep': "fs_rep (view s') a"
    and R: "\<And>s''. fs_rep (view s'') a \<Longrightarrow> R \<lparr>fi_id = f, fi_name = fname a f, fi_parentId = -1\<rparr> s''"
  have dom: "f \<in> dom (fs_file a)" using ok_file_list(1) [OF ok f] .
  show "wp (redis_getFile srv f) R s'"
    unfolding redis_getFile_def wp_bind wp_ret
    by (rule wp_cxx_fileName [OF rep' ok dom], rule wp_cxx_fileParent) (auto intro: R)
qed (simp_all add: post)

lemma wp_isDirectory:
  assumes rep: "fs_rep (view s) a"
    and post: "\<And>s'. fs_rep (view s') a \<Longrightarrow> Q (if d \<in> dom (fs_dir a) then 1 else 0) s'"
  shows "wp (redis_isDirectory srv d) Q s"
  unfolding redis_isDirectory_def wp_bind wp_ret
proof (rule reply [OF argv_safe(3)])
  show "redis_doc (view s) [''EXISTS'', folder_info d] =
      Some (Reply_Integer (if d \<in> dom (fs_dir a) then 1 else 0), view s)"
    by (cases "fs_dir a d") (simp_all add: redis_doc_def fs_repD(2) [OF rep] domIff)
next
  fix s' assume "view s' = view s"
  then have "Q (if d \<in> dom (fs_dir a) then 1 else 0) s'" by (intro post) (simp add: rep)
  moreover have "ucast (reply_integer (Reply_Integer (if c then 1 else 0))) = (if c then 1 else 0 :: cint)" for c
    by simp
  ultimately show "Q (ucast (reply_integer (Reply_Integer (if d \<in> dom (fs_dir a) then 1 else 0)))) s'"
    by (simp only:)
qed

end

end
