(* ===== verification/Wrapper.thy ===== *)
theory Wrapper
  imports Safe
begin

text \<open>
  The user interface \<^verbatim>\<open>virtualFileSystemWrapper.cc\<close>: the working directory is a path in the
  \<^verbatim>\<open>FsContext\<close>, every command turns the path it is given into an absolute one by looking up the
  folder of the working directory and walking from it to the root. The walk may not end, so these
  operations are partial: \<open>None\<close> is a run without end. Diagnostic output is left out; connecting to
  the server in \<^verbatim>\<open>getInitialContext\<close> is input and output only.
\<close>

section \<open>From paths to ids\<close>

definition isValidPath :: "string \<Rightarrow> bool" where
  "isValidPath initialPath = True"

definition getParentIdById :: "'s server \<Rightarrow> clong \<Rightarrow> ('s, clong) op" where
  "getParentIdById srv childId = redis_getFolderParentId srv childId"

text \<open>\<^verbatim>\<open>pathCpy.back()\<close> of an empty string reads before it.\<close>

definition getDirIdFromPath :: "'s server \<Rightarrow> clong \<Rightarrow> string \<Rightarrow> ('s, clong) op" where
  "getDirIdFromPath srv cwd path =
     (if path = [] then fail OutOfBounds
      else
        let pathCpy = (if last path \<noteq> CHR ''/'' then path @ ''/'' else path)
        in vfs_getDirIdFromPath srv cwd pathCpy (length pathCpy))"

definition getFolderIdFromAbsolutePath :: "'s server \<Rightarrow> string \<Rightarrow> ('s, clong) op" where
  "getFolderIdFromAbsolutePath srv absolutePath = getDirIdFromPath srv ROOT_FOLDER_ID absolutePath"

definition getCwdId :: "'s server \<Rightarrow> string \<Rightarrow> ('s, clong) op" where
  "getCwdId srv ccwd = getFolderIdFromAbsolutePath srv ccwd"

definition getFolderIdFromPath :: "'s server \<Rightarrow> string \<Rightarrow> string \<Rightarrow> ('s, clong) op" where
  "getFolderIdFromPath srv ccwd path =
     bind (getCwdId srv ccwd) (\<lambda>cwd. getDirIdFromPath srv cwd path)"

definition getFileIdFromPath :: "'s server \<Rightarrow> vfsPathParserState_t \<Rightarrow> string \<Rightarrow> string \<Rightarrow> ('s, clong) op" where
  "getFileIdFromPath srv uninit ccwd path =
     bind (getCwdId srv ccwd) (\<lambda>cwd.
     bind (vfs_parsePath srv uninit path (length path) cwd) (\<lambda>(r, parserState).
       if r = -1 then ret (-1)
       else if \<not> ps_isFilePath parserState then ret (-1)
       else ret (ps_id parserState)))"

section \<open>From ids to paths\<close>

definition getNonRootFolderName :: "'s server \<Rightarrow> clong \<Rightarrow> ('s, string) op" where
  "getNonRootFolderName srv folderId =
     (if folderId = ROOT_FOLDER_ID then fail (Thrown ''Cannot get name of root folder.'')
      else redis_getFolderName srv folderId)"

partial_function (option) abs_path_loop ::
    "'s server \<Rightarrow> clong \<Rightarrow> string \<Rightarrow> 's \<Rightarrow> (string outcome \<times> 's) option" where
  "abs_path_loop srv currentId output s =
     (if currentId = 0 then Some (Ok (output @ ''/''), s)
      else
        (case getNonRootFolderName srv currentId s of
           (Fault e, s1) \<Rightarrow> Some (Fault e, s1)
         | (Ok folderName, s1) \<Rightarrow>
             (case getParentIdById srv currentId s1 of
                (Fault e, s2) \<Rightarrow> Some (Fault e, s2)
              | (Ok parentId, s2) \<Rightarrow> abs_path_loop srv parentId (''/'' @ folderName @ output) s2)))"

definition getAbsolutePathFromFolderId :: "'s server \<Rightarrow> clong \<Rightarrow> ('s, string) pop" where
  "getAbsolutePathFromFolderId srv folderId =
     (if folderId = ROOT_FOLDER_ID then ended (ret ''/'') else abs_path_loop srv folderId [])"

definition removeAnyPathPrefix :: "string \<Rightarrow> string outcome" where
  "removeAnyPathPrefix path =
     (if path = [] then Fault (Thrown ''out_of_range'')
      else if hd path = CHR ''/'' then Ok (drop 1 path)
      else if take 2 path = ''./'' then Ok (drop 2 path)
      else Ok path)"

definition getParentIdOfLeftSideOfExpression :: "'s server \<Rightarrow> string \<Rightarrow> string \<Rightarrow> ('s, clong) op" where
  "getParentIdOfLeftSideOfExpression srv ccwd initialPath =
     (if initialPath = [] \<or> \<not> isValidPath initialPath
      then fail (Thrown (''Could not get parent of invalid path: '' @ initialPath @ [LF]))
      else if hd initialPath = CHR ''/'' then ret ROOT_FOLDER_ID
      else getFolderIdFromPath srv ccwd ccwd)"

definition formatToValidPath :: "'s server \<Rightarrow> string \<Rightarrow> string \<Rightarrow> ('s, string) pop" where
  "formatToValidPath srv ccwd initialPath =
     pbind (ended (getParentIdOfLeftSideOfExpression srv ccwd initialPath)) (\<lambda>parentId.
       if parentId = -1 then ended (fail (Thrown ''failed to get left side of expression''))
       else
         pbind (getAbsolutePathFromFolderId srv parentId) (\<lambda>leftSide.
         pbind (ended (lift (removeAnyPathPrefix initialPath))) (\<lambda>rightSide.
           ended (ret (leftSide @ rightSide)))))"

section \<open>Commands\<close>

definition getFiles :: "'s server \<Rightarrow> string \<Rightarrow> string \<Rightarrow> ('s, File list) op" where
  "getFiles srv ccwd path = bind (getFolderIdFromPath srv ccwd path) (redis_getFiles srv)"

definition getFolders :: "'s server \<Rightarrow> string \<Rightarrow> string \<Rightarrow> ('s, Folder list) op" where
  "getFolders srv ccwd path = bind (getFolderIdFromPath srv ccwd path) (redis_getFolders srv)"

definition lsPrettyPrint :: "'s server \<Rightarrow> string \<Rightarrow> string \<Rightarrow> ('s, string) op" where
  "lsPrettyPrint srv ccwd path =
     bind (getFiles srv ccwd path) (\<lambda>files.
     bind (getFolders srv ccwd path) (\<lambda>folders.
       ret (concat (map (\<lambda>folder. fo_name folder @ [LF]) folders) @
            concat (map (\<lambda>file. fi_name file @ [LF]) files))))"

definition pwd :: "string \<Rightarrow> string" where
  "pwd ccwd = ccwd"

definition mkdir :: "'s server \<Rightarrow> vfsPathParserState_t \<Rightarrow> string \<Rightarrow> string \<Rightarrow> ('s, bool) pop" where
  "mkdir srv uninit ccwd initPath =
     pbind (formatToValidPath srv ccwd initPath) (\<lambda>formattedPath. ended (
     bind (getCwdId srv ccwd) (\<lambda>cwdId.
     bind (vfs_parsePath srv uninit formattedPath (length formattedPath) cwdId) (\<lambda>(r, parserState).
       if r = -1 then ret False
       else bind (vfs_mkdir srv (ps_parentId parserState) (drop (ps_nameOffset parserState) formattedPath))
              (\<lambda>_. ret True)))))"

text \<open>\<^verbatim>\<open>cd\<close> returns whether it succeeded and the new working directory.\<close>

definition cd :: "'s server \<Rightarrow> string \<Rightarrow> string \<Rightarrow> ('s, bool \<times> string) pop" where
  "cd srv ccwd path =
     pbind (formatToValidPath srv ccwd path) (\<lambda>formattedPath.
     pbind (ended (getFolderIdFromPath srv ccwd formattedPath)) (\<lambda>folderId.
       if folderId = -1 then ended (ret (False, ccwd))
       else pbind (getAbsolutePathFromFolderId srv folderId) (\<lambda>newCwd. ended (ret (True, newCwd)))))"

definition createFile :: "'s server \<Rightarrow> vfsPathParserState_t \<Rightarrow> string \<Rightarrow> string \<Rightarrow> ('s, bool) pop" where
  "createFile srv uninit ccwd path =
     pbind (formatToValidPath srv ccwd path) (\<lambda>formattedPath. ended (
     bind (getCwdId srv ccwd) (\<lambda>cwdId.
     bind (vfs_parsePath srv uninit formattedPath (length formattedPath) cwdId) (\<lambda>(r, parserState).
       if r = -1 then ret False
       else bind (vfs_createFile srv (ps_parentId parserState) (drop (ps_nameOffset parserState) formattedPath)
                    1 ''none'' ''https://none.com'' ''http://none'')
              (\<lambda>_. ret True)))))"

definition listDirFileAndFolderIds :: "'s server \<Rightarrow> clong \<Rightarrow> ('s, clong list) op" where
  "listDirFileAndFolderIds srv dirId =
     bind (redis_getFolderIds srv dirId) (\<lambda>a. bind (redis_getFileIds srv dirId) (\<lambda>b. ret (a @ b)))"

datatype dirItemType = DIR_ITEM_FOLDER | DIR_ITEM_FILE | DIR_ITEM_UNKNOWN | DIR_ITEM_ERROR

record dirItemInfo =
  di_id :: clong
  di_exists :: bool
  di_type :: dirItemType
  di_parentId :: clong
  di_name :: string

text \<open>\<open>uninit\<close> holds the members a local \<^verbatim>\<open>dirItemInfo\<close> has before they are set.\<close>

definition getDirItemInfo :: "'s server \<Rightarrow> dirItemInfo \<Rightarrow> clong \<Rightarrow> ('s, dirItemInfo) op" where
  "getDirItemInfo srv uninit objId =
     bind (redis_isDirectory srv objId) (\<lambda>d.
       if d \<noteq> 0 then
         bind (redis_getFolderParentId srv objId) (\<lambda>parentId.
         bind (redis_getFolderName srv objId) (\<lambda>name.
           ret (uninit\<lparr>di_id := objId, di_exists := False, di_type := DIR_ITEM_FOLDER,
                  di_parentId := parentId, di_name := name\<rparr>)))
       else
         bind (redis_getFileParentId srv objId) (\<lambda>parentId.
         bind (redis_getFileName srv objId) (\<lambda>name.
           ret (uninit\<lparr>di_id := objId, di_exists := False, di_type := DIR_ITEM_FILE,
                  di_parentId := parentId, di_name := name\<rparr>))))"

definition ls_info :: "'s server \<Rightarrow> dirItemInfo \<Rightarrow> clong \<Rightarrow> ('s, dirItemInfo list) op" where
  "ls_info srv uninit dirId =
     bind (listDirFileAndFolderIds srv dirId) (push_each (getDirItemInfo srv uninit))"

definition ls_id :: "'s server \<Rightarrow> dirItemInfo \<Rightarrow> clong \<Rightarrow> ('s, string list) op" where
  "ls_id srv uninit dirId =
     bind (listDirFileAndFolderIds srv dirId)
       (push_each (\<lambda>oid. bind (getDirItemInfo srv uninit oid) (\<lambda>info. ret (di_name info))))"

definition ls_path :: "'s server \<Rightarrow> dirItemInfo \<Rightarrow> string \<Rightarrow> string \<Rightarrow> ('s, string list) op" where
  "ls_path srv uninit ccwd path = bind (getFolderIdFromPath srv ccwd path) (ls_id srv uninit)"

text \<open>The overload that takes a path.\<close>

definition getDirItemInfo_path ::
    "'s server \<Rightarrow> vfsPathParserState_t \<Rightarrow> dirItemInfo \<Rightarrow> string \<Rightarrow> string \<Rightarrow> ('s, dirItemInfo) op" where
  "getDirItemInfo_path srv ust uninit ccwd absolutePath =
     (let ret0 = uninit\<lparr>di_id := -1, di_exists := False, di_name := []\<rparr> in
      if absolutePath = [] then fail OutOfBounds
      else
        bind (if last absolutePath \<noteq> CHR ''/'' then getFileIdFromPath srv ust ccwd absolutePath
              else ret (-1)) (\<lambda>fileId.
          if fileId \<noteq> -1 then
            bind (redis_getFileName srv fileId) (\<lambda>name.
              ret (ret0\<lparr>di_id := fileId, di_type := DIR_ITEM_FILE, di_exists := True, di_name := name\<rparr>))
          else
            bind (getFolderIdFromPath srv ccwd absolutePath) (\<lambda>folderId.
              if folderId = -1 then ret ret0
              else
                bind (redis_getFolderName srv folderId) (\<lambda>name.
                  ret (ret0\<lparr>di_id := folderId, di_type := DIR_ITEM_FOLDER, di_exists := True,
                         di_name := name\<rparr>)))))"

definition mv :: "string \<Rightarrow> string \<Rightarrow> bool" where
  "mv oldPath newPath = True"

definition stat ::
    "'s server \<Rightarrow> vfsPathParserState_t \<Rightarrow> dirItemInfo \<Rightarrow> string \<Rightarrow> string \<Rightarrow> ('s, dirItemInfo) op" where
  "stat srv ust uninit ccwd absolutePath = getDirItemInfo_path srv ust uninit ccwd absolutePath"

end
