(* ===== verification/WrapperSpec.thy ===== *)
theory WrapperSpec
  imports Wrapper
begin

text \<open>
  The user interface against the abstract file system. \<open>folder_path a d ns\<close>: the folder \<open>d\<close> is
  reached from the root through folders of the names \<open>ns\<close>; \<open>show_path ns\<close> is its absolute path. A
  working directory is the absolute path of a folder. Where names are \<open>unambiguous\<close>, looking the path
  up again yields the folder.
\<close>

section \<open>Absolute paths\<close>

inductive folder_path :: "fs \<Rightarrow> clong \<Rightarrow> string list \<Rightarrow> bool" for a :: fs where
  root: "folder_path a 0 []"
| sub: "folder_path a d ns \<Longrightarrow> c \<in> set (fs_subdirs a d) \<Longrightarrow> folder_path a c (ns @ [dname a c])"

definition show_path :: "string list \<Rightarrow> string" where
  "show_path ns = ''/'' @ concat (map (\<lambda>n. n @ ''/'') ns)"

definition unambiguous :: "fs \<Rightarrow> bool" where
  "unambiguous a \<longleftrightarrow>
     dparent a 0 = 0 \<and>
     (\<forall>d. \<forall>c \<in> set (fs_subdirs a d).
        CHR ''/'' \<notin> set (dname a c) \<and> lookup_obj a d (dname a c) = Some (DirObj c))"

definition with_slash :: "string \<Rightarrow> string" where
  "with_slash p = (if last p \<noteq> CHR ''/'' then p @ ''/'' else p)"

text \<open>The absolute form of a path under the working directory \<open>show_path ns\<close>.\<close>

definition abs_of :: "string list \<Rightarrow> string \<Rightarrow> string" where
  "abs_of ns p =
     (if hd p = CHR ''/'' then p
      else show_path ns @ (if take 2 p = ''./'' then drop 2 p else p))"

lemma show_path_snoc: "show_path (ns @ [n]) = show_path ns @ n @ ''/''"
  by (simp add: show_path_def)

lemma show_path_slashes: "concat (map ((#) CHR ''/'') ns) @ ''/'' = show_path ns"
  by (induction ns) (simp_all add: show_path_def)

lemma show_path_nonempty [simp]: "show_path ns \<noteq> []" "hd (show_path ns) = CHR ''/''"
  by (simp_all add: show_path_def)

lemma last_show_path [simp]: "last (show_path ns) = CHR ''/''"
  by (induction ns rule: rev_induct) (simp_all add: show_path_def)

lemma with_slash_show_path [simp]: "with_slash (show_path ns) = show_path ns"
  by (simp add: with_slash_def)

lemma split_slash_names:
  "(\<And>n. n \<in> set ns \<Longrightarrow> CHR ''/'' \<notin> set n) \<Longrightarrow> split_slash (concat (map (\<lambda>n. n @ ''/'') ns) @ t) = ns @ split_slash t"
  by (induction ns) auto

lemma folder_path_names:
  "folder_path a d ns \<Longrightarrow> fs_ok a \<Longrightarrow> d \<in> dom (fs_dir a) \<and> list_all no_nul ns"
proof (induction rule: folder_path.induct)
  case (sub d ns c)
  then show ?case using ok_dir_list [OF sub.prems sub.hyps(2)] by simp
qed (simp add: fs_ok_root)

lemma folder_path_slash: "folder_path a d ns \<Longrightarrow> unambiguous a \<Longrightarrow> n \<in> set ns \<Longrightarrow> CHR ''/'' \<notin> set n"
  by (induction rule: folder_path.induct) (auto simp: unambiguous_def)

lemma no_nul_append [simp]: "no_nul (s @ t) \<longleftrightarrow> no_nul s \<and> no_nul t"
  by (auto simp: no_nul_def)

lemma no_nul_show_path: "list_all no_nul ns \<Longrightarrow> no_nul (show_path ns)"
  by (induction ns rule: rev_induct) (auto simp: show_path_snoc, simp add: show_path_def)

lemma resolve_append:
  "resolve a d (xs @ ys) = Option.bind (resolve a d xs) (\<lambda>c. resolve a c ys)"
  by (induction xs arbitrary: d) (auto split: option.splits object.splits)

lemma resolve_folder_path: "folder_path a d ns \<Longrightarrow> unambiguous a \<Longrightarrow> resolve a 0 ns = Some d"
  by (induction rule: folder_path.induct) (auto simp: resolve_append unambiguous_def)

text \<open>An absolute path leads to the folder it was made for.\<close>

lemma dir_of_show_path:
  assumes "folder_path a d ns" and "unambiguous a"
  shows "dir_of_path a (show_path ns @ t) cwd = resolve a d (butlast (split_slash t))"
proof -
  have "split_slash (tl (show_path ns @ t)) = ns @ split_slash t"
    using split_slash_names [of ns t] folder_path_slash [OF assms] by (simp add: show_path_def)
  then show ?thesis
    using resolve_folder_path [OF assms] by (simp add: dir_of_path_def butlast_append resolve_append)
qed

text \<open>What a path resolves to below a folder that has an absolute path has one as well.\<close>

lemma folder_path_parent:
  assumes "folder_path a d ns" and "fs_ok a" and "fs_tree a" and "unambiguous a"
  shows "\<exists>ms. folder_path a (dparent a d) ms"
  using assms(1)
proof (cases rule: folder_path.cases)
  case root
  then show ?thesis using assms(4) folder_path.root by (auto simp: unambiguous_def)
next
  case (sub d' ns')
  then have "dparent a d = d'"
    using assms(3) ok_dir_list(1) [OF assms(2) sub(3)] by (auto simp: fs_tree_def dparent_def)
  then show ?thesis using sub by blast
qed

lemma resolve_has_path:
  assumes "fs_ok a" and "fs_tree a" and "unambiguous a"
  shows "folder_path a d ns \<Longrightarrow> resolve a d xs = Some e \<Longrightarrow> \<exists>ms. folder_path a e ms"
proof (induction xs arbitrary: d ns)
  case (Cons x xs)
  obtain c where c: "lookup_obj a d x = Some (DirObj c)" "resolve a c xs = Some e"
    using Cons.prems(2) by (auto split: option.splits object.splits)
  then have "find_dir a d x = Some c" by (auto simp: lookup_obj_def split: option.splits)
  then consider "c = d" | "c = dparent a d" | "c \<in> set (fs_subdirs a d)"
    by (auto simp: find_dir_def find_Some_iff split: if_splits)
  then have "\<exists>ms. folder_path a c ms"
    using Cons.prems(1) folder_path_parent [OF _ assms] folder_path.sub by cases blast+
  then show ?case using Cons.IH c(2) by blast
qed auto

section \<open>Commands on the abstract file system\<close>

context redis
begin

lemma wp_dirIdFromPath:
  assumes "fs_rep (view s) a" and "fs_ok a" and "slash_free a" and "no_nul p" and "p \<noteq> []"
    and "cwd \<in> dom (fs_dir a)"
    and "\<And>s'. fs_rep (view s') a \<Longrightarrow> Q (or_minus1 (dir_of_path a (with_slash p) cwd)) s'"
  shows "wp (getDirIdFromPath srv cwd p) Q s"
proof -
  have "(if last p \<noteq> CHR ''/'' then p @ ''/'' else p) = with_slash p" by (simp add: with_slash_def)
  moreover have "no_nul (with_slash p)" "with_slash p \<noteq> []" using assms(4,5) by (simp_all add: with_slash_def)
  moreover from this have "wp (vfs_getDirIdFromPath srv cwd (with_slash p) (length (with_slash p))) Q s"
    using assms by (intro wp_getDirIdFromPath [OF assms(1-3)]) auto
  ultimately show ?thesis using assms(5) by (simp add: getDirIdFromPath_def Let_def)
qed

lemma wp_cwdId:
  assumes rep: "fs_rep (view s) a" and ok: "fs_ok a" and sf: "slash_free a" and u: "unambiguous a"
    and w: "folder_path a w ns" and post: "\<And>s'. fs_rep (view s') a \<Longrightarrow> Q w s'"
  shows "wp (getCwdId srv (show_path ns)) Q s"
proof -
  have "dir_of_path a (show_path ns) ROOT_FOLDER_ID = Some w"
    using dir_of_show_path [OF w u, of "[]"] by simp
  then show ?thesis
    unfolding getCwdId_def getFolderIdFromAbsolutePath_def
    using fs_ok_root [OF ok] folder_path_names [OF w ok] post
    by (intro wp_dirIdFromPath [OF rep ok sf]) (auto simp: no_nul_show_path or_minus1_def ROOT_FOLDER_ID_def)
qed

lemma wp_folderIdFromPath:
  assumes rep: "fs_rep (view s) a" and ok: "fs_ok a" and sf: "slash_free a" and u: "unambiguous a"
    and w: "folder_path a w ns" and p: "no_nul p" "p \<noteq> []"
    and post: "\<And>s'. fs_rep (view s') a \<Longrightarrow> Q (or_minus1 (dir_of_path a (with_slash p) w)) s'"
  shows "wp (getFolderIdFromPath srv (show_path ns) p) Q s"
  unfolding getFolderIdFromPath_def wp_bind
  using folder_path_names [OF w ok]
  by (intro wp_cwdId [OF rep ok sf u w] wp_dirIdFromPath [OF _ ok sf p]) (auto intro: post)

text \<open>The walk to the root ends, with the absolute path of the folder.\<close>

lemma pwp_abs_path_loop:
  assumes ok: "fs_ok a" and tree: "fs_tree a" and "folder_path a d ns"
    and "fs_rep (view s) a"
    and "\<And>s'. fs_rep (view s') a \<Longrightarrow> Q (concat (map (\<lambda>n. ''/'' @ n) ns) @ out @ ''/'') s'"
  shows "pwp (abs_path_loop srv d out) Q s"
  using assms(3-5)
proof (induction arbitrary: out s rule: folder_path.induct)
  case root
  then show ?case by (simp add: pwp_def abs_path_loop.simps)
next
  case (sub d ns c)
  have dom: "c \<in> dom (fs_dir a)" by (rule ok_dir_list(1) [OF ok sub.hyps(2)])
  have c: "c \<noteq> 0" "dparent a c = d"
    using tree sub.hyps(2) dom by (auto simp: fs_tree_def dparent_def)
  have "wp (getNonRootFolderName srv c) (\<lambda>n s1. wp (getParentIdById srv c)
      (\<lambda>p. pwp (abs_path_loop srv p (''/'' @ n @ out)) Q) s1) s"
    unfolding getNonRootFolderName_def getParentIdById_def
    using c(1) sub.prems
    by (auto simp: ROOT_FOLDER_ID_def c(2) intro!: wp_cxx_folderName [OF _ ok dom]
        wp_cxx_folderParent [OF _ ok dom] sub.IH)
  then show ?case
    using c(1) by (auto simp: pwp_def wp_def abs_path_loop.simps [of srv c] split: prod.splits outcome.splits)
qed

lemma pwp_absolutePath:
  assumes "fs_ok a" and "fs_tree a" and "folder_path a d ns" and "fs_rep (view s) a"
    and "\<And>s'. fs_rep (view s') a \<Longrightarrow> Q (show_path ns) s'"
  shows "pwp (getAbsolutePathFromFolderId srv d) Q s"
proof (cases "d = 0")
  case True
  have "ns = []" using assms(3)
  proof (cases rule: folder_path.cases)
    case (sub d' ns')
    then show ?thesis using assms(2) True by (auto simp: fs_tree_def)
  qed
  then show ?thesis
    using True assms(4,5) by (simp add: getAbsolutePathFromFolderId_def ROOT_FOLDER_ID_def show_path_def)
next
  case False
  have "pwp (abs_path_loop srv d []) Q s"
    by (rule pwp_abs_path_loop [OF assms(1-4)]) (simp add: show_path_slashes assms(5))
  then show ?thesis using False by (simp add: getAbsolutePathFromFolderId_def ROOT_FOLDER_ID_def)
qed

lemma pwp_formatToValidPath:
  assumes rep: "fs_rep (view s) a" and ok: "fs_ok a" and tree: "fs_tree a" and sf: "slash_free a"
    and u: "unambiguous a" and w: "folder_path a w ns" and p: "p \<noteq> []"
    and post: "\<And>s'. fs_rep (view s') a \<Longrightarrow> Q (abs_of ns p) s'"
  shows "pwp (formatToValidPath srv (show_path ns) p) Q s"
proof -
  have w': "w \<noteq> -1" using dir_not_minus1 [OF ok] folder_path_names [OF w ok] by blast
  have dir: "dir_of_path a (show_path ns) w = Some w"
    using dir_of_show_path [OF w u, of "[]"] by simp
  have right: "pwp (pbind (getAbsolutePathFromFolderId srv d) (\<lambda>leftSide.
         pbind (ended (lift (removeAnyPathPrefix p))) (\<lambda>rightSide. ended (ret (leftSide @ rightSide))))) Q s'"
    if "folder_path a d ms" "fs_rep (view s') a" "d = (if hd p = CHR ''/'' then 0 else w)"
       "ms = (if hd p = CHR ''/'' then [] else ns)" for d ms s'
  proof -
    note choice = that(4)
    have "\<exists>r. removeAnyPathPrefix p = Ok r \<and> abs_of ns p = show_path ms @ r"
      using choice p by (auto simp: removeAnyPathPrefix_def abs_of_def show_path_def neq_Nil_conv)
    then obtain r where r: "removeAnyPathPrefix p = Ok r" "abs_of ns p = show_path ms @ r" by blast
    show ?thesis
      unfolding pwp_pbind
      by (rule pwp_absolutePath [OF ok tree that(1,2)]) (use r post in simp)
  qed
  show ?thesis
  proof (cases "hd p = CHR ''/''")
    case True
    then show ?thesis
      using p right [OF folder_path.root rep]
      by (simp add: formatToValidPath_def getParentIdOfLeftSideOfExpression_def isValidPath_def
          ROOT_FOLDER_ID_def)
  next
    case False
    have "wp (getFolderIdFromPath srv (show_path ns) (show_path ns)) (\<lambda>parentId. pwp
        (if parentId = -1 then ended (fail (Thrown ''failed to get left side of expression''))
         else pbind (getAbsolutePathFromFolderId srv parentId) (\<lambda>leftSide.
         pbind (ended (lift (removeAnyPathPrefix p))) (\<lambda>rightSide. ended (ret (leftSide @ rightSide))))) Q) s"
      using right [OF w] False w' folder_path_names [OF w ok]
      by (intro wp_folderIdFromPath [OF rep ok sf u w]) (auto simp: dir or_minus1_def no_nul_show_path)
    then show ?thesis
      using False p by (simp add: formatToValidPath_def getParentIdOfLeftSideOfExpression_def isValidPath_def)
  qed
qed

end

end
