(* ===== verification/WrapperProperties.thy ===== *)
theory WrapperProperties
  imports WrapperSpec VfsProperties
begin

text \<open>
  The properties of the user interface: absolute paths, \<^verbatim>\<open>cd\<close>, \<^verbatim>\<open>mkdir\<close>, \<^verbatim>\<open>createFile\<close> and the
  listings, for a working directory that is the absolute path of a folder.
\<close>

section \<open>Adding a folder\<close>

text \<open>A name that neither exists in the folder nor continues the name of a subfolder.\<close>

definition fresh_name :: "fs \<Rightarrow> clong \<Rightarrow> string \<Rightarrow> bool" where
  "fresh_name a d name \<longleftrightarrow>
     name \<noteq> [] \<and> CHR ''/'' \<notin> set name \<and> lookup_obj a d name = None \<and>
     (\<forall>c \<in> set (fs_subdirs a d). take (length (dname a c)) name \<noteq> dname a c)"

lemma add_dir_names:
  assumes "fs_ok a"
  shows "c \<in> dom (fs_dir a) \<Longrightarrow> dname (add_dir d name a) c = dname a c"
    and "c \<in> dom (fs_dir a) \<Longrightarrow> dparent (add_dir d name a) c = dparent a c"
    and "dname (add_dir d name a) (fs_next a) = name"
    and "fname (add_dir d name a) f = fname a f"
  using fs_ok_fresh(1) [OF assms] by (auto simp: add_dir_def dname_def dparent_def fname_def)

lemma add_dir_lists [simp]:
  "fs_subdirs (add_dir d name a) d' = (if d' = d then fs_next a # fs_subdirs a d else fs_subdirs a d')"
  "fs_files (add_dir d name a) = fs_files a"
  "fs_file (add_dir d name a) = fs_file a"
  by (simp_all add: add_dir_def)

lemma find_cong: "(\<And>x. x \<in> set xs \<Longrightarrow> P x = Q x) \<Longrightarrow> find P xs = find Q xs"
  by (induction xs) auto

lemma add_dir_unambiguous:
  assumes ok: "fs_ok a" and tree: "fs_tree a" and u: "unambiguous a" and d: "d \<in> dom (fs_dir a)"
    and fresh: "fresh_name a d name"
  shows "unambiguous (add_dir d name a)"
proof -
  let ?a = "add_dir d name a"
  note names = add_dir_names [OF ok]
  have files: "find_file ?a e n = find_file a e n" for e n by (simp add: find_file_def names)
  have search: "find (\<lambda>c. take (length n) (dname ?a c) = n) (fs_subdirs a e) =
      find (\<lambda>c. take (length n) (dname a c) = n) (fs_subdirs a e)" for e n
    by (rule find_cong) (simp add: names ok_dir_list(1) [OF ok])
  have nodot: "name \<noteq> ''.''" "name \<noteq> ''..''"
    using fresh by (auto simp: fresh_name_def lookup_obj_def find_dir_def split: option.splits)
  have "CHR ''/'' \<notin> set (dname ?a c) \<and> lookup_obj ?a e (dname ?a c) = Some (DirObj c)"
    if c: "c \<in> set (fs_subdirs ?a e)" for e c
  proof (cases "c = fs_next a \<and> e = d")
    case True
    then show ?thesis
      using fresh nodot
      by (auto simp: names files lookup_obj_def find_dir_def fresh_name_def split: option.splits)
  next
    case False
    then have old: "c \<in> set (fs_subdirs a e)" using c by (auto split: if_splits)
    have dom: "c \<in> dom (fs_dir a)" by (rule ok_dir_list(1) [OF ok old])
    have "dparent a c = e" using tree old dom by (auto simp: fs_tree_def dparent_def)
    then have e: "e \<in> dom (fs_dir a)"
      using dom fs_ok_dir [OF ok, of c] by (auto simp: dirent_ok_def dparent_def)
    have n: "dname ?a c = dname a c" by (rule names(1) [OF dom])
    have new: "take (length (dname a c)) name \<noteq> dname a c" if "e = d"
      using fresh old that by (simp add: fresh_name_def)
    have "find_dir ?a e (dname a c) = find_dir a e (dname a c)"
      using new by (auto simp: find_dir_def search names(2) [OF e] names(3))
    then have "lookup_obj ?a e (dname a c) = lookup_obj a e (dname a c)"
      unfolding lookup_obj_def files by (cases "find_file a e (dname a c)") simp_all
    then show ?thesis using u old by (simp add: n unambiguous_def)
  qed
  moreover have "dparent ?a 0 = 0"
    using u names(2) [OF fs_ok_root [OF ok]] by (simp add: unambiguous_def)
  ultimately show ?thesis by (simp add: unambiguous_def)
qed

lemma add_dir_folder_path:
  assumes ok: "fs_ok a"
  shows "folder_path a d ns \<Longrightarrow> folder_path (add_dir e name a) d ns"
proof (induction rule: folder_path.induct)
  case (sub d ns c)
  have "dname (add_dir e name a) c = dname a c"
    by (rule add_dir_names(1) [OF ok ok_dir_list(1) [OF ok sub.hyps(2)]])
  moreover have "c \<in> set (fs_subdirs (add_dir e name a) d)" using sub.hyps(2) by auto
  ultimately show ?case using folder_path.sub [OF sub.IH, of c] by simp
qed (rule folder_path.root)

section \<open>Commands\<close>

text \<open>The absolute path \<^verbatim>\<open>mkdir\<close> and \<^verbatim>\<open>createFile\<close> parse, the parent and the name they store.\<close>

definition new_parent :: "fs \<Rightarrow> vfsPathParserState_t \<Rightarrow> string \<Rightarrow> clong \<Rightarrow> (clong \<times> string) option" where
  "new_parent a st p w =
     (let (r, st') = parse_spec a st p w
      in if r = -1 then None else Some (ps_parentId st', drop (ps_nameOffset st') p))"

lemma abs_of_no_nul: "no_nul p \<Longrightarrow> list_all no_nul ns \<Longrightarrow> no_nul (abs_of ns p)"
  using no_nul_show_path by (auto simp: abs_of_def)

lemma abs_of_nonempty [simp]: "p \<noteq> [] \<Longrightarrow> abs_of ns p \<noteq> []"
  by (simp add: abs_of_def)

text \<open>A working directory: a well-formed, unambiguous tree, and the absolute path of one of its folders.\<close>

definition at_folder :: "keyspace \<Rightarrow> fs \<Rightarrow> clong \<Rightarrow> string list \<Rightarrow> bool" where
  "at_folder db a w ns \<longleftrightarrow> fs_rep db a \<and> fs_ok a \<and> fs_tree a \<and> slash_free a \<and> unambiguous a \<and> folder_path a w ns"

lemma at_folderD:
  assumes "at_folder db a w ns"
  shows "fs_rep db a" "fs_ok a" "fs_tree a" "slash_free a" "unambiguous a" "folder_path a w ns"
    "w \<in> dom (fs_dir a)" "list_all no_nul ns"
  using assms folder_path_names by (auto simp: at_folder_def)

context redis
begin

lemma pwp_mkdir:
  assumes f: "at_folder (view s) a w ns" and p: "no_nul p" "p \<noteq> []" and lt: "sint (fs_next a) < 2 ^ 63 - 1"
    and post: "\<And>s'. case new_parent a st (abs_of ns p) w of
        None \<Rightarrow> fs_rep (view s') a \<longrightarrow> Q False s'
      | Some (d, name) \<Rightarrow> fs_rep (view s') (add_dir d (c_str name) a) \<longrightarrow> Q True s'"
  shows "pwp (mkdir srv st (show_path ns) p) Q s"
proof -
  note fD = at_folderD [OF f]
  obtain r st' where spec: "parse_spec a st (abs_of ns p) w = (r, st')" by fastforce
  have rest: "wp (if r = -1 then ret False
       else bind (vfs_mkdir srv (ps_parentId st') (drop (ps_nameOffset st') (abs_of ns p))) (\<lambda>_. ret True)) Q s'"
    if "fs_rep (view s') a" for s'
    using that post fD(2) lt spec by (auto simp: new_parent_def intro!: wp_mkdir)
  show ?thesis
    unfolding mkdir_def pwp_pbind pwp_ended wp_bind
    using rest spec abs_of_no_nul [OF p(1) fD(8)] p(2)
    by (intro pwp_formatToValidPath [OF fD(1-6) p(2)] wp_cwdId [OF _ fD(2,4-6)]
        wp_parsePath [OF _ fD(2,4) _ _ fD(7)]) auto
qed

lemma pwp_createFile:
  assumes f: "at_folder (view s) a w ns" and p: "no_nul p" "p \<noteq> []" and lt: "sint (fs_next a) < 2 ^ 63 - 1"
    and post: "\<And>s'. case new_parent a st (abs_of ns p) w of
        None \<Rightarrow> fs_rep (view s') a \<longrightarrow> Q False s'
      | Some (d, name) \<Rightarrow> fs_rep (view s') (add_file d \<lparr>file_name = c_str name, file_size = 1,
          file_googleId = ''none'', file_webUrl = ''https://none.com'', file_apiUrl = ''http://none''\<rparr> a) \<longrightarrow> Q True s'"
  shows "pwp (createFile srv st (show_path ns) p) Q s"
proof -
  note fD = at_folderD [OF f]
  obtain r st' where spec: "parse_spec a st (abs_of ns p) w = (r, st')" by fastforce
  have "c_str ''none'' = ''none''" "c_str ''https://none.com'' = ''https://none.com''"
      "c_str ''http://none'' = ''http://none''"
    by (simp_all add: c_str_def)
  then have rest: "wp (if r = -1 then ret False
       else bind (vfs_createFile srv (ps_parentId st') (drop (ps_nameOffset st') (abs_of ns p))
                    1 ''none'' ''https://none.com'' ''http://none'') (\<lambda>_. ret True)) Q s'"
    if "fs_rep (view s') a" for s'
    using that post fD(2) lt spec by (auto simp: new_parent_def intro!: wp_createFile)
  show ?thesis
    unfolding createFile_def pwp_pbind pwp_ended wp_bind
    using rest spec abs_of_no_nul [OF p(1) fD(8)] p(2)
    by (intro pwp_formatToValidPath [OF fD(1-6) p(2)] wp_cwdId [OF _ fD(2,4-6)]
        wp_parsePath [OF _ fD(2,4) _ _ fD(7)]) auto
qed

lemma pwp_cd:
  assumes f: "at_folder (view s) a w ns" and p: "no_nul p" "p \<noteq> []"
    and post: "\<And>s'. fs_rep (view s') a \<Longrightarrow>
      (case dir_of_path a (with_slash (abs_of ns p)) w of
         None \<Rightarrow> Q (False, show_path ns) s'
       | Some d \<Rightarrow> \<forall>ms. folder_path a d ms \<longrightarrow> Q (True, show_path ms) s')"
  shows "pwp (cd srv (show_path ns) p) Q s"
proof -
  note fD = at_folderD [OF f]
  let ?d = "dir_of_path a (with_slash (abs_of ns p)) w"
  have rest: "pwp (if or_minus1 ?d = -1 then ended (ret (False, show_path ns))
       else pbind (getAbsolutePathFromFolderId srv (or_minus1 ?d)) (\<lambda>newCwd. ended (ret (True, newCwd)))) Q s'"
    if rep: "fs_rep (view s') a" for s'
  proof (cases ?d)
    case None
    then show ?thesis using post [OF rep] by (simp add: or_minus1_def)
  next
    case (Some d)
    have "hd (with_slash (abs_of ns p)) = CHR ''/''" using p(2) by (simp add: with_slash_def abs_of_def)
    moreover have "with_slash (abs_of ns p) \<noteq> []" using p(2) by (simp add: with_slash_def)
    ultimately have "resolve a 0 (butlast (split_slash (tl (with_slash (abs_of ns p))))) = Some d"
      using Some unfolding dir_of_path_def by simp
    then obtain ms where ms: "folder_path a d ms"
      using resolve_has_path [OF fD(2,3,5) folder_path.root] by blast
    have "d \<noteq> -1" using dir_not_minus1 [OF fD(2)] folder_path_names [OF ms fD(2)] by blast
    then show ?thesis
      using Some post ms by (auto simp: or_minus1_def intro!: pwp_absolutePath [OF fD(2,3) ms rep])
  qed
  show ?thesis
    unfolding cd_def pwp_pbind pwp_ended
    using rest abs_of_no_nul [OF p(1) fD(8)] p(2)
    by (intro pwp_formatToValidPath [OF fD(1-6) p(2)] wp_folderIdFromPath [OF _ fD(2,4-6)]) auto
qed

end

section \<open>Properties\<close>



lemma demo_lookups:
  "lookup_obj demo_fs 0 ''docs'' = Some (DirObj 1)" "lookup_obj demo_fs 1 ''..'' = Some (DirObj 0)"
  "lookup_obj demo_fs 1 ''a.txt'' = Some (FileObj 2)" "lookup_obj demo_fs 1 ''sub'' = None"
  by (simp_all add: lookup_obj_def find_file_def find_dir_def dname_def dparent_def fname_def demo_fs_eq)

lemma demo_unambiguous: "unambiguous demo_fs"
proof -
  have "fs_subdirs demo_fs d = (if d = 0 then [1] else [])" for d by (simp add: demo_fs_eq)
  moreover have "dname demo_fs 1 = ''docs''" "dparent demo_fs 0 = 0"
    by (simp_all add: dname_def dparent_def demo_fs_eq)
  ultimately show ?thesis using demo_lookups(1) by (simp add: unambiguous_def)
qed

lemma demo_folder_path: "folder_path demo_fs 1 [''docs'']"
proof -
  have "folder_path demo_fs 1 ([] @ [dname demo_fs 1])"
    by (rule folder_path.sub [OF folder_path.root]) (simp add: demo_fs_eq)
  then show ?thesis by (simp add: dname_def demo_fs_eq)
qed

lemma demo_at_folder: "\<exists>db. at_folder db demo_fs 1 [''docs'']"
  using demo_rep demo_fs_ok demo_fs_tree demo_slash_free demo_unambiguous demo_folder_path
  by (auto simp: at_folder_def)





text \<open>The absolute path of a folder is unique.\<close>

lemma folder_path_unique:
  assumes "fs_ok a" and "fs_tree a"
  shows "folder_path a d ns \<Longrightarrow> folder_path a d ms \<Longrightarrow> ns = ms"
proof (induction arbitrary: ms rule: folder_path.induct)
  case root
  then show ?case
    using assms(2) by (cases rule: folder_path.cases) (auto simp: fs_tree_def)
next
  case (sub d ns c)
  have parent: "dparent a c = e" if "c \<in> set (fs_subdirs a e)" for e
    using that assms(2) ok_dir_list(1) [OF assms(1) that] by (auto simp: fs_tree_def dparent_def)
  have "c \<noteq> 0" using sub.hyps(2) assms(2) by (auto simp: fs_tree_def)
  with sub.prems obtain e ks where "folder_path a e ks" "c \<in> set (fs_subdirs a e)" "ms = ks @ [dname a c]"
    by (cases rule: folder_path.cases) auto
  moreover from this have "e = d" using parent sub.hyps(2) by blast
  ultimately show ?case using sub.IH by simp
qed

lemma add_dir_at_folder:
  assumes "at_folder db a w ns" and "fs_rep db' (add_dir d name a)" and "d \<in> dom (fs_dir a)"
    and "fresh_name a d name" and "no_nul name" and "length name < MAX_FILENAME_SIZE"
    and "sint (fs_next a) < 2 ^ 63 - 1"
  shows "at_folder db' (add_dir d name a) w ns"
proof -
  note fD = at_folderD [OF assms(1)]
  have "request_ok (Mkdir d name) a" using assms(3,5-7) by auto
  from fs_ok_apply [OF fD(2) this] fs_tree_apply [OF fD(2,3) this]
  have "fs_ok (add_dir d name a)" "fs_tree (add_dir d name a)" using assms(5) by simp_all
  moreover have "slash_free (add_dir d name a)" using fD(4) by (simp add: slash_free_def)
  ultimately show ?thesis
    using assms(2) add_dir_unambiguous [OF fD(2,3,5) assms(3,4)] add_dir_folder_path [OF fD(2,6)]
    by (simp add: at_folder_def)
qed

lemma new_parent_fresh:
  assumes "folder_path a d ms" and "unambiguous a" and "fresh_name a d name" and "d \<noteq> -1"
  shows "new_parent a st (show_path ms @ name) w = Some (d, name)"
proof -
  let ?p = "show_path ms @ name"
  have name: "name \<noteq> []" "CHR ''/'' \<notin> set name" "lookup_obj a d name = None"
    using assms(3) by (simp_all add: fresh_name_def)
  have "last ?p \<noteq> CHR ''/''" using name(1,2) by (metis last_appendR last_in_set)
  then have strip: "strip_slash ?p = ?p" by (simp add: strip_slash_def)
  have "split_slash ?p = [] # ms @ [name]"
    using split_slash_names [of ms name] folder_path_slash [OF assms(1,2)] name(2) by (simp add: show_path_def)
  then have "last (split_slash ?p) = name" by simp
  moreover have "dir_of_path a ?p w = Some d"
    using dir_of_show_path [OF assms(1,2), of name w] name(2) by simp
  ultimately show ?thesis
    using name(1,3) by (simp add: new_parent_def parse_spec_def strip parsed_state_def Let_def)
qed



text \<open>
  \<^verbatim>\<open>lsPrettyPrint\<close> returns the names of the folders and then of the files of the folder its path
  resolves to, one per line, newest first, and changes nothing.
\<close>

theorem lsPrettyPrint_refines:
  assumes "redis_server srv view" and "at_folder (view s) a w ns" and "no_nul p" and "p \<noteq> []"
    and "dir_of_path a (with_slash p) w = Some d"
  shows "\<exists>s'. lsPrettyPrint srv (show_path ns) p s =
       (Ok (concat (map (\<lambda>c. dname a c @ [LF]) (fs_subdirs a d)) @
            concat (map (\<lambda>f. fname a f @ [LF]) (fs_files a d))), s') \<and>
     fs_rep (view s') a"
proof (rule wp_run_eq)
  note r = redis.intro [OF assms(1)] and fD = at_folderD [OF assms(2)]
  note id = redis.wp_folderIdFromPath [OF r _ fD(2,4-6) assms(3,4)]
  show "wp (lsPrettyPrint srv (show_path ns) p)
      (\<lambda>x s'. x = concat (map (\<lambda>c. dname a c @ [LF]) (fs_subdirs a d)) @
            concat (map (\<lambda>f. fname a f @ [LF]) (fs_files a d)) \<and> fs_rep (view s') a) s"
    unfolding lsPrettyPrint_def getFiles_def getFolders_def wp_bind wp_ret
    by (intro id [OF fD(1)] redis.wp_cxx_files [OF r _ fD(2)] id redis.wp_cxx_folders [OF r _ fD(2)])
       (simp_all add: assms(5) or_minus1_def comp_def)
qed

theorem lsPrettyPrint_refines_witness:
  "\<exists>db db'. fs_rep db demo_fs \<and>
     lsPrettyPrint doc_server ''/docs/'' ''.'' db = (Ok (''b.txt'' @ [LF] @ ''a.txt'' @ [LF]), db')"
proof -
  obtain db where db: "at_folder db demo_fs 1 [''docs'']" using demo_at_folder by blast
  have path: "show_path [''docs''] = ''/docs/''" by (simp add: show_path_def)
  have "lookup_obj demo_fs 1 ''.'' = Some (DirObj 1)"
    by (simp add: lookup_obj_def find_file_def find_dir_def fname_def demo_fs_eq)
  then have "dir_of_path demo_fs (with_slash ''.'') 1 = Some 1"
    by (simp add: dir_of_path_def with_slash_def)
  from lsPrettyPrint_refines [of doc_server "\<lambda>db. db" db demo_fs 1 "[''docs'']" "''.''",
      OF redis_server_doc_server db _ _ this] at_folderD(1) [OF db] path
  show ?thesis by (auto simp: demo_fs_eq fname_def)
qed

end
