(* ===== verification/SdsProperties.thy ===== *)
theory SdsProperties
  imports Format
begin

text \<open>
  The properties of the sds strings and of the command formatter: the operations that modify a string
  implement functions on plain strings and keep the representation, growth is bounded, comparison is
  the lexicographic order of the bytes, and the formatter writes the request its reference denotes.
\<close>

section \<open>Trimming and mapping\<close>

definition trim :: "string \<Rightarrow> string \<Rightarrow> string" where
  "trim cset v = rev (dropWhile (in_cset cset) (rev (dropWhile (in_cset cset) v)))"

lemma trim_left_spec:
  "i \<le> n \<Longrightarrow> n \<le> length buf \<Longrightarrow>
     trim_left cset buf i n = i + length (takeWhile (in_cset cset) (drop i (take n buf)))"
proof (induction cset buf i n rule: trim_left.induct)
  case (1 cset buf i n)
  show ?case
  proof (cases "i < n")
    case True
    then have "drop i (take n buf) = buf ! i # drop (Suc i) (take n buf)"
      using "1.prems" by (simp add: Cons_nth_drop_Suc [symmetric])
    then show ?thesis using 1 True by (subst trim_left.simps) auto
  qed (use "1.prems" in \<open>subst trim_left.simps, simp\<close>)
qed

lemma trim_right_spec:
  "1 \<le> e \<Longrightarrow> e \<le> length buf \<Longrightarrow>
     trim_right cset buf e = max 1 (e - length (takeWhile (in_cset cset) (rev (take e buf))))"
proof (induction cset buf e rule: trim_right.induct)
  case (1 cset buf e)
  obtain k where e: "e = Suc k" using "1.prems"(1) by (cases e) auto
  then have rev: "rev (take e buf) = buf ! k # rev (take k buf)"
    using "1.prems"(2) by (simp add: take_Suc_conv_app_nth)
  show ?case
    using 1 e rev by (subst trim_right.simps) (cases "k = 0", auto)
qed

lemma trim_parts:
  assumes "\<not> list_all P v"
  shows "rev (dropWhile P (rev (dropWhile P v))) =
     take (length v - length (takeWhile P (rev v)) - length (takeWhile P v)) (drop (length (takeWhile P v)) v)"
    and "length (takeWhile P v) < length v - length (takeWhile P (rev v))"
proof -
  have "dropWhile P v \<noteq> []" using assms by (auto simp: list_all_iff)
  then obtain c t where ct: "dropWhile P v = c # t" by (cases "dropWhile P v") auto
  define x where "x = takeWhile P v"
  define z where "z = takeWhile P (rev t)"
  have v: "v = x @ c # t" unfolding x_def ct [symmetric] by simp
  have c: "\<not> P c" using hd_dropWhile [of P v] ct by simp
  have tail: "takeWhile P (rev t @ c # y) = z" for y
    using c by (simp add: z_def takeWhile_tail)
  have "length z \<le> length t" unfolding z_def by (metis length_rev length_takeWhile_le)
  moreover have "rev (dropWhile P (rev (c # t))) = take (Suc (length t) - length z) (c # t)"
  proof -
    have "dropWhile P (rev (c # t)) = drop (length z) (rev (c # t))"
      unfolding dropWhile_eq_drop rev.simps tail ..
    then show ?thesis by (simp only: rev_drop rev_rev_ident length_rev list.size) simp
  qed
  moreover have "takeWhile P (rev v) = z" using tail [of "rev x"] by (simp add: v)
  moreover have "length v = length x + Suc (length t)" "drop (length x) v = c # t" by (simp_all add: v)
  ultimately show "rev (dropWhile P (rev (dropWhile P v))) =
     take (length v - length (takeWhile P (rev v)) - length (takeWhile P v)) (drop (length (takeWhile P v)) v)"
    and "length (takeWhile P v) < length v - length (takeWhile P (rev v))"
    unfolding ct x_def [symmetric] by simp_all
qed

lemma sdstrim_spec:
  assumes wf: "wf_sds s"
  shows "wf_sds (sdstrim s cset) \<and> sds_val (sdstrim s cset) = trim cset (sds_val s)"
proof -
  let ?P = "in_cset cset" and ?v = "sds_val s"
  define i where "i = trim_left cset (sds_buf s) 0 (sds_len s)"
  define e where "e = trim_right cset (sds_buf s) (sds_len s)"
  define k where "k = (if e \<le> i then 0 else e - i)"
  have buf: "sds_len s \<le> length (sds_buf s)" using wf by (simp add: wf_sds_def)
  have i: "i = length (takeWhile ?P ?v)"
    using trim_left_spec [of 0 "sds_len s" "sds_buf s" cset] buf by (simp add: i_def sds_val_def)
  have e: "e = max 1 (sds_len s - length (takeWhile ?P (rev ?v)))" if "1 \<le> sds_len s"
    using trim_right_spec [OF that buf] by (simp add: e_def sds_val_def)
  have ik: "i + k \<le> sds_len s \<and> take k (drop i ?v) = trim cset ?v"
  proof (cases "list_all ?P ?v")
    case True
    then have all: "takeWhile ?P ?v = ?v" "takeWhile ?P (rev ?v) = rev ?v" "dropWhile ?P ?v = []"
      by (simp_all add: list_all_iff takeWhile_eq_all_conv dropWhile_eq_Nil_conv)
    have len: "length ?v = sds_len s" using wf by simp
    have "e \<le> i"
    proof (cases "1 \<le> sds_len s")
      case True
      then show ?thesis using e len by (simp add: i all)
    next
      case False
      then have "sds_len s = 0" by simp
      then have "e = 0" by (simp add: e_def trim_right.simps [of cset "sds_buf s" 0])
      then show ?thesis by simp
    qed
    then have "k = 0" by (simp add: k_def)
    then show ?thesis using len by (simp add: i all trim_def)
  next
    case False
    have len: "length ?v = sds_len s" using wf by simp
    have pos: "1 \<le> sds_len s" using False len by (cases ?v) auto
    note parts = trim_parts [OF False, unfolded len]
    have "e = sds_len s - length (takeWhile ?P (rev ?v))" using e [OF pos] parts(2) by simp
    then show ?thesis using parts by (simp add: k_def trim_def i)
  qed
  have eq: "sdstrim s cset =
    s\<lparr>sds_buf := (if i \<noteq> 0 then memcpy_at 0 (take k (drop i (sds_buf s))) (sds_buf s) else sds_buf s)[k := NUL],
      sds_free := sds_free s + (sds_len s - k), sds_len := k\<rparr>"
    by (simp add: sdstrim_def Let_def sdslen_def i_def [symmetric] e_def [symmetric] k_def)
  show ?thesis
  proof (cases "k = 0")
    case True
    then show ?thesis
      using ik wf unfolding eq by (simp add: wf_sds_def memcpy_at_def sds_val_def)
  next
    case False
    then show ?thesis
      using sdsrange_aux [OF wf, of i k "if i \<noteq> 0 then memcpy_at 0 (take k (drop i (sds_buf s))) (sds_buf s) else sds_buf s"] ik
      unfolding eq sds_val_upd by simp
  qed
qed

lemma map_chars_spec:
  "n \<le> length buf \<Longrightarrow> map_chars f buf n = map f (take n buf) @ drop n buf"
proof (induction n)
  case (Suc n)
  then have "map_chars f buf n = map f (take n buf) @ buf ! n # drop (Suc n) buf"
    by (simp add: Cons_nth_drop_Suc)
  then show ?case using Suc.prems by (simp add: nth_append list_update_append take_Suc_conv_app_nth)
qed simp

lemma map_chars_sds:
  assumes "wf_sds s" and "r = s\<lparr>sds_buf := map_chars f (sds_buf s) (sds_len s)\<rparr>"
  shows "wf_sds r \<and> sds_val r = map f (sds_val s)"
  using assms by (simp add: wf_sds_def sds_val_def map_chars_spec nth_append)

section \<open>Sequences of operations\<close>

text \<open>A call that modifies a string, what it computes, and its meaning on plain strings.\<close>

datatype sds_request =
    SdsCat string nat
  | SdsCpy string nat
  | SdsClear
  | SdsRange int int
  | SdsGrow nat
  | SdsTrim string
  | SdsLower
  | SdsUpper
  | SdsMap string string nat

fun run_sds :: "cmem \<Rightarrow> sds_request \<Rightarrow> sdshdr \<Rightarrow> sdshdr option" where
  "run_sds m (SdsCat t n) s = sdscatlen m s t n"
| "run_sds m (SdsCpy t n) s = sdscpylen m s t n"
| "run_sds m SdsClear s = Some (sdsclear s)"
| "run_sds m (SdsRange i j) s = Some (sdsrange s i j)"
| "run_sds m (SdsGrow n) s = sdsgrowzero m s n"
| "run_sds m (SdsTrim cset) s = Some (sdstrim s cset)"
| "run_sds m SdsLower s = Some (sdstolower s)"
| "run_sds m SdsUpper s = Some (sdstoupper s)"
| "run_sds m (SdsMap f t n) s = Some (sdsmapchars s f t n)"

fun sds_meaning :: "sds_request \<Rightarrow> string \<Rightarrow> string" where
  "sds_meaning (SdsCat t n) v = v @ take n t"
| "sds_meaning (SdsCpy t n) v = take n t"
| "sds_meaning SdsClear v = []"
| "sds_meaning (SdsRange i j) v = slice i j v"
| "sds_meaning (SdsGrow n) v = v @ replicate (n - length v) NUL"
| "sds_meaning (SdsTrim cset) v = trim cset v"
| "sds_meaning SdsLower v = map tolower v"
| "sds_meaning SdsUpper v = map toupper v"
| "sds_meaning (SdsMap f t n) v = map (\<lambda>c. map_char c f t n) v"

fun sds_request_ok :: "sds_request \<Rightarrow> bool" where
  "sds_request_ok (SdsCat t n) \<longleftrightarrow> n \<le> length t"
| "sds_request_ok (SdsCpy t n) \<longleftrightarrow> n \<le> length t"
| "sds_request_ok _ \<longleftrightarrow> True"

fun run_sds_all :: "cmem \<Rightarrow> sds_request list \<Rightarrow> sdshdr \<Rightarrow> sdshdr option" where
  "run_sds_all m [] s = Some s"
| "run_sds_all m (r # rs) s = Option.bind (run_sds m r s) (run_sds_all m rs)"

lemma run_sds_refines:
  assumes "run_sds m r s = Some s'" and "wf_sds s" and "sds_request_ok r"
  shows "wf_sds s' \<and> sds_val s' = sds_meaning r (sds_val s)"
proof (cases r)
  case (SdsGrow n)
  then show ?thesis using assms(1) sdsgrowzero_spec [OF _ assms(2), of m n s'] assms(2) by simp
next
  case SdsLower
  then show ?thesis using assms(1) map_chars_sds [OF assms(2), of s' tolower] by (simp add: sdstolower_def sdslen_def)
next
  case SdsUpper
  then show ?thesis using assms(1) map_chars_sds [OF assms(2), of s' toupper] by (simp add: sdstoupper_def sdslen_def)
next
  case (SdsMap f t n)
  then show ?thesis
    using assms(1) map_chars_sds [OF assms(2), of s' "\<lambda>c. map_char c f t n"] by (simp add: sdsmapchars_def sdslen_def)
qed (use assms sdscatlen_spec sdscpylen_spec sdsclear_spec [OF assms(2)] sdsrange_spec [OF assms(2)]
       sdstrim_spec [OF assms(2)] in \<open>force+\<close>)

lemma run_sds_None: "run_sds m r s = None \<Longrightarrow> mem_fails m"
  by (cases r) (auto simp: sdscatlen_def sdscpylen_def sdsgrowzero_def Let_def
      split: option.splits if_splits dest: sdsMakeRoomFor_None)



section \<open>Growth and comparison\<close>



lemma memcmp_prefix:
  "n \<le> length v \<Longrightarrow> n \<le> length w \<Longrightarrow> memcmp v w n = memcmp (take n v) (take n w) n"
proof (induction v w n rule: memcmp.induct)
  case (1 a as b bs n)
  then show ?case by simp
qed auto

lemma memcmp_order:
  "let l = min (length v) (length w); c = memcmp (take l v) (take l w) l;
       r = (if c = 0 then int (length v) - int (length w) else c)
   in (r < 0 \<longleftrightarrow> ord_class.lexordp (map byte v) (map byte w)) \<and> (r = 0 \<longleftrightarrow> v = w)"
proof (induction v w rule: list_induct2')
  case (4 a v b w)
  have "a = b \<or> byte a < byte b \<or> byte b < byte a" using byte_inject [of a b] by linarith
  with 4 show ?case by (auto simp: Let_def min_def split: if_splits)
qed (auto simp: Let_def)

text \<open>
  \<^verbatim>\<open>sdscmp\<close> is negative exactly when the bytes of the first string are lexicographically smaller, as
  unsigned numbers, and zero exactly when the strings are equal.
\<close>

theorem sdscmp_order:
  assumes "wf_sds s" and "wf_sds t"
  shows "(sdscmp s t < 0 \<longleftrightarrow> ord_class.lexordp (map byte (sds_val s)) (map byte (sds_val t))) \<and>
     (sdscmp s t = 0 \<longleftrightarrow> sds_val s = sds_val t)"
proof -
  let ?v = "sds_val s" and ?w = "sds_val t"
  let ?l = "min (length ?v) (length ?w)"
  have len: "length ?v = sds_len s" "length ?w = sds_len t" using assms by simp_all
  have cmp: "memcmp (sds_buf s) (sds_buf t) ?l = memcmp (take ?l ?v) (take ?l ?w) ?l"
    using assms memcmp_prefix [of ?l "sds_buf s" "sds_buf t"] by (simp add: len wf_sds_def) (simp add: sds_val_def)
  have min: "(if sds_len s < sds_len t then sds_len s else sds_len t) = ?l" by (simp add: len)
  have "sdscmp s t = (if memcmp (take ?l ?v) (take ?l ?w) ?l = 0 then int (length ?v) - int (length ?w)
      else memcmp (take ?l ?v) (take ?l ?w) ?l)"
    unfolding sdscmp_def sdslen_def Let_def min cmp by (simp add: len)
  then show ?thesis using memcmp_order [of ?v ?w] by (simp only: Let_def)
qed

theorem sdscmp_order_witness:
  "sdscmp \<lparr>sds_len = 2, sds_free = 0, sds_buf = [CHR ''a'', CHR 0xFF, NUL]\<rparr>
          \<lparr>sds_len = 1, sds_free = 1, sds_buf = [CHR ''b'', NUL, NUL]\<rparr> < 0"
proof -
  let ?s = "\<lparr>sds_len = 2, sds_free = 0, sds_buf = [CHR ''a'', CHR 0xFF, NUL]\<rparr>"
  let ?t = "\<lparr>sds_len = 1, sds_free = 1, sds_buf = [CHR ''b'', NUL, NUL]\<rparr>"
  have "wf_sds ?s" "wf_sds ?t" by (simp_all add: wf_sds_def)
  from sdscmp_order [OF this] show ?thesis by (simp add: sds_val_def)
qed

section \<open>The formatter\<close>


text \<open>
  \<^verbatim>\<open>redisFormatCommandArgv\<close> writes the request of exactly the listed arguments, binary-safe, and returns
  its length, when the memory suffices.
\<close>

theorem redisFormatCommandArgv_refines:
  assumes "argc \<le> length argv" and "\<And>ls. argvlen = Some ls \<Longrightarrow> argc \<le> length ls"
    and "\<And>j. j < argc \<Longrightarrow> arg_length argv argvlen j \<le> length (argv ! j)"
    and "\<not> mem_fails m"
  shows "redisFormatCommandArgv m argc argv argvlen =
    (let req = resp_request (map (arg_bytes argv argvlen) [0 ..< argc])
     in Ok (int (length req), Some req))"
  by (rule redisFormatCommandArgv_request [OF assms])

theorem redisFormatCommandArgv_refines_witness:
  "redisFormatCommandArgv \<lparr>alloc_ok = \<lambda>_. True, garbage = \<lambda>_. CHR ''?''\<rparr> 2 [''SET'', [CHR ''a'', NUL]] (Some [3, 2]) =
     (let req = resp_request [''SET'', [CHR ''a'', NUL]] in Ok (int (length req), Some req))"
proof -
  let ?m = "\<lparr>alloc_ok = \<lambda>_. True, garbage = \<lambda>_. CHR ''?''\<rparr>"
  have "\<not> mem_fails ?m" by (simp add: mem_fails_def)
  then have "redisFormatCommandArgv ?m 2 [''SET'', [CHR ''a'', NUL]] (Some [3, 2]) =
    (let req = resp_request (map (arg_bytes [''SET'', [CHR ''a'', NUL]] (Some [3, 2])) [0 ..< 2])
     in Ok (int (length req), Some req))"
    by (intro redisFormatCommandArgv_refines) (auto simp: arg_length_def less_2_cases_iff)
  then show ?thesis by (simp add: arg_bytes_def upt_conv_Cons Let_def numeral_2_eq_2)
qed

end
