(* ===== verification/Dict.thy ===== *)
theory Dict
  imports Format
begin

unbundle bit_operations_syntax

text \<open>
  The hash table \<^verbatim>\<open>hiredis/dict.c\<close>. A table is a list of buckets, a bucket the list of its entries in
  the order of the chain; the functions of a \<^verbatim>\<open>dictType\<close> are a record of functions, with \<open>None\<close> for
  NULL. The calls of destructors an operation makes are returned as a list. The results of \<^verbatim>\<open>malloc\<close>
  and \<^verbatim>\<open>calloc\<close> are used without a test, so a failing allocation is a null dereference; in
  \<^verbatim>\<open>dictExpand\<close> it happens in the caller, which indexes the new table at once.
\<close>

section \<open>Types\<close>

record ('k, 'v) dictType =
  hashFunction :: "'k \<Rightarrow> cint"
  keyDup :: "('k \<Rightarrow> 'k) option"
  valDup :: "('v \<Rightarrow> 'v) option"
  keyCompare :: "('k \<Rightarrow> 'k \<Rightarrow> bool) option"
  keyDestructor :: bool
  valDestructor :: bool

record ('k, 'v) dict =
  d_type :: "('k, 'v) dictType"
  d_table :: "('k \<times> 'v) list list"
  d_size :: nat
  d_sizemask :: nat
  d_used :: nat

datatype ('k, 'v) freed = FreeKey 'k | FreeVal 'v

definition DICT_HT_INITIAL_SIZE :: nat where "DICT_HT_INITIAL_SIZE = 4"

definition LONG_MAX :: nat where "LONG_MAX = 2 ^ 63 - 1"

text \<open>The macros.\<close>

definition dictFreeEntryVal :: "('k, 'v) dict \<Rightarrow> 'v \<Rightarrow> ('k, 'v) freed list" where
  "dictFreeEntryVal ht v = (if valDestructor (d_type ht) then [FreeVal v] else [])"

definition dictFreeEntryKey :: "('k, 'v) dict \<Rightarrow> 'k \<Rightarrow> ('k, 'v) freed list" where
  "dictFreeEntryKey ht k = (if keyDestructor (d_type ht) then [FreeKey k] else [])"

definition dictSetHashVal :: "('k, 'v) dict \<Rightarrow> 'v \<Rightarrow> 'v" where
  "dictSetHashVal ht v = (case valDup (d_type ht) of None \<Rightarrow> v | Some f \<Rightarrow> f v)"

definition dictSetHashKey :: "('k, 'v) dict \<Rightarrow> 'k \<Rightarrow> 'k" where
  "dictSetHashKey ht k = (case keyDup (d_type ht) of None \<Rightarrow> k | Some f \<Rightarrow> f k)"

definition dictCompareHashKeys :: "('k, 'v) dict \<Rightarrow> 'k \<Rightarrow> 'k \<Rightarrow> bool" where
  "dictCompareHashKeys ht key1 key2 =
     (case keyCompare (d_type ht) of Some f \<Rightarrow> f key1 key2 | None \<Rightarrow> key1 = key2)"

text \<open>\<^verbatim>\<open>dictHashKey(ht, key) & sizemask\<close>\<close>

definition slot :: "('k, 'v) dict \<Rightarrow> nat \<Rightarrow> 'k \<Rightarrow> nat" where
  "slot ht sizemask key = unat (hashFunction (d_type ht) key) AND sizemask"

definition dictSize :: "('k, 'v) dict \<Rightarrow> nat" where
  "dictSize ht = d_used ht"

section \<open>Hashing\<close>

fun hash_bytes :: "cint \<Rightarrow> string \<Rightarrow> cint" where
  "hash_bytes hash [] = hash"
| "hash_bytes hash (c # cs) = hash_bytes ((push_bit 5 hash + hash) + of_nat (byte c)) cs"

definition dictGenHashFunction :: "string \<Rightarrow> nat \<Rightarrow> cint" where
  "dictGenHashFunction buf len = hash_bytes 5381 (take len buf)"

section \<open>Creating and growing\<close>

definition dictReset :: "('k, 'v) dict \<Rightarrow> ('k, 'v) dict" where
  "dictReset ht = ht\<lparr>d_table := [], d_size := 0, d_sizemask := 0, d_used := 0\<rparr>"

definition dictInit :: "('k, 'v) dictType \<Rightarrow> ('k, 'v) dict" where
  "dictInit ty = \<lparr>d_type = ty, d_table = [], d_size = 0, d_sizemask = 0, d_used = 0\<rparr>"

text \<open>\<^verbatim>\<open>sizeof(dict)\<close>, \<^verbatim>\<open>sizeof(dictEntry)\<close>, \<^verbatim>\<open>sizeof(dictEntry*)\<close>\<close>

definition dict_bytes :: nat where "dict_bytes = 48"
definition entry_bytes :: nat where "entry_bytes = 24"

definition dictCreate :: "cmem \<Rightarrow> ('k, 'v) dictType \<Rightarrow> ('k, 'v) dict outcome" where
  "dictCreate m ty = (if \<not> alloc_ok m dict_bytes then Fault NullDeref else Ok (dictInit ty))"

text \<open>The doubling loop; its counter starts at 4 and is never 0.\<close>

function next_power_loop :: "nat \<Rightarrow> nat \<Rightarrow> nat" where
  "next_power_loop i sz = (if i \<ge> sz \<or> i = 0 then i else next_power_loop (i * 2) sz)"
  by pat_completeness auto
termination
  by (relation "measure (\<lambda>(i, sz). sz - i)") auto

declare next_power_loop.simps [simp del]

definition dictNextPower :: "nat \<Rightarrow> nat" where
  "dictNextPower sz = (if sz \<ge> LONG_MAX then LONG_MAX else next_power_loop DICT_HT_INITIAL_SIZE sz)"

text \<open>\<^verbatim>\<open>used--\<close> on an unsigned long.\<close>

definition dec_used :: "nat \<Rightarrow> nat" where
  "dec_used n = (if n = 0 then 2 ^ 64 - 1 else n - 1)"

definition push_entry :: "nat \<Rightarrow> 'e \<Rightarrow> 'e list list \<Rightarrow> 'e list list" where
  "push_entry h e t = t[h := e # t ! h]"

fun move_chain ::
    "('k, 'v) dict \<Rightarrow> nat \<Rightarrow> ('k \<times> 'v) list \<Rightarrow> ('k \<times> 'v) list list \<Rightarrow> nat \<Rightarrow> ('k \<times> 'v) list list \<times> nat" where
  "move_chain ht sizemask [] t used = (t, used)"
| "move_chain ht sizemask (e # es) t used =
     move_chain ht sizemask es (push_entry (slot ht sizemask (fst e)) e t) (dec_used used)"

fun rehash_loop ::
    "('k, 'v) dict \<Rightarrow> nat \<Rightarrow> ('k \<times> 'v) list list \<Rightarrow> ('k \<times> 'v) list list \<Rightarrow> nat \<Rightarrow> ('k \<times> 'v) list list \<times> nat" where
  "rehash_loop ht sizemask [] t used = (t, used)"
| "rehash_loop ht sizemask (b # bs) t used =
     (if used > 0 then
        let (t', used') = move_chain ht sizemask b t used in rehash_loop ht sizemask bs t' used'
      else (t, used))"

definition dictExpand :: "cmem \<Rightarrow> ('k, 'v) dict \<Rightarrow> nat \<Rightarrow> (bool \<times> ('k, 'v) dict) outcome" where
  "dictExpand m ht sz =
     (let realsize = dictNextPower sz in
      if d_used ht > sz then Ok (False, ht)
      else if \<not> alloc_ok m (realsize * ptr_size) then Fault NullDeref
      else
        let (t, used) = rehash_loop ht (realsize - 1) (d_table ht) (replicate realsize []) (d_used ht)
        in if used \<noteq> 0 then Fault AssertFailure
           else Ok (True, ht\<lparr>d_table := t, d_size := realsize, d_sizemask := realsize - 1\<rparr>))"

definition dictExpandIfNeeded :: "cmem \<Rightarrow> ('k, 'v) dict \<Rightarrow> (bool \<times> ('k, 'v) dict) outcome" where
  "dictExpandIfNeeded m ht =
     (if d_size ht = 0 then dictExpand m ht DICT_HT_INITIAL_SIZE
      else if d_used ht = d_size ht then dictExpand m ht (d_size ht * 2)
      else Ok (True, ht))"

section \<open>Operations\<close>

text \<open>The search along a chain.\<close>

fun find_entry :: "('k, 'v) dict \<Rightarrow> 'k \<Rightarrow> ('k \<times> 'v) list \<Rightarrow> ('k \<times> 'v) option" where
  "find_entry ht key [] = None"
| "find_entry ht key (e # es) =
     (if dictCompareHashKeys ht key (fst e) then Some e else find_entry ht key es)"

text \<open>The slot is returned as an \<^verbatim>\<open>int\<close>.\<close>

definition dictKeyIndex :: "cmem \<Rightarrow> ('k, 'v) dict \<Rightarrow> 'k \<Rightarrow> (int \<times> ('k, 'v) dict) outcome" where
  "dictKeyIndex m ht key =
     obind (dictExpandIfNeeded m ht) (\<lambda>(ok, ht1).
       if \<not> ok then Ok (-1, ht1)
       else
         let h = slot ht1 (d_sizemask ht1) key
         in if h \<ge> length (d_table ht1) then Fault OutOfBounds
            else
              (case find_entry ht1 key (d_table ht1 ! h) of
                 Some _ \<Rightarrow> Ok (-1, ht1)
               | None \<Rightarrow> Ok (sint (of_nat h :: cint), ht1)))"

definition dictAdd :: "cmem \<Rightarrow> ('k, 'v) dict \<Rightarrow> 'k \<Rightarrow> 'v \<Rightarrow> (bool \<times> ('k, 'v) dict) outcome" where
  "dictAdd m ht key val =
     obind (dictKeyIndex m ht key) (\<lambda>(index, ht1).
       if index = -1 then Ok (False, ht1)
       else if \<not> alloc_ok m entry_bytes then Fault NullDeref
       else if index < 0 \<or> nat index \<ge> length (d_table ht1) then Fault OutOfBounds
       else Ok (True, ht1\<lparr>d_table := push_entry (nat index) (dictSetHashKey ht1 key, dictSetHashVal ht1 val)
                                     (d_table ht1),
                          d_used := d_used ht1 + 1\<rparr>))"

definition dictFind :: "('k, 'v) dict \<Rightarrow> 'k \<Rightarrow> ('k \<times> 'v) option outcome" where
  "dictFind ht key =
     (if d_size ht = 0 then Ok None
      else
        let h = slot ht (d_sizemask ht) key
        in if h \<ge> length (d_table ht) then Fault OutOfBounds
           else Ok (find_entry ht key (d_table ht ! h)))"

text \<open>Storing a value in the first entry of the key.\<close>

fun set_value :: "('k, 'v) dict \<Rightarrow> 'k \<Rightarrow> 'v \<Rightarrow> ('k \<times> 'v) list \<Rightarrow> ('k \<times> 'v) list" where
  "set_value ht key v [] = []"
| "set_value ht key v (e # es) =
     (if dictCompareHashKeys ht key (fst e) then (fst e, v) # es else e # set_value ht key v es)"

definition dictReplace ::
    "cmem \<Rightarrow> ('k, 'v) dict \<Rightarrow> 'k \<Rightarrow> 'v \<Rightarrow> (bool \<times> ('k, 'v) dict \<times> ('k, 'v) freed list) outcome" where
  "dictReplace m ht key val =
     obind (dictAdd m ht key val) (\<lambda>(ok, ht1).
       if ok then Ok (True, ht1, [])
       else
         obind (dictFind ht1 key) (\<lambda>entry.
           case entry of
             None \<Rightarrow> Fault NullDeref
           | Some auxentry \<Rightarrow>
               let h = slot ht1 (d_sizemask ht1) key
               in Ok (False,
                      ht1\<lparr>d_table := (d_table ht1)[h := set_value ht1 key (dictSetHashVal ht1 val) (d_table ht1 ! h)]\<rparr>,
                      dictFreeEntryVal ht1 (snd auxentry))))"

fun remove_entry :: "('k, 'v) dict \<Rightarrow> 'k \<Rightarrow> ('k \<times> 'v) list \<Rightarrow> ('k \<times> 'v) list" where
  "remove_entry ht key [] = []"
| "remove_entry ht key (e # es) =
     (if dictCompareHashKeys ht key (fst e) then es else e # remove_entry ht key es)"

definition dictDelete :: "('k, 'v) dict \<Rightarrow> 'k \<Rightarrow> (bool \<times> ('k, 'v) dict \<times> ('k, 'v) freed list) outcome" where
  "dictDelete ht key =
     (if d_size ht = 0 then Ok (False, ht, [])
      else
        let h = slot ht (d_sizemask ht) key
        in if h \<ge> length (d_table ht) then Fault OutOfBounds
           else
             (case find_entry ht key (d_table ht ! h) of
                None \<Rightarrow> Ok (False, ht, [])
              | Some de \<Rightarrow>
                  Ok (True,
                      ht\<lparr>d_table := (d_table ht)[h := remove_entry ht key (d_table ht ! h)],
                         d_used := dec_used (d_used ht)\<rparr>,
                      dictFreeEntryKey ht (fst de) @ dictFreeEntryVal ht (snd de))))"

fun clear_chain :: "('k, 'v) dict \<Rightarrow> ('k \<times> 'v) list \<Rightarrow> nat \<Rightarrow> ('k, 'v) freed list \<times> nat" where
  "clear_chain ht [] used = ([], used)"
| "clear_chain ht (he # es) used =
     (let (fs, used') = clear_chain ht es (dec_used used)
      in (dictFreeEntryKey ht (fst he) @ dictFreeEntryVal ht (snd he) @ fs, used'))"

fun clear_loop :: "('k, 'v) dict \<Rightarrow> ('k \<times> 'v) list list \<Rightarrow> nat \<Rightarrow> ('k, 'v) freed list" where
  "clear_loop ht [] used = []"
| "clear_loop ht (b # bs) used =
     (if used > 0 then let (fs, used') = clear_chain ht b used in fs @ clear_loop ht bs used' else [])"

definition dictClear :: "('k, 'v) dict \<Rightarrow> ('k, 'v) dict \<times> ('k, 'v) freed list" where
  "dictClear ht = (dictReset ht, clear_loop ht (d_table ht) (d_used ht))"

definition dictRelease :: "('k, 'v) dict \<Rightarrow> ('k, 'v) freed list" where
  "dictRelease ht = snd (dictClear ht)"

section \<open>Iteration\<close>

text \<open>
  An iterator holds the chain from the entry it returned last, and the chain behind it; \<open>[]\<close> is NULL.
\<close>

record ('k, 'v) dictIterator =
  it_index :: int
  it_entry :: "('k \<times> 'v) list"
  it_nextEntry :: "('k \<times> 'v) list"

definition dictGetIterator :: "cmem \<Rightarrow> ('k, 'v) dictIterator outcome" where
  "dictGetIterator m =
     (if \<not> alloc_ok m 32 then Fault NullDeref
      else Ok \<lparr>it_index = -1, it_entry = [], it_nextEntry = []\<rparr>)"

function dictNext :: "('k, 'v) dict \<Rightarrow> ('k, 'v) dictIterator \<Rightarrow> (('k \<times> 'v) option \<times> ('k, 'v) dictIterator)" where
  "dictNext ht iter =
     (if it_entry iter = [] then
        let index = it_index iter + 1
        in if index \<ge> int (d_size ht) then (None, iter\<lparr>it_index := index\<rparr>)
           else
             let entry = d_table ht ! nat index
             in if entry \<noteq> [] then (Some (hd entry), iter\<lparr>it_index := index, it_entry := entry, it_nextEntry := tl entry\<rparr>)
                else dictNext ht (iter\<lparr>it_index := index, it_entry := []\<rparr>)
      else if it_nextEntry iter \<noteq> [] then
        (Some (hd (it_nextEntry iter)),
         iter\<lparr>it_entry := it_nextEntry iter, it_nextEntry := tl (it_nextEntry iter)\<rparr>)
      else dictNext ht (iter\<lparr>it_entry := []\<rparr>))"
  by pat_completeness auto
termination
  by (relation "measures [\<lambda>(ht, iter). nat (int (d_size ht) - it_index iter), \<lambda>(ht, iter). length (it_entry iter)]") auto

declare dictNext.simps [simp del]

end
