(* ===== verification/DictSpec.thy ===== *)
theory DictSpec
  imports Dict
begin

text \<open>
  The hash table implements a finite map. \<open>dict_ok\<close> is the invariant of a table: its size is zero or a
  power of two, every key is in the bucket of its hash, no bucket has a key twice, and \<^verbatim>\<open>used\<close> counts
  the entries; \<open>dict_map\<close> is the map it stands for. The interface \<open>finite_map\<close> states what a client may
  rely on, and the table is an instance of it.
\<close>

section \<open>Interface\<close>

locale finite_map =
  fixes find :: "'d \<Rightarrow> 'k \<Rightarrow> 'v option outcome"
    and replace :: "'d \<Rightarrow> 'k \<Rightarrow> 'v \<Rightarrow> (bool \<times> 'd) outcome"
    and delete :: "'d \<Rightarrow> 'k \<Rightarrow> (bool \<times> 'd) outcome"
    and count :: "'d \<Rightarrow> nat"
    and ok :: "'d \<Rightarrow> bool"
    and abs :: "'d \<Rightarrow> 'k \<rightharpoonup> 'v"
  assumes find: "ok d \<Longrightarrow> find d k = Ok (abs d k)"
    and replace: "ok d \<Longrightarrow> count d < 2 ^ 30 \<Longrightarrow>
      \<exists>d'. replace d k v = Ok (abs d k = None, d') \<and> ok d' \<and> abs d' = (abs d)(k \<mapsto> v)"
    and delete: "ok d \<Longrightarrow> \<exists>d'. delete d k = Ok (abs d k \<noteq> None, d') \<and> ok d' \<and> abs d' = (abs d)(k := None)"
    and count: "ok d \<Longrightarrow> finite (dom (abs d)) \<and> count d = card (dom (abs d))"
begin

lemma find_replaced:
  assumes "ok d" and "count d < 2 ^ 30"
  shows "\<exists>b d'. replace d k v = Ok (b, d') \<and> find d' k' = Ok (if k' = k then Some v else abs d k')"
  using replace [OF assms, of k v] find by fastforce

lemma replace_count:
  assumes "ok d" and "count d < 2 ^ 30"
  shows "\<exists>b d'. replace d k v = Ok (b, d') \<and> ok d' \<and> count d' = (if b then count d + 1 else count d)"
proof -
  obtain d' where d': "replace d k v = Ok (abs d k = None, d')" "ok d'" "abs d' = (abs d)(k \<mapsto> v)"
    using replace [OF assms] by blast
  then have "count d' = card (insert k (dom (abs d)))" using count [OF d'(2)] by simp
  then show ?thesis using d'(1,2) count [OF assms(1)] by (auto simp: card_insert_if insert_absorb)
qed

lemma delete_count:
  assumes "ok d"
  shows "\<exists>b d'. delete d k = Ok (b, d') \<and> ok d' \<and> count d' + (if b then 1 else 0) = count d"
proof -
  obtain d' where d': "delete d k = Ok (abs d k \<noteq> None, d')" "ok d'" "abs d' = (abs d)(k := None)"
    using delete [OF assms] by blast
  then have "count d' = card (dom (abs d) - {k})" using count [OF d'(2)] by simp
  moreover have "finite (dom (abs d))" "count d = card (dom (abs d))" using count [OF assms] by auto
  ultimately show ?thesis using d'(1,2) card_Suc_Diff1 [of "dom (abs d)" k] by (auto simp: domIff)
qed

end

section \<open>Invariant and abstraction\<close>

definition plain_keys :: "('k, 'v) dict \<Rightarrow> bool" where
  "plain_keys d \<longleftrightarrow>
     (\<forall>k k'. dictCompareHashKeys d k k' \<longleftrightarrow> k = k') \<and> (\<forall>k. dictSetHashKey d k = k) \<and> (\<forall>v. dictSetHashVal d v = v)"

definition buckets_ok :: "('k, 'v) dict \<Rightarrow> nat \<Rightarrow> ('k \<times> 'v) list list \<Rightarrow> bool" where
  "buckets_ok d msk t \<longleftrightarrow>
     (\<forall>i < length t. distinct (map fst (t ! i)) \<and> (\<forall>e \<in> set (t ! i). slot d msk (fst e) = i))"

definition dict_ok :: "('k, 'v) dict \<Rightarrow> bool" where
  "dict_ok d \<longleftrightarrow>
     plain_keys d \<and> length (d_table d) = d_size d \<and> d_used d = length (concat (d_table d)) \<and>
     (d_size d = 0 \<or> (\<exists>n. 2 \<le> n \<and> n \<le> 31 \<and> d_size d = 2 ^ n) \<and> d_sizemask d = d_size d - 1) \<and>
     buckets_ok d (d_sizemask d) (d_table d)"

definition dict_map :: "('k, 'v) dict \<Rightarrow> 'k \<rightharpoonup> 'v" where
  "dict_map d k = (if d_size d = 0 then None else map_of (d_table d ! slot d (d_sizemask d) k) k)"

lemma slot_pow: "slot d (2 ^ n - 1) k = unat (hashFunction (d_type d) k) mod 2 ^ n"
  unfolding slot_def by (metis mask_eq_exp_minus_1 take_bit_eq_mask take_bit_eq_mod)

lemma slot_less: "0 < sz \<Longrightarrow> \<exists>n. sz = 2 ^ n \<Longrightarrow> slot d (sz - 1) k < sz"
  by (auto simp: slot_pow simp del: One_nat_def)

lemma slot_update [simp]:
  "slot (d\<lparr>d_table := t\<rparr>) = slot d" "slot (d\<lparr>d_size := n\<rparr>) = slot d"
  "slot (d\<lparr>d_sizemask := n\<rparr>) = slot d" "slot (d\<lparr>d_used := n\<rparr>) = slot d"
  by (simp_all add: slot_def fun_eq_iff)

lemma macro_update [simp]:
  "plain_keys (d\<lparr>d_table := t\<rparr>) = plain_keys d" "plain_keys (d\<lparr>d_size := n\<rparr>) = plain_keys d"
  "plain_keys (d\<lparr>d_sizemask := n\<rparr>) = plain_keys d" "plain_keys (d\<lparr>d_used := n\<rparr>) = plain_keys d"
  "buckets_ok (d\<lparr>d_table := t\<rparr>) = buckets_ok d" "buckets_ok (d\<lparr>d_size := n\<rparr>) = buckets_ok d"
  "buckets_ok (d\<lparr>d_sizemask := n\<rparr>) = buckets_ok d" "buckets_ok (d\<lparr>d_used := n\<rparr>) = buckets_ok d"
  by (simp_all add: plain_keys_def dictCompareHashKeys_def dictSetHashKey_def dictSetHashVal_def
      buckets_ok_def fun_eq_iff)

section \<open>Chains\<close>

lemma find_entry_map_of:
  assumes "plain_keys d"
  shows "find_entry d k es = map_option (Pair k) (map_of es k)"
  using assms by (induction es) (auto simp: plain_keys_def)

lemma set_value_map_of:
  assumes "plain_keys d"
  shows "map_of es k \<noteq> None \<Longrightarrow> map_of (set_value d k v es) = (map_of es)(k \<mapsto> v)"
    and "map fst (set_value d k v es) = map fst es"
  using assms by (induction es) (auto simp: plain_keys_def fun_eq_iff)

lemma remove_entry_map_of:
  assumes "plain_keys d"
  shows "distinct (map fst es) \<Longrightarrow> map_of (remove_entry d k es) = (map_of es)(k := None)"
    and "set (remove_entry d k es) \<subseteq> set es" and "distinct (map fst es) \<Longrightarrow> distinct (map fst (remove_entry d k es))"
    and "map_of es k \<noteq> None \<Longrightarrow> Suc (length (remove_entry d k es)) = length es"
proof -
  show sub: "set (remove_entry d k es) \<subseteq> set es" for es by (induction es) auto
  show "distinct (map fst es) \<Longrightarrow> map_of (remove_entry d k es) = (map_of es)(k := None)"
  proof (induction es)
    case (Cons e es)
    then have "map_of es (fst e) = None" by (simp add: map_of_eq_None_iff)
    then show ?case using Cons assms by (auto simp: plain_keys_def fun_eq_iff)
  qed simp
  show "distinct (map fst es) \<Longrightarrow> distinct (map fst (remove_entry d k es))"
    using sub by (induction es) fastforce+
  show "map_of es k \<noteq> None \<Longrightarrow> Suc (length (remove_entry d k es)) = length es"
    using assms by (induction es) (auto simp: plain_keys_def)
qed

lemma length_concat_update:
  "i < length t \<Longrightarrow> length (concat (t[i := x])) + length (t ! i) = length (concat t) + length x"
proof (induction t arbitrary: i)
  case (Cons b t)
  then show ?case by (cases i) auto
qed simp

lemma buckets_ok_update:
  assumes "buckets_ok d msk t" and "distinct (map fst b)" and "\<And>e. e \<in> set b \<Longrightarrow> slot d msk (fst e) = i"
  shows "buckets_ok d msk (t[i := b])"
  unfolding buckets_ok_def
proof (intro allI impI)
  fix j
  assume "j < length (t[i := b])"
  then show "distinct (map fst (t[i := b] ! j)) \<and> (\<forall>e \<in> set (t[i := b] ! j). slot d msk (fst e) = j)"
    using assms by (cases "j = i") (auto simp: buckets_ok_def)
qed

section \<open>Growing\<close>

lemma move_chain_fold:
  "length es \<le> used \<Longrightarrow> move_chain d msk es t used =
     (fold (\<lambda>e. push_entry (slot d msk (fst e)) e) es t, used - length es)"
  by (induction es arbitrary: t used) (auto simp: dec_used_def)

lemma rehash_loop_fold:
  "used = length (concat bs) \<Longrightarrow> rehash_loop d msk bs t used =
     (fold (\<lambda>e. push_entry (slot d msk (fst e)) e) (concat bs) t, 0)"
proof (induction bs arbitrary: t used)
  case (Cons b bs)
  show ?case
  proof (cases "used > 0")
    case True
    then show ?thesis using Cons by (simp add: move_chain_fold)
  next
    case False
    then have "concat (b # bs) = []" using Cons.prems by simp
    moreover have "rehash_loop d msk (b # bs) t used = (t, 0)" using False by simp
    ultimately show ?thesis by (simp only: fold.simps id_apply)
  qed
qed simp

lemma fold_push_nth:
  assumes "\<And>e. e \<in> set es \<Longrightarrow> f e < length t"
  shows "length (fold (\<lambda>e. push_entry (f e) e) es t) = length t"
    and "i < length t \<Longrightarrow> fold (\<lambda>e. push_entry (f e) e) es t ! i = rev (filter (\<lambda>e. f e = i) es) @ t ! i"
  using assms by (induction es arbitrary: t) (auto simp: push_entry_def nth_list_update)

lemma length_concat_push:
  assumes "\<And>e. e \<in> set es \<Longrightarrow> f e < length t"
  shows "length (concat (fold (\<lambda>e. push_entry (f e) e) es t)) = length es + length (concat t)"
  using assms
proof (induction es arbitrary: t)
  case (Cons e es)
  have "length (concat (push_entry (f e) e t)) = Suc (length (concat t))"
    using length_concat_update [of "f e" t "e # t ! f e"] Cons.prems by (simp add: push_entry_def)
  then show ?case using Cons by (simp add: push_entry_def)
qed simp

text \<open>The entries of a table are distinct, and a key is found in its bucket or nowhere.\<close>

lemma distinct_entries:
  assumes "buckets_ok d msk t"
  shows "distinct (map fst (concat t))"
  using assms
proof (induction t rule: rev_induct)
  case (snoc b t)
  have ok: "buckets_ok d msk t"
    unfolding buckets_ok_def
  proof (intro allI impI)
    fix i
    assume "i < length t"
    then show "distinct (map fst (t ! i)) \<and> (\<forall>e \<in> set (t ! i). slot d msk (fst e) = i)"
      using snoc.prems by (auto simp: buckets_ok_def nth_append dest: spec [of _ i])
  qed
  have b: "distinct (map fst b)" "\<forall>e \<in> set b. slot d msk (fst e) = length t"
    using snoc.prems by (auto simp: buckets_ok_def nth_append dest: spec [of _ "length t"])
  have "slot d msk (fst e) < length t" if "e \<in> set (concat t)" for e
  proof -
    from that obtain c where "c \<in> set t" "e \<in> set c" by auto
    then obtain i where "i < length t" "e \<in> set (t ! i)" by (metis in_set_conv_nth)
    then show ?thesis using ok by (auto simp: buckets_ok_def)
  qed
  then have "fst ` set (concat t) \<inter> fst ` set b = {}" using b(2) by fastforce
  then show ?case using snoc.IH [OF ok] b(1) by simp
qed simp

lemma map_of_concat:
  assumes "buckets_ok d msk t" and "slot d msk k < length t"
  shows "map_of (concat t) k = map_of (t ! slot d msk k) k"
proof (cases "map_of (t ! slot d msk k) k")
  case (Some v)
  then have "(k, v) \<in> set (concat t)" using assms(2) by (auto dest: map_of_SomeD)
  then show ?thesis using distinct_entries [OF assms(1)] Some by simp
next
  case None
  have "k \<notin> fst ` set (concat t)"
  proof
    assume "k \<in> fst ` set (concat t)"
    then obtain e b where "b \<in> set t" "e \<in> set b" "fst e = k" by auto
    then obtain i where e: "i < length t" "e \<in> set (t ! i)" "fst e = k" by (metis in_set_conv_nth)
    then have "i = slot d msk k" using assms(1) by (auto simp: buckets_ok_def)
    then show False using e None by (auto simp: map_of_eq_None_iff)
  qed
  then have "map_of (concat t) k = None" by (simp only: map_of_eq_None_iff not_False_eq_True)
  then show ?thesis using None by simp
qed

lemma next_power_loop_pow:
  "i = 2 ^ a \<Longrightarrow> 2 \<le> a \<Longrightarrow> sz \<le> 2 ^ b \<Longrightarrow> a \<le> b \<Longrightarrow>
     \<exists>n. 2 \<le> n \<and> n \<le> b \<and> next_power_loop i sz = 2 ^ n \<and> sz \<le> 2 ^ n"
proof (induction i sz arbitrary: a rule: next_power_loop.induct)
  case (1 i sz)
  show ?case
  proof (cases "i \<ge> sz")
    case True
    then show ?thesis using 1 by (subst next_power_loop.simps) auto
  next
    case False
    then have "a < b" using "1.prems" by (metis leI order_trans power_increasing_iff one_less_numeral_iff semiring_norm(76))
    then show ?thesis
      using 1(1) [of "a + 1"] 1 False by (subst next_power_loop.simps) auto
  qed
qed

lemma dictNextPower_pow:
  assumes "sz \<le> 2 ^ b" and "2 \<le> b" and "b \<le> 31"
  shows "\<exists>n. 2 \<le> n \<and> n \<le> b \<and> dictNextPower sz = 2 ^ n \<and> sz \<le> 2 ^ n"
proof -
  have "(2 :: nat) ^ b \<le> 2 ^ 31" using assms(3) by (rule power_increasing) simp
  then have "\<not> sz \<ge> LONG_MAX" using assms(1) by (simp add: LONG_MAX_def)
  then show ?thesis
    using next_power_loop_pow [of 4 2 sz b] assms by (simp add: dictNextPower_def DICT_HT_INITIAL_SIZE_def)
qed

text \<open>The result is the least power of two from 4 on.\<close>

lemma next_power_loop_least:
  "i = 2 ^ a \<Longrightarrow> 2 \<le> a \<Longrightarrow> a = 2 \<or> 2 ^ (a - 1) < sz \<Longrightarrow>
     \<exists>n. next_power_loop i sz = 2 ^ n \<and> sz \<le> 2 ^ n \<and> (n = 2 \<or> 2 ^ (n - 1) < sz)"
proof (induction i sz arbitrary: a rule: next_power_loop.induct)
  case (1 i sz)
  show ?case
  proof (cases "i \<ge> sz")
    case True
    then show ?thesis using 1 by (subst next_power_loop.simps) auto
  next
    case False
    then show ?thesis using 1(1) [of "a + 1"] 1 by (subst next_power_loop.simps) auto
  qed
qed

lemma dictNextPower_least:
  assumes "sz \<le> 2 ^ 31"
  shows "\<exists>n. dictNextPower sz = 2 ^ n \<and> sz \<le> 2 ^ n \<and> (n = 2 \<or> 2 ^ (n - 1) < sz)"
  using next_power_loop_least [of 4 2 sz] assms
  unfolding dictNextPower_def DICT_HT_INITIAL_SIZE_def LONG_MAX_def by force

lemma dict_map_entries:
  assumes "dict_ok d"
  shows "dict_map d = map_of (concat (d_table d))"
proof
  fix k
  show "dict_map d k = map_of (concat (d_table d)) k"
  proof (cases "d_size d = 0")
    case True
    then show ?thesis using assms by (simp add: dict_map_def dict_ok_def)
  next
    case False
    then have "slot d (d_sizemask d) k < length (d_table d)"
      using assms slot_less [of "d_size d" d k] by (auto simp: dict_ok_def)
    moreover have "buckets_ok d (d_sizemask d) (d_table d)" using assms by (simp add: dict_ok_def)
    ultimately show ?thesis using False by (simp only: dict_map_def if_False map_of_concat)
  qed
qed

lemma dict_used_card:
  assumes "dict_ok d"
  shows "finite (dom (dict_map d)) \<and> d_used d = card (dom (dict_map d))"
proof -
  have "distinct (map fst (concat (d_table d)))" using assms distinct_entries by (auto simp: dict_ok_def)
  then have "card (fst ` set (concat (d_table d))) = length (concat (d_table d))"
    by (metis distinct_card length_map list.set_map)
  then show ?thesis
    using assms unfolding dict_map_entries [OF assms] by (simp add: dom_map_of_conv_image_fst dict_ok_def)
qed

lemma dictExpand_ok:
  assumes ok: "dict_ok d" and sz: "d_used d \<le> sz" "sz \<le> 2 ^ b" and b: "2 \<le> b" "b \<le> 31"
    and mem: "alloc_ok m (dictNextPower sz * ptr_size)"
  shows "\<exists>d'. dictExpand m d sz = Ok (True, d') \<and> dict_ok d' \<and> dict_map d' = dict_map d \<and> d_type d' = d_type d
     \<and> d_used d' = d_used d \<and> d_size d' = dictNextPower sz"
proof -
  obtain n where n: "2 \<le> n" "n \<le> b" "dictNextPower sz = 2 ^ n" using dictNextPower_pow sz b by blast
  define es where "es = concat (d_table d)"
  define t where "t = fold (\<lambda>e. push_entry (slot d (2 ^ n - 1) (fst e)) e) es (replicate (2 ^ n) [])"
  define d' where "d' = d\<lparr>d_table := t, d_size := 2 ^ n, d_sizemask := 2 ^ n - 1\<rparr>"
  have lt: "slot d (2 ^ n - 1) k < 2 ^ n" for k using slot_less [of "2 ^ n" d k] by simp
  have len: "length t = 2 ^ n" and nth: "\<And>i. i < 2 ^ n \<Longrightarrow> t ! i = rev (filter (\<lambda>e. slot d (2 ^ n - 1) (fst e) = i) es)"
    using fold_push_nth [of es "\<lambda>e. slot d (2 ^ n - 1) (fst e)" "replicate (2 ^ n) []"] lt
    by (simp_all add: t_def)
  have used: "d_used d = length es" using ok by (simp add: dict_ok_def es_def)
  have "length (concat t) = length es"
    using length_concat_push [of es "\<lambda>e. slot d (2 ^ n - 1) (fst e)" "replicate (2 ^ n) []"] lt by (simp add: t_def)
  moreover have dist: "distinct (map fst es)" using ok distinct_entries unfolding es_def by (auto simp: dict_ok_def)
  then have bk: "buckets_ok d (2 ^ n - 1) t"
    by (auto simp: buckets_ok_def len nth rev_map [symmetric] distinct_map_filter)
  ultimately have ok': "dict_ok d'"
    using ok n b len used by (auto simp: dict_ok_def d'_def)
  have "map_of (t ! slot d (2 ^ n - 1) k) k = map_of es k" for k
  proof -
    let ?f = "filter (\<lambda>e. slot d (2 ^ n - 1) (fst e) = slot d (2 ^ n - 1) k) es"
    have "map_of (rev ?f) = map_of ?f"
      using dist by (intro map_of_eqI) (auto simp: rev_map [symmetric] distinct_map_filter)
    moreover have "map_of ?f k = map_of es k" by (induction es) auto
    ultimately show ?thesis using nth [OF lt, of k] by simp
  qed
  then have "dict_map d' = dict_map d"
    unfolding dict_map_entries [OF ok] es_def [symmetric] by (auto simp: dict_map_def d'_def)
  moreover have "dictExpand m d sz = Ok (True, d')"
    using sz(1) mem n(3) rehash_loop_fold [OF used [unfolded es_def], of d "2 ^ n - 1" "replicate (2 ^ n) []"]
    by (simp add: dictExpand_def Let_def d'_def t_def es_def)
  ultimately show ?thesis using ok' n(3) by (auto simp: d'_def)
qed

section \<open>Operations\<close>

lemma dict_slot_less: "dict_ok d \<Longrightarrow> d_size d \<noteq> 0 \<Longrightarrow> slot d (d_sizemask d) k < length (d_table d)"
  using slot_less [of "d_size d" d k] by (auto simp: dict_ok_def)

lemma dictFind_ok:
  assumes "dict_ok d"
  shows "dictFind d k = Ok (map_option (Pair k) (dict_map d k))"
  using assms dict_slot_less [OF assms, of k]
  by (auto simp: dictFind_def dict_map_def Let_def find_entry_map_of dict_ok_def)

lemma dictExpandIfNeeded_ok:
  assumes ok: "dict_ok d" and used: "d_used d < 2 ^ 30" and mem: "\<And>n. alloc_ok m n"
  shows "\<exists>d'. dictExpandIfNeeded m d = Ok (True, d') \<and> dict_ok d' \<and> dict_map d' = dict_map d \<and>
     d_type d' = d_type d \<and> d_used d' = d_used d \<and> d_size d' \<noteq> 0 \<and>
     (d_used d \<le> d_size d \<longrightarrow> d_used d < d_size d')"
proof -
  have pow: "dictNextPower sz \<noteq> 0 \<and> sz \<le> dictNextPower sz" if "sz \<le> 2 ^ 31" for sz
    using dictNextPower_pow [OF that] by force
  consider "d_size d = 0" | "d_size d \<noteq> 0" "d_used d = d_size d" | "d_size d \<noteq> 0" "d_used d \<noteq> d_size d" by blast
  then show ?thesis
  proof cases
    case 1
    then have "d_used d = 0" using ok by (simp add: dict_ok_def)
    then show ?thesis
      using dictExpand_ok [OF ok, of DICT_HT_INITIAL_SIZE 31 m] mem pow [of DICT_HT_INITIAL_SIZE] 1
      by (force simp: dictExpandIfNeeded_def DICT_HT_INITIAL_SIZE_def)
  next
    case 2
    then show ?thesis
      using dictExpand_ok [OF ok, of "d_size d * 2" 31 m] mem pow [of "d_size d * 2"] used
      by (force simp: dictExpandIfNeeded_def)
  next
    case 3
    then show ?thesis using ok by (simp add: dictExpandIfNeeded_def)
  qed
qed

lemma dict_size_le: "dict_ok d \<Longrightarrow> d_size d \<le> 2 ^ 31"
proof -
  have "(2 :: nat) ^ n \<le> 2 ^ 31" if "n \<le> 31" for n using that by (rule power_increasing) simp
  then show "dict_ok d \<Longrightarrow> d_size d \<le> 2 ^ 31" by (auto simp: dict_ok_def)
qed

lemma dictKeyIndex_ok:
  assumes ok: "dict_ok d" and used: "d_used d < 2 ^ 30" and mem: "\<And>n. alloc_ok m n"
  shows "\<exists>d'. dictKeyIndex m d k =
       Ok (if dict_map d k = None then int (slot d' (d_sizemask d') k) else -1, d') \<and>
     dict_ok d' \<and> dict_map d' = dict_map d \<and> d_type d' = d_type d \<and> d_used d' = d_used d \<and> d_size d' \<noteq> 0 \<and>
     (d_used d \<le> d_size d \<longrightarrow> d_used d < d_size d')"
proof -
  obtain d' where d': "dictExpandIfNeeded m d = Ok (True, d')" "dict_ok d'" "dict_map d' = dict_map d"
      "d_type d' = d_type d" "d_used d' = d_used d" "d_size d' \<noteq> 0" "d_used d \<le> d_size d \<longrightarrow> d_used d < d_size d'"
    using dictExpandIfNeeded_ok [OF ok used mem] by blast
  let ?h = "slot d' (d_sizemask d') k"
  have h: "?h < length (d_table d')" by (rule dict_slot_less [OF d'(2,6)])
  then have "?h < 2 ^ 31" using dict_size_le [OF d'(2)] d'(2) by (simp add: dict_ok_def)
  then have sint: "sint (of_nat ?h :: cint) = int ?h"
    by (simp add: signed_of_nat signed_take_bit_int_eq_self)
  have "find_entry d' k (d_table d' ! ?h) = map_option (Pair k) (dict_map d' k)"
    using d'(2,6) find_entry_map_of [of d' k] by (auto simp: dict_map_def dict_ok_def)
  then have "find_entry d' k (d_table d' ! ?h) = map_option (Pair k) (dict_map d k)" unfolding d'(3) .
  then have "dictKeyIndex m d k = Ok (if dict_map d k = None then int ?h else -1, d')"
    using d'(1) h sint by (auto simp: dictKeyIndex_def Let_def split: option.splits)
  then show ?thesis using d' by blast
qed

text \<open>Storing an entry in the bucket of its key.\<close>

lemma push_ok:
  assumes ok: "dict_ok d" and sz: "d_size d \<noteq> 0" and new: "dict_map d k = None"
  assumes d'_def: "d' = d\<lparr>d_table := push_entry (slot d (d_sizemask d) k) (k, v) (d_table d), d_used := d_used d + 1\<rparr>"
  shows "dict_ok d' \<and> dict_map d' = (dict_map d)(k \<mapsto> v)"
proof -
  let ?h = "slot d (d_sizemask d) k"
  have h: "?h < length (d_table d)" by (rule dict_slot_less [OF ok sz])
  have bk: "buckets_ok d (d_sizemask d) (d_table d)" using ok by (simp add: dict_ok_def)
  have "buckets_ok d (d_sizemask d) (push_entry ?h (k, v) (d_table d))"
    unfolding push_entry_def
    using bk h new sz by (intro buckets_ok_update) (auto simp: buckets_ok_def dict_map_def map_of_eq_None_iff)
  moreover have "length (concat (push_entry ?h (k, v) (d_table d))) = Suc (length (concat (d_table d)))"
    using length_concat_update [OF h, of "(k, v) # d_table d ! ?h"] by (simp add: push_entry_def)
  ultimately have "dict_ok d'" using ok sz by (auto simp: dict_ok_def d'_def push_entry_def)
  moreover have "dict_map d' k' = ((dict_map d)(k \<mapsto> v)) k'" for k'
    using h sz by (cases "slot d (d_sizemask d) k' = ?h") (auto simp: dict_map_def d'_def push_entry_def)
  ultimately show ?thesis by auto
qed

lemma dictAdd_ok:
  assumes ok: "dict_ok d" and used: "d_used d < 2 ^ 30" and mem: "\<And>n. alloc_ok m n"
  shows "\<exists>d'. dictAdd m d k v = Ok (dict_map d k = None, d') \<and> dict_ok d' \<and> d_type d' = d_type d \<and>
     dict_map d' = (if dict_map d k = None then (dict_map d)(k \<mapsto> v) else dict_map d) \<and>
     (d_used d \<le> d_size d \<longrightarrow> d_used d' \<le> d_size d')"
proof -
  obtain d1 where d1: "dictKeyIndex m d k =
       Ok (if dict_map d k = None then int (slot d1 (d_sizemask d1) k) else -1, d1)"
      "dict_ok d1" "dict_map d1 = dict_map d" "d_type d1 = d_type d" "d_size d1 \<noteq> 0"
      "d_used d1 = d_used d" "d_used d \<le> d_size d \<longrightarrow> d_used d < d_size d1"
    using dictKeyIndex_ok [OF ok used mem] by blast
  show ?thesis
  proof (cases "dict_map d k")
    case None
    have "dictSetHashKey d1 k = k" "dictSetHashVal d1 v = v" using d1(2) by (auto simp: dict_ok_def plain_keys_def)
    then show ?thesis
      using None d1 push_ok [OF d1(2,5) _ refl, of k v] mem dict_slot_less [OF d1(2,5), of k]
      by (simp add: dictAdd_def Suc_le_eq)
  next
    case (Some x)
    then show ?thesis using d1 by (simp add: dictAdd_def less_imp_le)
  qed
qed

lemma set_value_ok:
  assumes ok: "dict_ok d" and old: "dict_map d k = Some w"
  assumes d'_def: "d' = d\<lparr>d_table := (d_table d)[slot d (d_sizemask d) k :=
      set_value d k v (d_table d ! slot d (d_sizemask d) k)]\<rparr>"
  shows "dict_ok d' \<and> dict_map d' = (dict_map d)(k \<mapsto> v)"
proof -
  let ?h = "slot d (d_sizemask d) k"
  have sz: "d_size d \<noteq> 0" using old by (auto simp: dict_map_def split: if_splits)
  have h: "?h < length (d_table d)" by (rule dict_slot_less [OF ok sz])
  have pk: "plain_keys d" and bk: "buckets_ok d (d_sizemask d) (d_table d)" using ok by (auto simp: dict_ok_def)
  note keys = set_value_map_of(2) [OF pk, of k v "d_table d ! ?h"]
  have "slot d (d_sizemask d) (fst e) = ?h" if "e \<in> set (set_value d k v (d_table d ! ?h))" for e
  proof -
    have "fst e \<in> fst ` set (d_table d ! ?h)" using that keys by (metis image_eqI list.set_map)
    then show ?thesis using bk h by (fastforce simp: buckets_ok_def)
  qed
  then have "buckets_ok d (d_sizemask d) ((d_table d)[?h := set_value d k v (d_table d ! ?h)])"
    using bk h keys by (intro buckets_ok_update) (auto simp: buckets_ok_def)
  moreover have "length (set_value d k v (d_table d ! ?h)) = length (d_table d ! ?h)"
    using keys by (metis length_map)
  then have "length (concat ((d_table d)[?h := set_value d k v (d_table d ! ?h)])) = length (concat (d_table d))"
    using length_concat_update [OF h, of "set_value d k v (d_table d ! ?h)"] by simp
  ultimately have "dict_ok d'" using ok by (auto simp: dict_ok_def d'_def)
  moreover have "dict_map d' k' = ((dict_map d)(k \<mapsto> v)) k'" for k'
    using h sz old set_value_map_of(1) [OF pk, of "d_table d ! ?h" k v]
    by (cases "slot d (d_sizemask d) k' = ?h") (auto simp: dict_map_def d'_def)
  ultimately show ?thesis by auto
qed

lemma dictReplace_ok:
  assumes ok: "dict_ok d" and used: "d_used d < 2 ^ 30" and mem: "\<And>n. alloc_ok m n"
  shows "\<exists>d'. dictReplace m d k v = Ok (dict_map d k = None, d',
       case dict_map d k of None \<Rightarrow> [] | Some w \<Rightarrow> dictFreeEntryVal d w) \<and>
     dict_ok d' \<and> d_type d' = d_type d \<and> dict_map d' = (dict_map d)(k \<mapsto> v) \<and>
     (d_used d \<le> d_size d \<longrightarrow> d_used d' \<le> d_size d')"
proof -
  obtain d1 where d1: "dictAdd m d k v = Ok (dict_map d k = None, d1)" "dict_ok d1" "d_type d1 = d_type d"
      "d_used d \<le> d_size d \<longrightarrow> d_used d1 \<le> d_size d1"
      "dict_map d1 = (if dict_map d k = None then (dict_map d)(k \<mapsto> v) else dict_map d)"
    using dictAdd_ok [OF ok used mem] by blast
  show ?thesis
  proof (cases "dict_map d k")
    case None
    then show ?thesis using d1 by (simp add: dictReplace_def)
  next
    case (Some w)
    have "dictSetHashVal d1 v = v" using d1(2) by (auto simp: dict_ok_def plain_keys_def)
    then show ?thesis
      using Some d1 dictFind_ok [OF d1(2), of k] set_value_ok [OF d1(2) _ refl, of k w v]
      by (simp add: dictReplace_def Let_def dictFreeEntryVal_def)
  qed
qed

lemma dictDelete_ok:
  assumes ok: "dict_ok d"
  shows "\<exists>d'. dictDelete d k = Ok (dict_map d k \<noteq> None, d',
       case dict_map d k of None \<Rightarrow> [] | Some w \<Rightarrow> dictFreeEntryKey d k @ dictFreeEntryVal d w) \<and>
     dict_ok d' \<and> d_type d' = d_type d \<and> dict_map d' = (dict_map d)(k := None) \<and>
     d_size d' = d_size d"
proof (cases "dict_map d k")
  case None
  then have "(dict_map d)(k := None) = dict_map d" by (rule fun_upd_idem)
  moreover have "dictDelete d k = Ok (False, d, [])"
    using ok dict_slot_less [OF ok, of k] find_entry_map_of [of d k] None
    by (auto simp: dictDelete_def Let_def dict_map_def dict_ok_def)
  ultimately show ?thesis using None ok by simp
next
  case (Some w)
  let ?h = "slot d (d_sizemask d) k"
  let ?b = "remove_entry d k (d_table d ! ?h)"
  let ?d = "d\<lparr>d_table := (d_table d)[?h := ?b], d_used := dec_used (d_used d)\<rparr>"
  have sz: "d_size d \<noteq> 0" using Some by (auto simp: dict_map_def split: if_splits)
  have h: "?h < length (d_table d)" by (rule dict_slot_less [OF ok sz])
  have pk: "plain_keys d" and bk: "buckets_ok d (d_sizemask d) (d_table d)" using ok by (auto simp: dict_ok_def)
  have m: "map_of (d_table d ! ?h) k = Some w" and dist: "distinct (map fst (d_table d ! ?h))"
    using Some sz bk h by (auto simp: dict_map_def buckets_ok_def)
  note rem = remove_entry_map_of [OF pk, where k = k and es = "d_table d ! ?h"]
  have "buckets_ok d (d_sizemask d) ((d_table d)[?h := ?b])"
    using bk h rem(2) rem(3) [OF dist] by (intro buckets_ok_update) (auto simp: buckets_ok_def)
  moreover have "Suc (length (concat ((d_table d)[?h := ?b]))) = length (concat (d_table d))"
    using length_concat_update [OF h, of ?b] rem(4) m by simp
  then have "dec_used (d_used d) = length (concat ((d_table d)[?h := ?b]))"
    using ok unfolding dict_ok_def dec_used_def by (metis diff_Suc_1 nat.distinct(1))
  ultimately have "dict_ok ?d" using ok by (auto simp: dict_ok_def)
  moreover have "dict_map ?d k' = ((dict_map d)(k := None)) k'" for k'
    using h sz rem(1) [OF dist] by (cases "slot d (d_sizemask d) k' = ?h") (auto simp: dict_map_def)
  moreover have "find_entry d k (d_table d ! ?h) = Some (k, w)" using m find_entry_map_of [OF pk] by simp
  ultimately show ?thesis using Some sz h by (auto simp: dictDelete_def Let_def)
qed

section \<open>Clearing and visiting every entry\<close>

lemma clear_chain_all:
  "length es \<le> used \<Longrightarrow> clear_chain d es used =
     (concat (map (\<lambda>e. dictFreeEntryKey d (fst e) @ dictFreeEntryVal d (snd e)) es), used - length es)"
  by (induction es arbitrary: used) (auto simp: dec_used_def)

lemma clear_loop_all:
  "used = length (concat bs) \<Longrightarrow> clear_loop d bs used =
     concat (map (\<lambda>e. dictFreeEntryKey d (fst e) @ dictFreeEntryVal d (snd e)) (concat bs))"
proof (induction bs arbitrary: used)
  case (Cons b bs)
  show ?case
  proof (cases "used > 0")
    case True
    then show ?thesis using Cons by (simp add: clear_chain_all)
  next
    case False
    then have "concat (b # bs) = []" using Cons.prems by simp
    moreover have "clear_loop d (b # bs) used = []" using False by simp
    ultimately show ?thesis by (simp only: list.map concat.simps)
  qed
qed simp

text \<open>What an iterator still has to return.\<close>

definition it_rest :: "('k, 'v) dict \<Rightarrow> ('k, 'v) dictIterator \<Rightarrow> ('k \<times> 'v) list" where
  "it_rest d it = it_nextEntry it @ concat (drop (nat (it_index it + 1)) (d_table d))"

definition it_ok :: "('k, 'v) dict \<Rightarrow> ('k, 'v) dictIterator \<Rightarrow> bool" where
  "it_ok d it \<longleftrightarrow> -1 \<le> it_index it \<and> (it_entry it = [] \<longrightarrow> it_nextEntry it = []) \<and>
     (\<forall>e \<in> set (it_nextEntry it). int (slot d (d_sizemask d) (fst e)) = it_index it)"

definition next_spec :: "('k, 'v) dict \<Rightarrow> ('k \<times> 'v) list \<Rightarrow> ('k \<times> 'v) option \<times> ('k, 'v) dictIterator \<Rightarrow> bool" where
  "next_spec d es r \<longleftrightarrow> (case es of
      [] \<Rightarrow> fst r = None
    | e # es' \<Rightarrow> fst r = Some e \<and> it_ok d (snd r) \<and> it_rest d (snd r) = es' \<and>
        int (slot d (d_sizemask d) (fst e)) = it_index (snd r))"

lemma dictNext_rest:
  assumes "length (d_table d) = d_size d" and "buckets_ok d (d_sizemask d) (d_table d)" and "it_ok d it"
  shows "next_spec d (it_rest d it) (dictNext d it)"
  using assms
proof (induction d it rule: dictNext.induct)
  case (1 d it)
  show ?case
  proof (cases "it_entry it = []")
    case empty: True
    let ?i = "it_index it + 1"
    have i: "0 \<le> ?i" "it_nextEntry it = []" using 1 empty by (auto simp: it_ok_def)
    show ?thesis
    proof (cases "?i \<ge> int (d_size d)")
      case True
      then have "it_rest d it = []" using i "1.prems"(1) by (simp add: it_rest_def)
      then show ?thesis using True empty by (subst dictNext.simps) (simp add: next_spec_def)
    next
      case False
      then have lt: "nat ?i < length (d_table d)" using i "1.prems"(1) by simp
      have suc: "nat (2 + it_index it) = Suc (nat ?i)" using i by simp
      have rest: "it_rest d it = d_table d ! nat ?i @ concat (drop (Suc (nat ?i)) (d_table d))"
        using i lt by (simp add: it_rest_def Cons_nth_drop_Suc [symmetric])
      have slot: "int (slot d (d_sizemask d) (fst e)) = ?i" if "e \<in> set (d_table d ! nat ?i)" for e
        using "1.prems"(2) lt that i by (auto simp: buckets_ok_def)
      show ?thesis
      proof (cases "d_table d ! nat ?i")
        case Nil
        let ?it = "it\<lparr>it_index := ?i, it_entry := []\<rparr>"
        have "next_spec d (it_rest d ?it) (dictNext d ?it)"
          using empty False Nil i "1.prems" by (intro "1.IH"(1)) (auto simp: it_ok_def)
        moreover have "it_rest d ?it = it_rest d it" using rest Nil i suc by (simp add: it_rest_def)
        moreover have "dictNext d it = dictNext d ?it"
          using empty False Nil by (subst dictNext.simps) (simp add: Let_def)
        ultimately show ?thesis by simp
      next
        case (Cons e es)
        then show ?thesis
          using empty False rest slot i suc
          by (subst dictNext.simps) (simp add: next_spec_def it_ok_def it_rest_def)
      qed
    qed
  next
    case entry: False
    show ?thesis
    proof (cases "it_nextEntry it")
      case Nil
      let ?it = "it\<lparr>it_entry := []\<rparr>"
      have "next_spec d (it_rest d ?it) (dictNext d ?it)"
        using entry Nil "1.prems" by (intro "1.IH"(2)) (auto simp: it_ok_def)
      moreover have "dictNext d it = dictNext d ?it" using entry Nil by (subst dictNext.simps) simp
      ultimately show ?thesis by (simp add: it_rest_def)
    next
      case (Cons e es)
      then show ?thesis
        using entry "1.prems" by (subst dictNext.simps) (auto simp: next_spec_def it_ok_def it_rest_def)
    qed
  qed
qed

end
