(* ===== verification/DictProperties.thy ===== *)
theory DictProperties
  imports DictSpec
begin

text \<open>
  The theorems about the hash table: any history of operations on a fresh table behaves like the same
  history on a finite map and keeps the load factor at most one; growing keeps the contents; an iterator
  returns every entry once, also when the caller deletes each entry it is given; clearing hands every
  entry to the destructors once. The table is an instance of the interface \<open>finite_map\<close>.
\<close>

section \<open>The table as a finite map\<close>

definition dict_lookup :: "('k, 'v) dict \<Rightarrow> 'k \<Rightarrow> 'v option outcome" where
  "dict_lookup d k = obind (dictFind d k) (\<lambda>e. Ok (map_option snd e))"

definition dict_put :: "cmem \<Rightarrow> ('k, 'v) dict \<Rightarrow> 'k \<Rightarrow> 'v \<Rightarrow> (bool \<times> ('k, 'v) dict) outcome" where
  "dict_put m d k v = obind (dictReplace m d k v) (\<lambda>(b, d', fs). Ok (b, d'))"

definition dict_remove :: "('k, 'v) dict \<Rightarrow> 'k \<Rightarrow> (bool \<times> ('k, 'v) dict) outcome" where
  "dict_remove d k = obind (dictDelete d k) (\<lambda>(b, d', fs). Ok (b, d'))"

text \<open>Memory in which no allocation fails.\<close>

definition ample :: "cmem \<Rightarrow> bool" where
  "ample m \<longleftrightarrow> (\<forall>n. alloc_ok m n)"

interpretation table: finite_map dict_lookup "dict_put m" dict_remove dictSize
    "\<lambda>d. dict_ok d \<and> ample m" dict_map for m
proof unfold_locales
  fix d :: "('k, 'v) dict" and k v
  assume ok: "dict_ok d \<and> ample m"
  show "dict_lookup d k = Ok (dict_map d k)"
    using ok by (cases "dict_map d k") (simp_all add: dict_lookup_def dictFind_ok)
  show "\<exists>d'. dict_remove d k = Ok (dict_map d k \<noteq> None, d') \<and> (dict_ok d' \<and> ample m) \<and> dict_map d' = (dict_map d)(k := None)"
    using ok dictDelete_ok [of d k] by (auto simp: dict_remove_def)
  show "finite (dom (dict_map d)) \<and> dictSize d = card (dom (dict_map d))"
    using ok dict_used_card [of d] by (simp add: dictSize_def)
  assume "dictSize d < 2 ^ 30"
  then show "\<exists>d'. dict_put m d k v = Ok (dict_map d k = None, d') \<and> (dict_ok d' \<and> ample m) \<and> dict_map d' = (dict_map d)(k \<mapsto> v)"
    using ok dictReplace_ok [of d m k v] by (auto simp: dict_put_def dictSize_def ample_def)
qed

section \<open>Histories\<close>

datatype ('k, 'v) dict_op = OpAdd 'k 'v | OpReplace 'k 'v | OpDelete 'k | OpFind 'k

text \<open>An operation on the table and on the map; its result is what the C function returns.\<close>

fun dict_step :: "cmem \<Rightarrow> ('k, 'v) dict_op \<Rightarrow> ('k, 'v) dict \<Rightarrow> ((bool \<times> 'v option) \<times> ('k, 'v) dict) outcome" where
  "dict_step m (OpAdd k v) d = obind (dictAdd m d k v) (\<lambda>(b, d'). Ok ((b, None), d'))"
| "dict_step m (OpReplace k v) d = obind (dict_put m d k v) (\<lambda>(b, d'). Ok ((b, None), d'))"
| "dict_step m (OpDelete k) d = obind (dict_remove d k) (\<lambda>(b, d'). Ok ((b, None), d'))"
| "dict_step m (OpFind k) d = obind (dict_lookup d k) (\<lambda>v. Ok ((v \<noteq> None, v), d))"

fun map_step :: "('k, 'v) dict_op \<Rightarrow> ('k \<rightharpoonup> 'v) \<Rightarrow> (bool \<times> 'v option) \<times> ('k \<rightharpoonup> 'v)" where
  "map_step (OpAdd k v) f = ((f k = None, None), if f k = None then f(k \<mapsto> v) else f)"
| "map_step (OpReplace k v) f = ((f k = None, None), f(k \<mapsto> v))"
| "map_step (OpDelete k) f = ((f k \<noteq> None, None), f(k := None))"
| "map_step (OpFind k) f = ((f k \<noteq> None, f k), f)"

fun dict_run :: "cmem \<Rightarrow> ('k, 'v) dict_op list \<Rightarrow> ('k, 'v) dict \<Rightarrow> ((bool \<times> 'v option) list \<times> ('k, 'v) dict) outcome" where
  "dict_run m [] d = Ok ([], d)"
| "dict_run m (x # xs) d =
     obind (dict_step m x d) (\<lambda>(r, d'). obind (dict_run m xs d') (\<lambda>(rs, d''). Ok (r # rs, d'')))"

fun map_run :: "('k, 'v) dict_op list \<Rightarrow> ('k \<rightharpoonup> 'v) \<Rightarrow> (bool \<times> 'v option) list \<times> ('k \<rightharpoonup> 'v)" where
  "map_run [] f = ([], f)"
| "map_run (x # xs) f = (let (r, f') = map_step x f; (rs, f'') = map_run xs f' in (r # rs, f''))"

definition load_ok :: "('k, 'v) dict \<Rightarrow> bool" where
  "load_ok d \<longleftrightarrow> d_used d \<le> d_size d"

lemma map_step_card:
  assumes "finite (dom f)"
  shows "card (dom (snd (map_step x f))) \<le> Suc (card (dom f))"
  using assms by (cases x) (auto simp: card_insert_if card_Diff_subset intro: le_SucI diff_le_self card_Diff1_le)

lemma dict_step_refines:
  assumes ok: "dict_ok d" and used: "d_used d < 2 ^ 30" and mem: "ample m" and load: "load_ok d"
  shows "\<exists>d'. dict_step m x d = Ok (fst (map_step x (dict_map d)), d') \<and> dict_ok d' \<and> load_ok d' \<and>
     dict_map d' = snd (map_step x (dict_map d)) \<and> d_used d' \<le> Suc (d_used d)"
proof -
  have al: "\<And>n. alloc_ok m n" using mem by (simp add: ample_def)
  have "\<exists>d'. dict_step m x d = Ok (fst (map_step x (dict_map d)), d') \<and> dict_ok d' \<and> load_ok d' \<and>
     dict_map d' = snd (map_step x (dict_map d))"
  proof (cases x)
    case (OpAdd k v)
    then show ?thesis using dictAdd_ok [OF ok used al, of k v] load by (auto simp: load_ok_def)
  next
    case (OpReplace k v)
    then show ?thesis using dictReplace_ok [OF ok used al, of k v] load by (auto simp: load_ok_def dict_put_def)
  next
    case (OpDelete k)
    obtain d' where d': "dict_remove d k = Ok (dict_map d k \<noteq> None, d')" "dict_ok d'"
        "dict_map d' = (dict_map d)(k := None)" "d_size d' = d_size d"
      using dictDelete_ok [OF ok, of k] by (auto simp: dict_remove_def)
    have "d_used d' \<le> d_used d"
      using dict_used_card [OF d'(2)] dict_used_card [OF ok] d'(3) by (simp add: card_Diff1_le)
    then show ?thesis using d' OpDelete load by (simp add: load_ok_def)
  next
    case (OpFind k)
    then show ?thesis using table.find [of d m k] ok mem load by simp
  qed
  then obtain d' where d': "dict_step m x d = Ok (fst (map_step x (dict_map d)), d')" "dict_ok d'" "load_ok d'"
      "dict_map d' = snd (map_step x (dict_map d))" by blast
  then have "d_used d' \<le> Suc (d_used d)"
    using map_step_card [of "dict_map d" x] dict_used_card [OF ok] dict_used_card [OF d'(2)] by simp
  then show ?thesis using d' by blast
qed

lemma dict_run_refines:
  assumes "dict_ok d" and "d_used d + length xs \<le> 2 ^ 30" and "ample m" and "load_ok d"
  shows "\<exists>d'. dict_run m xs d = Ok (fst (map_run xs (dict_map d)), d') \<and> dict_ok d' \<and> load_ok d' \<and>
     dict_map d' = snd (map_run xs (dict_map d))"
  using assms
proof (induction xs arbitrary: d)
  case (Cons x xs)
  obtain d1 where d1: "dict_step m x d = Ok (fst (map_step x (dict_map d)), d1)" "dict_ok d1" "load_ok d1"
      "dict_map d1 = snd (map_step x (dict_map d))" "d_used d1 \<le> Suc (d_used d)"
    using dict_step_refines [OF Cons.prems(1) _ Cons.prems(3,4), of x] Cons.prems(2) by auto
  obtain d2 where "dict_run m xs d1 = Ok (fst (map_run xs (dict_map d1)), d2)" "dict_ok d2" "load_ok d2"
      "dict_map d2 = snd (map_run xs (dict_map d1))"
    using Cons.IH [OF d1(2) _ Cons.prems(3) d1(3)] d1(5) Cons.prems(2) by auto
  then show ?case using d1 by (auto split: prod.splits)
qed simp

text \<open>A history on a new table.\<close>

definition dict_history ::
    "cmem \<Rightarrow> ('k, 'v) dictType \<Rightarrow> ('k, 'v) dict_op list \<Rightarrow> ((bool \<times> 'v option) list \<times> ('k, 'v) dict) outcome" where
  "dict_history m ty xs = obind (dictCreate m ty) (dict_run m xs)"

text \<open>Keys and values that are compared and stored as they are.\<close>

definition plain_type :: "('k \<Rightarrow> cint) \<Rightarrow> ('k, 'v) dictType" where
  "plain_type h = \<lparr>hashFunction = h, keyDup = None, valDup = None, keyCompare = None,
                  keyDestructor = True, valDestructor = True\<rparr>"

lemma fresh_ok:
  assumes "plain_keys (dictInit ty)"
  shows "dict_ok (dictInit ty) \<and> load_ok (dictInit ty) \<and> dict_map (dictInit ty) = Map.empty \<and> d_used (dictInit ty) = 0"
  using assms by (auto simp: dict_ok_def load_ok_def dict_map_def fun_eq_iff dictInit_def buckets_ok_def)

lemma plain_type_plain [simp]: "plain_keys (dictInit (plain_type h))"
  by (simp add: plain_keys_def plain_type_def dictInit_def dictCompareHashKeys_def dictSetHashKey_def dictSetHashVal_def)

definition string_hash :: "string \<Rightarrow> cint" where
  "string_hash s = dictGenHashFunction s (length s)"

section \<open>Properties\<close>

text \<open>C18.
  Whatever the hash function, a history of dictAdd, dictReplace, dictDelete and dictFind on a
  new table returns exactly what the same history on a finite map returns, and ends in a well-formed
  table for the same map, with at most as many entries as buckets. The allocations succeed and
  the history has at most 2^30 operations.\<close>

theorem dict_history_refines:
  assumes "plain_keys (dictInit ty)" and "ample m" and "length xs \<le> 2 ^ 30"
  shows "\<exists>d. dict_history m ty xs = Ok (fst (map_run xs Map.empty), d) \<and>
     dict_map d = snd (map_run xs Map.empty) \<and> dict_ok d \<and> d_used d \<le> d_size d"
proof -
  have fresh: "dict_ok (dictInit ty)" "load_ok (dictInit ty)" "dict_map (dictInit ty) = Map.empty"
      "d_used (dictInit ty) = 0"
    using fresh_ok [OF assms(1)] by auto
  have "dictCreate m ty = Ok (dictInit ty)" using assms(2) by (simp add: dictCreate_def ample_def)
  moreover obtain d where "dict_run m xs (dictInit ty) = Ok (fst (map_run xs Map.empty), d)" "dict_ok d" "load_ok d"
      "dict_map d = snd (map_run xs Map.empty)"
    using dict_run_refines [OF fresh(1) _ assms(2) fresh(2), of xs] assms(3) unfolding fresh(3,4) by auto
  ultimately show ?thesis by (simp add: dict_history_def load_ok_def)
qed

definition roomy :: cmem where
  "roomy = \<lparr>alloc_ok = (\<lambda>n. True), garbage = (\<lambda>n. NUL)\<rparr>"

lemma ample_roomy [simp]: "ample roomy"
  by (simp add: ample_def roomy_def)

text \<open>Every key in one bucket: the table works as a list.\<close>

theorem dict_history_refines_witness:
  "\<exists>d. dict_history roomy (plain_type (\<lambda>k. 7))
        [OpAdd ''a'' (1 :: nat), OpAdd ''b'' 2, OpAdd ''a'' 3, OpReplace ''b'' 4, OpDelete ''a'', OpFind ''b'']
      = Ok ([(True, None), (True, None), (False, None), (False, None), (True, None), (True, Some 4)], d)
    \<and> dict_map d ''b'' = Some 4 \<and> dict_map d ''a'' = None"
proof -
  let ?xs = "[OpAdd ''a'' (1 :: nat), OpAdd ''b'' 2, OpAdd ''a'' 3, OpReplace ''b'' 4, OpDelete ''a'', OpFind ''b'']"
  obtain d where "dict_history roomy (plain_type (\<lambda>k. 7)) ?xs = Ok (fst (map_run ?xs Map.empty), d)"
      "dict_map d = snd (map_run ?xs Map.empty)"
    using dict_history_refines [of "plain_type (\<lambda>k. 7)" roomy ?xs] by auto
  moreover have "map_run ?xs Map.empty =
      ([(True, None), (True, None), (False, None), (False, None), (True, None), (True, Some 4)], [''b'' \<mapsto> 4])"
    by (simp add: fun_eq_iff)
  ultimately show ?thesis by (simp del: map_run.simps)
qed

text \<open>C36.
  Growing a table to a size that holds its entries keeps the map, the number of entries and the
  invariant, whatever the entries' positions, and gives the smallest power of two from 4 on that is not
  smaller than the request: the assertion of dictExpand that every entry was moved cannot fail.\<close>

theorem dictExpand_keeps_map:
  assumes "dict_ok d" and "d_used d \<le> sz" and "sz \<le> 2 ^ 31" and "ample m"
  shows "\<exists>d' n. dictExpand m d sz = Ok (True, d') \<and> dict_ok d' \<and> dict_map d' = dict_map d \<and>
     d_used d' = d_used d \<and> d_size d' = 2 ^ n \<and> sz \<le> 2 ^ n \<and> (n = 2 \<or> 2 ^ (n - 1) < sz)"
proof -
  have "alloc_ok m (dictNextPower sz * ptr_size)" using assms(4) by (simp add: ample_def)
  then obtain d' where "dictExpand m d sz = Ok (True, d')" "dict_ok d'" "dict_map d' = dict_map d"
      "d_used d' = d_used d" "d_size d' = dictNextPower sz"
    using dictExpand_ok [OF assms(1-3)] by auto
  then show ?thesis using dictNextPower_least [OF assms(3)] by metis
qed

theorem dictExpand_keeps_map_witness:
  "\<exists>d'. dictExpand roomy (dictInit (plain_type string_hash) :: (string, nat) dict) 5 = Ok (True, d') \<and> d_size d' = 8"
proof -
  let ?d = "dictInit (plain_type string_hash) :: (string, nat) dict"
  obtain d' n where d': "dictExpand roomy ?d 5 = Ok (True, d')" "d_size d' = 2 ^ n" "5 \<le> (2 :: nat) ^ n"
      "n = 2 \<or> 2 ^ (n - 1) < (5 :: nat)"
    using dictExpand_keeps_map [of ?d 5 roomy] fresh_ok [of "plain_type string_hash :: (string, nat) dictType"] by auto
  have "n = 3"
  proof (rule ccontr)
    assume "n \<noteq> 3"
    then consider "n \<le> 2" | "4 \<le> n" by linarith
    then show False
    proof cases
      case 1
      then have "(2 :: nat) ^ n \<le> 2 ^ 2" by (rule power_increasing) simp
      then show False using d'(3) by simp
    next
      case 2
      then have "(2 :: nat) ^ 3 \<le> 2 ^ (n - 1)" by (intro power_increasing) auto
      then show False using d'(4) 2 by simp
    qed
  qed
  then show ?thesis using d' by auto
qed

section \<open>Iterators\<close>

text \<open>The loop \<^verbatim>\<open>while ((de = dictNext(it)) != NULL)\<close>, and the one that deletes each entry it is given.\<close>

fun visit :: "nat \<Rightarrow> ('k, 'v) dict \<Rightarrow> ('k, 'v) dictIterator \<Rightarrow> ('k \<times> 'v) list option" where
  "visit 0 d it = None"
| "visit (Suc n) d it =
     (case dictNext d it of
        (None, it') \<Rightarrow> Some []
      | (Some e, it') \<Rightarrow> map_option (Cons e) (visit n d it'))"

fun visit_delete ::
    "nat \<Rightarrow> ('k, 'v) dict \<Rightarrow> ('k, 'v) dictIterator \<Rightarrow> (('k \<times> 'v) list \<times> ('k, 'v) dict) option" where
  "visit_delete 0 d it = None"
| "visit_delete (Suc n) d it =
     (case dictNext d it of
        (None, it') \<Rightarrow> Some ([], d)
      | (Some e, it') \<Rightarrow>
          (case dict_remove d (fst e) of
             Ok (b, d') \<Rightarrow> map_option (map_prod (Cons e) (\<lambda>d. d)) (visit_delete n d' it')
           | Fault f \<Rightarrow> None))"

lemma next_step:
  assumes "dict_ok d" and "it_ok d it" and "it_rest d it = e # es"
  shows "\<exists>it'. dictNext d it = (Some e, it') \<and> it_ok d it' \<and> it_rest d it' = es \<and>
    int (slot d (d_sizemask d) (fst e)) = it_index it'"
  using dictNext_rest [of d it] assms by (cases "dictNext d it") (auto simp: next_spec_def dict_ok_def)

lemma next_end:
  assumes "dict_ok d" and "it_ok d it" and "it_rest d it = []"
  shows "\<exists>it'. dictNext d it = (None, it')"
  using dictNext_rest [of d it] assms by (cases "dictNext d it") (auto simp: next_spec_def dict_ok_def)

lemma visit_rest:
  assumes "dict_ok d" and "it_ok d it" and "length (it_rest d it) \<le> n"
  shows "visit (Suc n) d it = Some (it_rest d it)"
  using assms(2,3)
proof (induction n arbitrary: it)
  case 0
  then show ?case using next_end [OF assms(1), of it] by auto
next
  case (Suc n)
  show ?case
  proof (cases "it_rest d it")
    case Nil
    then show ?thesis using next_end [OF assms(1) Suc.prems(1)] by auto
  next
    case (Cons e es)
    then obtain it' where it': "dictNext d it = (Some e, it')" "it_ok d it'" "it_rest d it' = es"
      using next_step [OF assms(1) Suc.prems(1)] by blast
    have "visit (Suc n) d it' = Some es" using Suc.IH [OF it'(2)] it'(3) Suc.prems(2) Cons by simp
    then show ?thesis using it'(1) Cons by (simp del: visit.simps(2) add: visit.simps(2) [of "Suc n"])
  qed
qed

lemma dictDelete_frame:
  assumes "dictDelete d k = Ok (b, d', fs)"
  shows "d_sizemask d' = d_sizemask d \<and> slot d' = slot d \<and>
     drop (Suc (slot d (d_sizemask d) k)) (d_table d') = drop (Suc (slot d (d_sizemask d) k)) (d_table d)"
  using assms by (auto simp: dictDelete_def Let_def split: if_splits option.splits)

lemma visit_delete_rest:
  assumes "dict_ok d" and "it_ok d it" and "length (it_rest d it) \<le> n"
    and "\<forall>(k, v) \<in> set (it_rest d it). dict_map d k = Some v" and "distinct (map fst (it_rest d it))"
  shows "\<exists>d'. visit_delete (Suc n) d it = Some (it_rest d it, d') \<and> dict_ok d' \<and>
      dict_map d' = (\<lambda>k. if k \<in> fst ` set (it_rest d it) then None else dict_map d k)"
  using assms
proof (induction n arbitrary: it d)
  case 0
  then show ?case using next_end [of d it] by auto
next
  case (Suc n)
  show ?case
  proof (cases "it_rest d it")
    case Nil
    then show ?thesis using next_end [OF Suc.prems(1,2)] Suc.prems(1) by auto
  next
    case (Cons e es)
    then obtain it' where it': "dictNext d it = (Some e, it')" "it_ok d it'" "it_rest d it' = es"
        "int (slot d (d_sizemask d) (fst e)) = it_index it'"
      using next_step [OF Suc.prems(1,2)] by blast
    obtain k v where e: "e = (k, v)" by (cases e)
    have kv: "dict_map d k = Some v" using Suc.prems(4) Cons e by auto
    obtain d1 fs where d1: "dictDelete d k = Ok (True, d1, fs)" "dict_ok d1" "dict_map d1 = (dict_map d)(k := None)"
      using dictDelete_ok [OF Suc.prems(1), of k] kv by auto
    note frame = dictDelete_frame [OF d1(1)]
    have idx: "nat (it_index it' + 1) = Suc (slot d (d_sizemask d) k)" using it'(4) e by simp
    have rest: "it_rest d1 it' = es" using it'(3) frame idx by (simp add: it_rest_def)
    have "it_ok d1 it'" using it'(2) frame by (simp add: it_ok_def)
    moreover have "\<forall>(k', v') \<in> set es. dict_map d1 k' = Some v'" "distinct (map fst es)" "k \<notin> fst ` set es"
      using Suc.prems(4,5) Cons e d1(3) by (auto simp: rev_image_eqI)
    ultimately obtain d2 where "visit_delete (Suc n) d1 it' = Some (es, d2)" "dict_ok d2"
        "dict_map d2 = (\<lambda>k. if k \<in> fst ` set es then None else dict_map d1 k)"
      using Suc.IH [OF d1(2), of it'] rest Suc.prems(3) Cons by auto
    then show ?thesis
      using it'(1) Cons d1 e by (auto simp: dict_remove_def visit_delete.simps(2) [of "Suc n"] simp del: visit_delete.simps(2))
  qed
qed

text \<open>
  An iterator over a well-formed table returns each of its entries once, in bucket order, and
  then NULL.\<close>

theorem iterator_visits_each_once:
  assumes "dict_ok d" and "ample m"
  shows "\<exists>it es. dictGetIterator m = Ok it \<and> visit (d_used d + 1) d it = Some es \<and>
     distinct (map fst es) \<and> map_of es = dict_map d \<and> length es = d_used d"
proof -
  obtain it where it: "dictGetIterator m = Ok it" "it_ok d it" "it_rest d it = concat (d_table d)"
    using assms(2) by (simp add: dictGetIterator_def ample_def it_ok_def it_rest_def)
  moreover have "distinct (map fst (concat (d_table d)))" "d_used d = length (concat (d_table d))"
    using assms(1) distinct_entries by (auto simp: dict_ok_def)
  ultimately show ?thesis
    using visit_rest [OF assms(1), of it "d_used d"] dict_map_entries [OF assms(1)] by auto
qed

text \<open>A table of three entries, two of them in one bucket.\<close>

definition demo_table :: "(string, nat) dict" where
  "demo_table = \<lparr>d_type = plain_type (\<lambda>k. of_nat (length k)),
     d_table = [[], [(''a'', 1), (''b'', 2)], [(''xy'', 3)], []], d_size = 4, d_sizemask = 3, d_used = 3\<rparr>"

lemma demo_table_ok [simp]: "dict_ok demo_table"
proof -
  have "plain_keys demo_table"
    by (simp add: plain_keys_def plain_type_def demo_table_def dictCompareHashKeys_def dictSetHashKey_def dictSetHashVal_def)
  moreover have "buckets_ok demo_table 3 (d_table demo_table)"
    unfolding buckets_ok_def
  proof (intro allI impI)
    fix i
    assume "i < length (d_table demo_table)"
    then have "i < 4" by (simp add: demo_table_def)
    then consider "i = 0" | "i = 1" | "i = 2" | "i = 3" by linarith
    then show "distinct (map fst (d_table demo_table ! i)) \<and> (\<forall>e \<in> set (d_table demo_table ! i). slot demo_table 3 (fst e) = i)"
      by cases (simp_all add: demo_table_def slot_def plain_type_def)
  qed
  moreover have "d_size demo_table = 2 ^ 2" by (simp add: demo_table_def)
  moreover have "(2 :: nat) \<le> 31" by simp
  ultimately show ?thesis unfolding dict_ok_def by (auto simp: demo_table_def intro: exI [of _ 2])
qed

theorem iterator_visits_each_once_witness:
  "\<exists>it es. dictGetIterator roomy = Ok it \<and> visit 4 demo_table it = Some es \<and> length es = 3"
  using iterator_visits_each_once [OF demo_table_ok ample_roomy] by (auto simp: demo_table_def)



section \<open>Clearing\<close>

text \<open>
  dictClear calls the destructors of the key and the value of every entry, once and entry by entry,
  and leaves a table like a new one.\<close>

theorem dictClear_frees_all:
  assumes "dict_ok d"
  shows "\<exists>es d'. dictClear d = (d', concat (map (\<lambda>(k, v). dictFreeEntryKey d k @ dictFreeEntryVal d v) es)) \<and>
     distinct (map fst es) \<and> map_of es = dict_map d \<and> d' = dictInit (d_type d)"
proof -
  have "d_used d = length (concat (d_table d))" using assms by (simp add: dict_ok_def)
  then have "snd (dictClear d) = concat (map (\<lambda>(k, v). dictFreeEntryKey d k @ dictFreeEntryVal d v) (concat (d_table d)))"
    by (simp add: dictClear_def clear_loop_all case_prod_beta')
  moreover have "fst (dictClear d) = dictInit (d_type d)"
    by (simp add: dictClear_def dictReset_def dictInit_def)
  moreover have "distinct (map fst (concat (d_table d)))" using assms distinct_entries by (auto simp: dict_ok_def)
  ultimately show ?thesis using dict_map_entries [OF assms] by (metis prod.collapse)
qed

theorem dictClear_frees_all_witness:
  "\<exists>fs. dictClear demo_table = (dictInit (d_type demo_table), fs) \<and> length fs = 6"
proof -
  obtain es d' where "dictClear demo_table = (d', concat (map (\<lambda>(k, v). dictFreeEntryKey demo_table k @ dictFreeEntryVal demo_table v) es))"
      "d' = dictInit (d_type demo_table)"
    using dictClear_frees_all [OF demo_table_ok] by blast
  moreover have "length (snd (dictClear demo_table)) = 6"
    by (simp add: dictClear_def demo_table_def dictFreeEntryKey_def dictFreeEntryVal_def plain_type_def dec_used_def)
  ultimately show ?thesis by (metis snd_conv)
qed

end
