(* ===== verification/SdsText.thy ===== *)
theory SdsText
  imports Format
begin

text \<open>
  The text functions of \<^verbatim>\<open>sds.c\<close>: writing numbers, the small formatter \<^verbatim>\<open>sdscatfmt\<close>, splitting at a
  separator, and the quoted form a line of arguments is read from and written in
  (\<^verbatim>\<open>sdssplitargs\<close>, \<^verbatim>\<open>sdscatrepr\<close>); and \<^verbatim>\<open>redisFormatSdsCommandArgv\<close> of \<^verbatim>\<open>hiredis.c\<close>, which is built
  on the formatter. A NULL that is used without a test is a fault.
\<close>

section \<open>Numbers\<close>

text \<open>The digits, last one first, and the loop that swaps them in place.\<close>

function rev_digits :: "nat \<Rightarrow> string" where
  "rev_digits v = digit_char (v mod 10) # (if v div 10 = 0 then [] else rev_digits (v div 10))"
  by pat_completeness auto
termination
  by (relation "measure (\<lambda>v. v)") auto

declare rev_digits.simps [simp del]

function swap_loop :: "string \<Rightarrow> nat \<Rightarrow> nat \<Rightarrow> string" where
  "swap_loop s i j = (if i < j then swap_loop (s[i := s ! j, j := s ! i]) (i + 1) (j - 1) else s)"
  by pat_completeness auto
termination
  by (relation "measure (\<lambda>(s, i, j). j - i)") auto

declare swap_loop.simps [simp del]

definition sdsull2str :: "clong \<Rightarrow> string" where
  "sdsull2str v = (let s = rev_digits (unat v) in swap_loop s 0 (length s - 1))"

text \<open>\<^verbatim>\<open>-value\<close> wraps around at the least number, and is read as unsigned.\<close>

definition magnitude :: "clong \<Rightarrow> nat" where
  "magnitude value = (if sint value < 0 then unat (- value) else unat value)"

definition sdsll2str :: "clong \<Rightarrow> string" where
  "sdsll2str value =
     (let s = rev_digits (magnitude value) @ (if sint value < 0 then ''-'' else [])
      in swap_loop s 0 (length s - 1))"

text \<open>\<^verbatim>\<open>sdsfromlonglong\<close> fills its buffer from the end.\<close>

fun fill_digits :: "nat \<Rightarrow> string \<Rightarrow> string" where
  "fill_digits v acc =
     (if v div 10 = 0 then digit_char (v mod 10) # acc else fill_digits (v div 10) (digit_char (v mod 10) # acc))"

declare fill_digits.simps [simp del]

definition sdsfromlonglong :: "cmem \<Rightarrow> clong \<Rightarrow> sdshdr option" where
  "sdsfromlonglong m value =
     (let p = (if sint value < 0 then ''-'' else []) @ fill_digits (magnitude value) []
      in sdsnewlen m (Some p) (length p))"

section \<open>The small formatter\<close>

datatype catarg =
    CatStr string
  | CatSds sdshdr
  | CatInt cint
  | CatLLong clong
  | CatUInt cint
  | CatULLong clong
  | CatSize clong

text \<open>What a conversion writes; \<open>None\<close> for a character that is copied.\<close>

definition cat_conv :: "char \<Rightarrow> catarg list \<Rightarrow> (string \<times> catarg list) outcome option" where
  "cat_conv next ap =
     (if next = CHR ''s'' then
        Some (case ap of CatStr str # ap' \<Rightarrow> Ok (c_str str, ap') | _ \<Rightarrow> Fault BadVarArg)
      else if next = CHR ''S'' then
        Some (case ap of CatSds str # ap' \<Rightarrow> Ok (take (sdslen str) (sds_buf str), ap') | _ \<Rightarrow> Fault BadVarArg)
      else if next = CHR ''i'' then
        Some (case ap of CatInt num # ap' \<Rightarrow> Ok (sdsll2str (scast num), ap') | _ \<Rightarrow> Fault BadVarArg)
      else if next = CHR ''I'' then
        Some (case ap of CatLLong num # ap' \<Rightarrow> Ok (sdsll2str num, ap') | _ \<Rightarrow> Fault BadVarArg)
      else if next = CHR ''u'' then
        Some (case ap of CatUInt num # ap' \<Rightarrow> Ok (sdsull2str (ucast num), ap') | _ \<Rightarrow> Fault BadVarArg)
      else if next = CHR ''U'' then
        Some (case ap of CatULLong num # ap' \<Rightarrow> Ok (sdsull2str num, ap') | _ \<Rightarrow> Fault BadVarArg)
      else if next = CHR ''T'' then
        Some (case ap of CatSize num # ap' \<Rightarrow> Ok (sdsull2str num, ap') | _ \<Rightarrow> Fault BadVarArg)
      else None)"

text \<open>Making room, copying to position \<open>i\<close> and counting.\<close>

definition room_for :: "cmem \<Rightarrow> sdshdr \<Rightarrow> nat \<Rightarrow> sdshdr outcome" where
  "room_for m s l =
     (if sds_free s < l
      then (case sdsMakeRoomFor m s l of None \<Rightarrow> Fault NullDeref | Some s1 \<Rightarrow> Ok s1)
      else Ok s)"

definition put_at :: "sdshdr \<Rightarrow> nat \<Rightarrow> string \<Rightarrow> sdshdr" where
  "put_at s i t = s\<lparr>sds_buf := memcpy_at i t (sds_buf s), sds_len := sds_len s + length t,
                    sds_free := sds_free s - length t\<rparr>"

fun catfmt_loop :: "cmem \<Rightarrow> string \<Rightarrow> catarg list \<Rightarrow> sdshdr \<Rightarrow> nat \<Rightarrow> (sdshdr \<times> nat) outcome" where
  "catfmt_loop m [] ap s i = Ok (s, i)"
| "catfmt_loop m (c # f) ap s i =
     obind (room_for m s 1) (\<lambda>s1.
       if c = CHR ''%'' then
         (case f of
            [] \<Rightarrow> Fault OutOfBounds
          | next # f' \<Rightarrow>
              (case cat_conv next ap of
                 None \<Rightarrow> catfmt_loop m f' ap (put_at s1 i [next]) (i + 1)
               | Some r \<Rightarrow>
                   obind r (\<lambda>(t, ap').
                   obind (room_for m s1 (length t)) (\<lambda>s2.
                     catfmt_loop m f' ap' (put_at s2 i t) (i + length t)))))
       else catfmt_loop m f ap (put_at s1 i [c]) (i + 1))"

definition sdscatfmt :: "cmem \<Rightarrow> sdshdr \<Rightarrow> string \<Rightarrow> catarg list \<Rightarrow> sdshdr outcome" where
  "sdscatfmt m s fmt ap =
     obind (catfmt_loop m (c_str fmt) ap s (sdslen s)) (\<lambda>(s1, i).
       Ok (s1\<lparr>sds_buf := (sds_buf s1)[i := NUL]\<rparr>))"

section \<open>Requests\<close>

text \<open>\<open>argc\<close> is an \<^verbatim>\<open>int\<close>, the lengths are \<^verbatim>\<open>size_t\<close>.\<close>

fun sds_argv_loop :: "cmem \<Rightarrow> string list \<Rightarrow> nat list option \<Rightarrow> nat list \<Rightarrow> sdshdr \<Rightarrow> sdshdr outcome" where
  "sds_argv_loop m argv argvlen [] cmd = Ok cmd"
| "sds_argv_loop m argv argvlen (j # js) cmd =
     (let len = arg_length argv argvlen j in
      obind (sdscatfmt m cmd (''$%T'' @ crlf) [CatSize (of_nat len)]) (\<lambda>cmd1.
        case sdscatlen m cmd1 (argv ! j) len of
          None \<Rightarrow> Fault NullDeref
        | Some cmd2 \<Rightarrow>
            (case sdscatlen m cmd2 crlf 2 of
               None \<Rightarrow> Fault NullDeref
             | Some cmd3 \<Rightarrow> sds_argv_loop m argv argvlen js cmd3)))"

definition redisFormatSdsCommandArgv ::
    "cmem \<Rightarrow> nat \<Rightarrow> string list \<Rightarrow> nat list option \<Rightarrow> (int \<times> sdshdr option) outcome" where
  "redisFormatSdsCommandArgv m argc argv argvlen =
     (if argc > length argv \<or> (case argvlen of None \<Rightarrow> False | Some ls \<Rightarrow> length ls < argc)
      then Fault OutOfBounds
      else
        let totlen = fold (\<lambda>j t. t + bulklen (arg_length argv argvlen j)) [0 ..< argc]
                       (1 + countDigits argc + 2)
        in case sdsempty m of
             None \<Rightarrow> Ok (-1, None)
           | Some cmd \<Rightarrow>
               (case sdsMakeRoomFor m cmd totlen of
                  None \<Rightarrow> Ok (-1, None)
                | Some cmd1 \<Rightarrow>
                    if list_ex (\<lambda>j. length (argv ! j) < arg_length argv argvlen j) [0 ..< argc]
                    then Fault OutOfBounds
                    else
                      obind (sdscatfmt m cmd1 (''*%i'' @ crlf) [CatInt (of_nat argc)]) (\<lambda>cmd2.
                      obind (sds_argv_loop m argv argvlen [0 ..< argc] cmd2) (\<lambda>cmd3.
                        if sdslen cmd3 \<noteq> totlen then Fault AssertFailure
                        else Ok (int totlen, Some cmd3)))))"

section \<open>Splitting at a separator\<close>

text \<open>
  \<^verbatim>\<open>sdssplitlen\<close>: \<open>slots\<close> is the capacity of the token array; \<^verbatim>\<open>*count\<close> is left alone when the
  arguments are refused or the first allocation fails. The result is the tokens, or NULL; the count
  that is stored is their number, or 0.
\<close>

function split_loop ::
    "cmem \<Rightarrow> string \<Rightarrow> nat \<Rightarrow> string \<Rightarrow> nat \<Rightarrow> nat \<Rightarrow> nat \<Rightarrow> nat \<Rightarrow> sdshdr list \<Rightarrow> (nat \<times> sdshdr list) option" where
  "split_loop m s len sep seplen j slots start tokens =
     (if j + seplen \<le> len \<and> 0 < seplen then
        let grow = slots < length tokens + 2;
            slots' = (if grow then slots * 2 else slots)
        in if grow \<and> \<not> alloc_ok m (ptr_size * slots') then None
           else if (seplen = 1 \<and> s ! j = sep ! 0) \<or> take seplen (drop j s) = take seplen sep then
             (case sdsnewlen m (Some (drop start s)) (j - start) of
                None \<Rightarrow> None
              | Some t \<Rightarrow> split_loop m s len sep seplen (j + seplen) slots' (j + seplen) (tokens @ [t]))
           else split_loop m s len sep seplen (j + 1) slots' start tokens
      else Some (start, tokens))"
  by pat_completeness auto
termination
  by (relation "measure (\<lambda>(m, s, len, sep, seplen, j, slots, start, tokens). Suc len - j)") auto

declare split_loop.simps [simp del]

definition sdssplitlen :: "cmem \<Rightarrow> string \<Rightarrow> int \<Rightarrow> string \<Rightarrow> int \<Rightarrow> sdshdr list option" where
  "sdssplitlen m s len sep seplen =
     (if seplen < 1 \<or> len < 0 then None
      else if \<not> alloc_ok m (ptr_size * 5) then None
      else if len = 0 then Some []
      else
        (case split_loop m s (nat len) sep (nat seplen) 0 5 0 [] of
           None \<Rightarrow> None
         | Some (start, tokens) \<Rightarrow>
             (case sdsnewlen m (Some (drop start s)) (nat len - start) of
                None \<Rightarrow> None
              | Some t \<Rightarrow> Some (tokens @ [t]))))"

section \<open>Quoting\<close>

text \<open>What is appended for one byte; \<open>AppPrintf\<close> marks the calls that go through \<^verbatim>\<open>sdscatprintf\<close>.\<close>

definition repr_char :: "char \<Rightarrow> append" where
  "repr_char c =
     (if c = CHR 0x5C \<or> c = CHR 0x22 then AppPrintf [CHR 0x5C, c]
      else if c = LF then AppLen [CHR 0x5C, CHR ''n''] 2
      else if c = CR then AppLen [CHR 0x5C, CHR ''r''] 2
      else if c = CHR 0x09 then AppLen [CHR 0x5C, CHR ''t''] 2
      else if c = CHR 0x07 then AppLen [CHR 0x5C, CHR ''a''] 2
      else if c = CHR 0x08 then AppLen [CHR 0x5C, CHR ''b''] 2
      else if isprint c then AppPrintf [c]
      else AppPrintf ([CHR 0x5C, CHR ''x''] @ [hex_char 97 (byte c div 16), hex_char 97 (byte c mod 16)]))"

definition cat_or_fault :: "cmem \<Rightarrow> sdshdr option \<Rightarrow> append \<Rightarrow> sdshdr option outcome" where
  "cat_or_fault m so a = (case so of None \<Rightarrow> Fault NullDeref | Some s \<Rightarrow> Ok (do_append m s a))"

fun repr_loop :: "cmem \<Rightarrow> string \<Rightarrow> sdshdr option \<Rightarrow> sdshdr option outcome" where
  "repr_loop m [] so = Ok so"
| "repr_loop m (c # p) so = obind (cat_or_fault m so (repr_char c)) (repr_loop m p)"

definition sdscatrepr :: "cmem \<Rightarrow> sdshdr \<Rightarrow> string \<Rightarrow> nat \<Rightarrow> sdshdr option outcome" where
  "sdscatrepr m s p len =
     (if length p < len then Fault OutOfBounds
      else
        obind (cat_or_fault m (Some s) (AppLen [CHR 0x22] 1)) (\<lambda>so.
        obind (repr_loop m (take len p) so) (\<lambda>so1.
          cat_or_fault m so1 (AppLen [CHR 0x22] 1))))"

section \<open>Reading a line of arguments\<close>

definition is_hex_digit :: "char \<Rightarrow> bool" where
  "is_hex_digit c \<longleftrightarrow> (48 \<le> byte c \<and> byte c \<le> 57) \<or> (97 \<le> byte c \<and> byte c \<le> 102) \<or> (65 \<le> byte c \<and> byte c \<le> 70)"

definition hex_digit_to_int :: "char \<Rightarrow> nat" where
  "hex_digit_to_int c =
     (if 48 \<le> byte c \<and> byte c \<le> 57 then byte c - 48
      else if 97 \<le> byte c \<and> byte c \<le> 102 then byte c - 87
      else if 65 \<le> byte c \<and> byte c \<le> 70 then byte c - 55
      else 0)"

text \<open>\<open>peek p n\<close> is \<^verbatim>\<open>*(p+n)\<close>, with the terminator behind the line.\<close>

definition peek :: "string \<Rightarrow> nat \<Rightarrow> char" where
  "peek p n = (if n < length p then p ! n else NUL)"

definition unescape :: "char \<Rightarrow> char" where
  "unescape c =
     (if c = CHR ''n'' then LF else if c = CHR ''r'' then CR else if c = CHR ''t'' then CHR 0x09
      else if c = CHR ''b'' then CHR 0x08 else if c = CHR ''a'' then CHR 0x07 else c)"

text \<open>
  One round of the inner loop: fail, end the token, enter quotes, or append a character, with the
  number of characters consumed. \<open>inq\<close> and \<open>insq\<close> say that the position is inside double or single
  quotes.
\<close>

datatype token_action = TErr | TDone | TEnter bool bool | TPush char nat

definition token_step :: "bool \<Rightarrow> bool \<Rightarrow> string \<Rightarrow> token_action" where
  "token_step inq insq p =
     (let c = peek p 0 in
      if inq then
        if c = CHR 0x5C \<and> peek p 1 = CHR ''x'' \<and> is_hex_digit (peek p 2) \<and> is_hex_digit (peek p 3)
        then TPush (char_of (hex_digit_to_int (peek p 2) * 16 + hex_digit_to_int (peek p 3))) 4
        else if c = CHR 0x5C \<and> peek p 1 \<noteq> NUL then TPush (unescape (peek p 1)) 2
        else if c = CHR 0x22 then
          if peek p 1 \<noteq> NUL \<and> \<not> isspace (peek p 1) then TErr else TDone
        else if c = NUL then TErr
        else TPush c 1
      else if insq then
        if c = CHR 0x5C \<and> peek p 1 = CHR 0x27 then TPush (CHR 0x27) 2
        else if c = CHR 0x27 then
          if peek p 1 \<noteq> NUL \<and> \<not> isspace (peek p 1) then TErr else TDone
        else if c = NUL then TErr
        else TPush c 1
      else
        if c = CHR '' '' \<or> c = LF \<or> c = CR \<or> c = CHR 0x09 \<or> c = NUL then TDone
        else if c = CHR 0x22 then TEnter True insq
        else if c = CHR 0x27 then TEnter inq True
        else TPush c 1)"

lemma token_step_consumes:
  "token_step inq insq p = TPush c n \<Longrightarrow> p \<noteq> [] \<and> 0 < n"
  "token_step inq insq p = TEnter a b \<Longrightarrow> p \<noteq> []"
  by (auto simp: token_step_def peek_def Let_def split: if_splits)

text \<open>The inner loop returns the token and the rest of the line, or \<open>None\<close> for \<^verbatim>\<open>goto err\<close>.\<close>

function token_loop ::
    "cmem \<Rightarrow> bool \<Rightarrow> bool \<Rightarrow> sdshdr option \<Rightarrow> string \<Rightarrow> (sdshdr option \<times> string) option outcome" where
  "token_loop m inq insq current p =
     (case token_step inq insq p of
        TErr \<Rightarrow> Ok None
      | TDone \<Rightarrow> Ok (Some (current, drop 1 p))
      | TEnter inq' insq' \<Rightarrow> token_loop m inq' insq' current (drop 1 p)
      | TPush c n \<Rightarrow>
          obind (cat_or_fault m current (AppLen [c] 1)) (\<lambda>cur. token_loop m inq insq cur (drop n p)))"
  by pat_completeness auto
termination
  by (relation "measure (\<lambda>(m, inq, insq, current, p). length p)")
     (auto dest!: token_step_consumes)

declare token_loop.simps [simp del]

lemma token_loop_rest:
  "token_loop m inq insq current p = Ok (Some (cur, q)) \<Longrightarrow> length q \<le> length p - 1"
proof (induction m inq insq current p arbitrary: cur q rule: token_loop.induct)
  case (1 m inq insq current p)
  then show ?case
    by (subst (asm) (3) token_loop.simps) (fastforce split: token_action.splits dest!: token_step_consumes(1))
qed

lemma token_rest_shorter:
  assumes "token_loop m False False cur0 (dropWhile isspace p) = Ok (Some (cur, q))" and "x \<in> set p" and "\<not> isspace x"
  shows "length q < length p"
proof -
  have "length q \<le> length (dropWhile isspace p) - 1" using token_loop_rest [OF assms(1)] .
  moreover have "length (dropWhile isspace p) \<le> length p" by (rule dropWhile_le)
  moreover have "dropWhile isspace p \<noteq> []" using assms(2,3) by (auto simp: dropWhile_eq_Nil_conv)
  ultimately show ?thesis by (cases "dropWhile isspace p") auto
qed

text \<open>
  \<^verbatim>\<open>sdssplitargs\<close>: the result is the tokens, or \<open>None\<close> for NULL; growing the vector is not tested for
  failure.
\<close>

function args_loop :: "cmem \<Rightarrow> string \<Rightarrow> sdshdr option list \<Rightarrow> sdshdr option list option outcome" where
  "args_loop m p vector =
     (let p1 = dropWhile isspace p in
      if p1 = [] then (if vector = [] \<and> \<not> alloc_ok m ptr_size then Ok None else Ok (Some vector))
      else
        (case token_loop m False False (sdsempty m) p1 of
           Fault e \<Rightarrow> Fault e
         | Ok None \<Rightarrow> Ok None
         | Ok (Some (current, p2)) \<Rightarrow>
             if \<not> alloc_ok m (ptr_size * (length vector + 1)) then Fault NullDeref
             else args_loop m p2 (vector @ [current])))"
  by pat_completeness auto
termination
  by (relation "measure (\<lambda>(m, p, vector). length p)") (auto dest: token_rest_shorter)

declare args_loop.simps [simp del]

definition sdssplitargs :: "cmem \<Rightarrow> string \<Rightarrow> sdshdr option list option outcome" where
  "sdssplitargs m line = args_loop m (c_str line) []"

end
