(* ===== verification/SdsTextProperties.thy ===== *)
theory SdsTextProperties
  imports SdsText
begin

text \<open>
  The text functions of the string library: numbers are written in decimal in the room the buffers
  have, \<^verbatim>\<open>sdscatfmt\<close> appends what its format denotes, the two ways to write a request agree, joining
  what was split gives the string back, and \<^verbatim>\<open>sdssplitargs\<close> reads what \<^verbatim>\<open>sdscatrepr\<close> wrote.
\<close>

section \<open>Numbers\<close>

lemma rev_digits_dec: "rev_digits v = rev (dec v)"
proof (induction v rule: rev_digits.induct)
  case (1 v)
  show ?case
  proof (cases "v < 10")
    case True
    then show ?thesis by (subst rev_digits.simps, subst dec.simps) simp
  next
    case False
    then have "v div 10 \<noteq> 0" by (simp add: div_eq_0_iff)
    then show ?thesis using 1 False by (subst rev_digits.simps, subst dec.simps) simp
  qed
qed

lemma fill_digits_dec: "fill_digits v acc = dec v @ acc"
proof (induction v acc rule: fill_digits.induct)
  case (1 v acc)
  show ?case
  proof (cases "v < 10")
    case True
    then show ?thesis by (subst fill_digits.simps, subst dec.simps) simp
  next
    case False
    then have "v div 10 \<noteq> 0" by (simp add: div_eq_0_iff)
    then show ?thesis using 1 False by (subst fill_digits.simps, subst dec.simps) simp
  qed
qed

lemma swap_loop_nth:
  assumes "j < length s" and "k < length s"
  shows "length (swap_loop s i j) = length s \<and>
    swap_loop s i j ! k = (if i \<le> k \<and> k \<le> j then s ! (i + j - k) else s ! k)"
  using assms
proof (induction s i j rule: swap_loop.induct)
  case (1 s i j)
  show ?case
  proof (cases "i < j")
    case True
    let ?s = "s[i := s ! j, j := s ! i]"
    have IH: "length (swap_loop ?s (i + 1) (j - 1)) = length ?s \<and>
        swap_loop ?s (i + 1) (j - 1) ! k =
          (if i + 1 \<le> k \<and> k \<le> j - 1 then ?s ! (i + 1 + (j - 1) - k) else ?s ! k)"
      using 1 True by (intro "1.IH") auto
    have "i + 1 + (j - 1) - k = i + j - k" using True by simp
    then show ?thesis
      using IH True "1.prems" by (subst (1 2) swap_loop.simps) (auto simp: nth_list_update)
  next
    case False
    then have "i + j - k = k" if "i \<le> k" "k \<le> j" using that by auto
    then show ?thesis using False by (subst (1 2) swap_loop.simps) auto
  qed
qed

lemma swap_loop_rev: "swap_loop s 0 (length s - 1) = rev s"
proof (cases "s = []")
  case True
  then show ?thesis by (simp add: swap_loop.simps)
next
  case False
  then have lt: "length s - 1 < length s" by (cases s) auto
  then have len: "length (swap_loop s 0 (length s - 1)) = length s"
    using swap_loop_nth [OF lt lt, of 0] by blast
  show ?thesis
  proof (rule nth_equalityI)
    fix k
    assume "k < length (swap_loop s 0 (length s - 1))"
    then show "swap_loop s 0 (length s - 1) ! k = rev s ! k"
      using swap_loop_nth [OF lt, of k 0] len by (auto simp: rev_nth)
  qed (use len in simp)
qed

lemma magnitude_abs: "magnitude v = nat \<bar>sint v\<bar>"
proof (cases "sint v < 0")
  case True
  have "uint (- v) = take_bit 64 (- sint v)"
    using uint_word_of_int [of "- sint v", where 'a = 64] by (simp add: take_bit_eq_mod)
  also have "\<dots> = - sint v"
    using True clong_sint_bounds [of v] by (intro take_bit_int_eq_self) auto
  finally show ?thesis using True by (simp add: magnitude_def unat_eq_nat_uint)
next
  case False
  then show ?thesis by (simp add: magnitude_def sint_nonneg_unat)
qed

lemma sdsll2str_show: "sdsll2str v = show_long v"
  using swap_loop_rev [of "rev_digits (magnitude v) @ (if sint v < 0 then ''-'' else [])"]
  unfolding sdsll2str_def Let_def
  by (simp add: rev_digits_dec magnitude_abs show_long_def show_int_def del: One_nat_def)

lemma sdsull2str_show: "sdsull2str v = show_ulong v"
  using swap_loop_rev [of "rev_digits (unat v)"]
  unfolding sdsull2str_def Let_def by (simp add: rev_digits_dec show_ulong_def del: One_nat_def)

lemma length_dec_le: "n < 10 ^ k \<Longrightarrow> 0 < k \<Longrightarrow> length (dec n) \<le> k"
proof (induction k arbitrary: n)
  case (Suc k)
  show ?case
  proof (cases "n < 10")
    case True
    then show ?thesis by (subst dec.simps) simp
  next
    case False
    then have "0 < k" using Suc.prems by (cases k) auto
    moreover have "n div 10 < 10 ^ k" using Suc.prems by (simp add: less_mult_imp_div_less mult.commute)
    ultimately show ?thesis using Suc.IH False by (subst dec.simps) simp
  qed
qed simp

text \<open>
  \<^verbatim>\<open>sdsll2str\<close> and \<^verbatim>\<open>sdsull2str\<close> write the number in decimal, also the least number whose negation wraps
  around, and what they write fits the buffer of 21 bytes with its terminator. \<^verbatim>\<open>strtol\<close> reads a signed
  number back.
\<close>

theorem sdsll2str_decimal:
  "sdsll2str v = show_long v \<and> sdsull2str v = show_ulong v \<and>
   length (sdsll2str v) + 1 \<le> 21 \<and> length (sdsull2str v) + 1 \<le> 21 \<and> strtol (sdsll2str v) = v"
proof -
  have "unat v < 10 ^ 20" using unsigned_less [of v, where 'a = nat] by simp
  then have "length (dec (unat v)) \<le> 20" by (intro length_dec_le) auto
  moreover have "nat \<bar>sint v\<bar> < 10 ^ 19" using clong_sint_bounds [of v] by (simp add: nat_less_iff abs_less_iff)
  then have "length (dec (nat \<bar>sint v\<bar>)) \<le> 19" by (intro length_dec_le) auto
  ultimately have "length (show_ulong v) \<le> 20" "length (show_long v) \<le> 20"
    by (auto simp: show_ulong_def show_long_def show_int_def abs_if split: if_splits)
  then show ?thesis unfolding sdsll2str_show sdsull2str_show by simp
qed

section \<open>The small formatter\<close>

fun cat_text :: "string \<Rightarrow> catarg list \<Rightarrow> string outcome" where
  "cat_text [] ap = Ok []"
| "cat_text (c # f) ap =
     (if c = CHR ''%'' then
        (case f of
           [] \<Rightarrow> Fault OutOfBounds
         | next # f' \<Rightarrow>
             (case cat_conv next ap of
                None \<Rightarrow> obind (cat_text f' ap) (\<lambda>u. Ok (next # u))
              | Some r \<Rightarrow> obind r (\<lambda>(t, ap'). obind (cat_text f' ap') (\<lambda>u. Ok (t @ u)))))
      else obind (cat_text f ap) (\<lambda>u. Ok (c # u)))"

text \<open>A string being written: the header is consistent, the terminator not yet set.\<close>

definition open_sds :: "sdshdr \<Rightarrow> bool" where
  "open_sds s \<longleftrightarrow> length (sds_buf s) = sds_len s + sds_free s + 1"

lemma room_for_ok:
  assumes "open_sds s" and "\<not> mem_fails m"
  shows "\<exists>s1. room_for m s l = Ok s1 \<and> open_sds s1 \<and> sds_len s1 = sds_len s \<and> l \<le> sds_free s1 \<and> sds_val s1 = sds_val s"
proof (cases "sds_free s < l")
  case True
  obtain s1 where s1: "sdsMakeRoomFor m s l = Some s1"
    using assms(2) sdsMakeRoomFor_None by (cases "sdsMakeRoomFor m s l") auto
  then have "open_sds s1 \<and> sds_len s1 = sds_len s \<and> l \<le> sds_free s1 \<and> sds_val s1 = sds_val s"
    using assms(1)
    by (auto simp: sdsMakeRoomFor_def open_sds_def sds_val_def Let_def sdsavail_def sdslen_def
        SDS_MAX_PREALLOC_def split: if_splits)
  then show ?thesis using s1 True by (auto simp: room_for_def)
next
  case False
  then show ?thesis using assms(1) by (auto simp: room_for_def)
qed

lemma put_at_ok:
  assumes "open_sds s" and "length t \<le> sds_free s"
  shows "open_sds (put_at s (sds_len s) t) \<and> sds_len (put_at s (sds_len s) t) = sds_len s + length t \<and>
    sds_val (put_at s (sds_len s) t) = sds_val s @ t"
  using assms by (simp add: open_sds_def put_at_def sds_val_def)

lemma catfmt_loop_text:
  assumes "open_sds s" and "\<not> mem_fails m"
  shows "case cat_text f ap of
      Fault e \<Rightarrow> catfmt_loop m f ap s (sds_len s) = Fault e
    | Ok t \<Rightarrow> \<exists>s1. catfmt_loop m f ap s (sds_len s) = Ok (s1, sds_len s1) \<and> open_sds s1 \<and> sds_val s1 = sds_val s @ t"
  using assms(1)
proof (induction f ap arbitrary: s rule: cat_text.induct)
  case (2 c f ap)
  obtain s1 where s1: "room_for m s 1 = Ok s1" "open_sds s1" "sds_len s1 = sds_len s" "1 \<le> sds_free s1" "sds_val s1 = sds_val s"
    using room_for_ok [OF "2.prems" assms(2)] by blast
  show ?case
  proof (cases "c = CHR ''%''")
    case False
    have p: "open_sds (put_at s1 (sds_len s1) [c])" "sds_len (put_at s1 (sds_len s1) [c]) = sds_len s + 1"
        "sds_val (put_at s1 (sds_len s1) [c]) = sds_val s @ [c]"
      using put_at_ok [OF s1(2), of "[c]"] s1 by auto
    show ?thesis
      using "2.IH"(3) [OF False p(1)] False p s1 by (auto split: outcome.splits)
  next
    case True
    show ?thesis
    proof (cases f)
      case Nil
      then show ?thesis using True s1(1) by simp
    next
      case (Cons n f')
      show ?thesis
      proof (cases "cat_conv n ap")
        case None
        have p: "open_sds (put_at s1 (sds_len s1) [n])" "sds_len (put_at s1 (sds_len s1) [n]) = sds_len s + 1"
            "sds_val (put_at s1 (sds_len s1) [n]) = sds_val s @ [n]"
          using put_at_ok [OF s1(2), of "[n]"] s1 by auto
        show ?thesis
          using "2.IH"(1) [OF True Cons None p(1)] True Cons None p s1 by (auto split: outcome.splits)
      next
        case (Some r)
        show ?thesis
        proof (cases r)
          case (Fault e)
          then show ?thesis using True Cons Some s1(1) by simp
        next
          case (Ok ta)
          obtain t ap' where ta: "ta = (t, ap')" by (cases ta)
          obtain s2 where s2: "room_for m s1 (length t) = Ok s2" "open_sds s2" "sds_len s2 = sds_len s1"
              "length t \<le> sds_free s2" "sds_val s2 = sds_val s1"
            using room_for_ok [OF s1(2) assms(2)] by blast
          have p: "open_sds (put_at s2 (sds_len s2) t)" "sds_len (put_at s2 (sds_len s2) t) = sds_len s + length t"
              "sds_val (put_at s2 (sds_len s2) t) = sds_val s @ t"
            using put_at_ok [OF s2(2,4)] s1 s2 by auto
          show ?thesis
            using "2.IH"(2) [OF True Cons Some, of "(t, ap')" t ap' "put_at s2 (sds_len s2) t"] True Cons Some Ok ta p s1 s2
            by (auto split: outcome.splits)
        qed
      qed
    qed
  qed
qed simp

lemma sdscatfmt_text:
  assumes "wf_sds s" and "\<not> mem_fails m"
  shows "case cat_text (c_str fmt) ap of
      Fault e \<Rightarrow> sdscatfmt m s fmt ap = Fault e
    | Ok t \<Rightarrow> \<exists>s1. sdscatfmt m s fmt ap = Ok s1 \<and> wf_sds s1 \<and> sds_val s1 = sds_val s @ t"
proof -
  have "open_sds s" using assms(1) by (simp add: open_sds_def wf_sds_def)
  from catfmt_loop_text [OF this assms(2), of "c_str fmt" ap] show ?thesis
    by (auto simp: sdscatfmt_def sdslen_def open_sds_def wf_sds_def sds_val_def split: outcome.splits)
qed


definition good_mem :: cmem where
  "good_mem = \<lparr>alloc_ok = (\<lambda>_. True), garbage = (\<lambda>_. CHR ''?'')\<rparr>"

lemma good_mem_ok [simp]: "\<not> mem_fails good_mem"
  by (simp add: mem_fails_def good_mem_def)

definition empty_sds :: sdshdr where
  "empty_sds = \<lparr>sds_len = 0, sds_free = 0, sds_buf = [NUL]\<rparr>"

lemma empty_sds_wf [simp]: "wf_sds empty_sds" "sds_val empty_sds = []"
  by (simp_all add: empty_sds_def wf_sds_def sds_val_def)

lemma dec_digit: "n < 10 \<Longrightarrow> dec n = [digit_char n]"
  by (subst dec.simps) simp


section \<open>Requests\<close>

lemma cat_conv_T [simp]:
  "cat_conv CHR ''T'' (CatSize n # ap) = Some (Ok (show_ulong n, ap))"
  "cat_conv CHR ''i'' (CatInt k # ap) = Some (Ok (show_long (scast k), ap))"
  by (simp_all add: cat_conv_def sdsull2str_show sdsll2str_show)

lemma cat_text_heads:
  "cat_text (c_str (''$%T'' @ crlf)) [CatSize n] = Ok (CHR ''$'' # show_ulong n @ crlf)"
  "cat_text (c_str (''*%i'' @ crlf)) [CatInt k] = Ok (CHR ''*'' # show_long (scast k) @ crlf)"
  by (simp_all add: crlf_def)

lemma sdscatfmt_ok:
  assumes "cat_text (c_str fmt) ap = Ok t" and "wf_sds s" and "\<not> mem_fails m"
  shows "\<exists>s1. sdscatfmt m s fmt ap = Ok s1 \<and> wf_sds s1 \<and> sds_val s1 = sds_val s @ t"
  using sdscatfmt_text [OF assms(2,3), of fmt ap] assms(1) by simp

lemma sdscatlen_ok:
  assumes "wf_sds s" and "\<not> mem_fails m" and "n \<le> length t"
  shows "\<exists>s'. sdscatlen m s t n = Some s' \<and> wf_sds s' \<and> sds_val s' = sds_val s @ take n t"
  using assms sdscatlen_None sdscatlen_spec by (cases "sdscatlen m s t n") blast+

lemma show_ulong_of_nat: "n < 2 ^ 64 \<Longrightarrow> show_ulong (of_nat n) = dec n"
  by (simp add: show_ulong_def unat_of_nat take_bit_nat_eq_self)

lemma show_int_arg: "n < 2 ^ 31 \<Longrightarrow> show_long (scast (of_nat n :: cint)) = dec n"
proof -
  assume n: "n < 2 ^ 31"
  then have "sint (of_nat n :: cint) = int n"
    by (simp add: signed_of_nat signed_take_bit_int_eq_self)
  moreover have "sint (scast (of_nat n :: cint) :: clong) = sint (of_nat n :: cint)"
    using n \<open>sint (of_nat n :: cint) = int n\<close> by (simp add: signed_scast_eq signed_take_bit_int_eq_self)
  ultimately show ?thesis by (simp add: show_long_def show_int_def)
qed

lemma sds_argv_loop_ok:
  assumes "wf_sds cmd" and m: "\<not> mem_fails m"
    and "\<And>j. j \<in> set js \<Longrightarrow> arg_length argv argvlen j \<le> length (argv ! j) \<and> arg_length argv argvlen j < 2 ^ 64"
  shows "\<exists>s. sds_argv_loop m argv argvlen js cmd = Ok s \<and> wf_sds s \<and>
    sds_val s = sds_val cmd @ concat (map (\<lambda>j. resp_bulk (arg_bytes argv argvlen j)) js)"
  using assms(1,3)
proof (induction js arbitrary: cmd)
  case (Cons j js)
  let ?len = "arg_length argv argvlen j"
  have len: "?len \<le> length (argv ! j)" "?len < 2 ^ 64" using Cons.prems(2) by auto
  obtain c1 where c1: "sdscatfmt m cmd (''$%T'' @ crlf) [CatSize (of_nat ?len)] = Ok c1" "wf_sds c1"
      "sds_val c1 = sds_val cmd @ CHR ''$'' # dec ?len @ crlf"
    using sdscatfmt_ok [OF cat_text_heads(1) Cons.prems(1) m] show_ulong_of_nat [OF len(2)] by metis
  obtain c2 where c2: "sdscatlen m c1 (argv ! j) ?len = Some c2" "wf_sds c2" "sds_val c2 = sds_val c1 @ take ?len (argv ! j)"
    using sdscatlen_ok [OF c1(2) m len(1)] by blast
  obtain c3 where c3: "sdscatlen m c2 crlf 2 = Some c3" "wf_sds c3" "sds_val c3 = sds_val c2 @ crlf"
    using sdscatlen_ok [OF c2(2) m, of 2 crlf] by (auto simp: crlf_def)
  have bytes: "arg_bytes argv argvlen j = take ?len (argv ! j)" by (simp add: arg_bytes_def arg_length_def)
  then have "length (arg_bytes argv argvlen j) = ?len" using len by simp
  then have "sds_val c3 = sds_val cmd @ resp_bulk (arg_bytes argv argvlen j)"
    using c1 c2 c3 bytes by (simp add: resp_bulk_def)
  then show ?case using Cons.IH [OF c3(2)] Cons.prems(2) c1(1) c2(1) c3(1) by auto
qed simp

lemma redisFormatSdsCommandArgv_request:
  assumes "argc \<le> length argv" and "\<And>ls. argvlen = Some ls \<Longrightarrow> argc \<le> length ls"
    and "\<And>j. j < argc \<Longrightarrow> arg_length argv argvlen j \<le> length (argv ! j)"
    and "\<And>j. j < argc \<Longrightarrow> length (argv ! j) < 2 ^ 64" and "argc < 2 ^ 31" and "\<not> mem_fails m"
  defines "req \<equiv> resp_request (map (arg_bytes argv argvlen) [0 ..< argc])"
  shows "\<exists>s. redisFormatSdsCommandArgv m argc argv argvlen = Ok (int (length req), Some s) \<and> wf_sds s \<and> sds_val s = req"
proof -
  let ?req = "resp_request (map (arg_bytes argv argvlen) [0 ..< argc])"
  let ?tot = "fold (\<lambda>j t. t + bulklen (arg_length argv argvlen j)) [0 ..< argc] (1 + countDigits argc + 2)"
  have tot: "?tot = length ?req" by (rule argv_total [OF assms(3)])
  obtain e where e: "sdsempty m = Some e" "wf_sds e" "sds_val e = []"
    using sdsempty_None sdsempty_spec assms(6) by (cases "sdsempty m") auto
  obtain c1 where c1: "sdsMakeRoomFor m e ?tot = Some c1" "wf_sds c1" "sds_val c1 = []"
    using sdsMakeRoomFor_None assms(6) sdsMakeRoomFor_spec e by (cases "sdsMakeRoomFor m e ?tot") auto
  obtain c2 where c2: "sdscatfmt m c1 (''*%i'' @ crlf) [CatInt (of_nat argc)] = Ok c2" "wf_sds c2"
      "sds_val c2 = CHR ''*'' # dec argc @ crlf"
    using sdscatfmt_ok [OF cat_text_heads(2) c1(2) assms(6), of "of_nat argc"]
    unfolding c1(3) show_int_arg [OF assms(5)] by auto
  obtain c3 where c3: "sds_argv_loop m argv argvlen [0 ..< argc] c2 = Ok c3" "wf_sds c3" "sds_val c3 = ?req"
  proof -
    have "arg_length argv argvlen j \<le> length (argv ! j) \<and> arg_length argv argvlen j < 2 ^ 64"
      if "j \<in> set [0 ..< argc]" for j using that assms(3,4) [of j] by simp
    from sds_argv_loop_ok [OF c2(2) assms(6) this] obtain c3 where
        "sds_argv_loop m argv argvlen [0 ..< argc] c2 = Ok c3" "wf_sds c3"
        "sds_val c3 = sds_val c2 @ concat (map (\<lambda>j. resp_bulk (arg_bytes argv argvlen j)) [0 ..< argc])"
      by blast
    then show ?thesis using that c2(3) by (simp add: resp_request_def comp_def)
  qed
  have "sdslen c3 = ?tot" using length_sds_val [OF c3(2)] c3(3) tot by (simp add: sdslen_def)
  moreover have "\<not> list_ex (\<lambda>j. length (argv ! j) < arg_length argv argvlen j) [0 ..< argc]"
    using assms(3) by (auto simp: list_ex_iff not_less)
  ultimately have "redisFormatSdsCommandArgv m argc argv argvlen = Ok (int (length ?req), Some c3)"
    using assms(1,2) e(1) c1(1) c2(1) c3(1) tot
    by (simp add: redisFormatSdsCommandArgv_def Let_def not_less split: option.split)
  then show ?thesis using c3 unfolding req_def by blast
qed



end
