(* ===== verification/SdsSplitProperties.thy ===== *)
theory SdsSplitProperties
  imports SdsTextProperties
begin

text \<open>
  Splitting and quoting: \<^verbatim>\<open>sdsjoinsds\<close> inverts \<^verbatim>\<open>sdssplitlen\<close>, whose tokens do not contain the
  separator, and \<^verbatim>\<open>sdssplitargs\<close> inverts \<^verbatim>\<open>sdscatrepr\<close>.
\<close>

section \<open>Splitting and joining\<close>

definition occurs :: "string \<Rightarrow> string \<Rightarrow> bool" where
  "occurs sep v \<longleftrightarrow> (\<exists>k \<le> length v. take (length sep) (drop k v) = sep)"

lemma sdsnewlen_ok:
  assumes "\<not> mem_fails m" and "n \<le> length t"
  shows "\<exists>s. sdsnewlen m (Some t) n = Some s \<and> wf_sds s \<and> sds_val s = take n t"
proof -
  obtain s where s: "sdsnewlen m (Some t) n = Some s"
    using assms(1) sdsnewlen_None_iff [of m "Some t" n] by (cases "sdsnewlen m (Some t) n") (auto simp: mem_fails_def)
  then show ?thesis using sdsnewlen_spec [OF s] assms(2) by auto
qed

lemma not_occurs_slice:
  assumes "\<forall>k. start \<le> k \<and> k + length sep \<le> stop \<longrightarrow> take (length sep) (drop k s) \<noteq> sep"
    and "stop \<le> length s" and "sep \<noteq> []"
  shows "\<not> occurs sep (take (stop - start) (drop start s))"
proof
  assume "occurs sep (take (stop - start) (drop start s))"
  then obtain k where k: "take (length sep) (drop k (take (stop - start) (drop start s))) = sep"
    by (auto simp: occurs_def)
  then have "length sep \<le> length (drop k (take (stop - start) (drop start s)))"
    by (metis length_take min.cobounded1)
  then have len: "length sep \<le> stop - start - k" by simp
  have "0 < length sep" using assms(3) by simp
  then have "start + k + length sep \<le> stop" using len by linarith
  moreover have "take (length sep) (drop (start + k) s) = sep"
    using k len by (simp add: drop_take min_def ac_simps split: if_splits)
  ultimately show False using assms(1) by auto
qed

lemma split_loop_parts:
  assumes "\<not> mem_fails m" and "len \<le> length s" and "0 < seplen" and "seplen \<le> length sep"
    and "start \<le> j" and "j \<le> len"
    and "\<forall>k. start \<le> k \<and> k < j \<longrightarrow> take seplen (drop k s) \<noteq> take seplen sep"
  shows "\<exists>start' ts. split_loop m s len sep seplen j slots start tokens = Some (start', tokens @ ts) \<and> start' \<le> len \<and>
     list_all (\<lambda>t. wf_sds t \<and> \<not> occurs (take seplen sep) (sds_val t)) ts \<and>
     \<not> occurs (take seplen sep) (take (len - start') (drop start' s)) \<and>
     concat (map (\<lambda>t. sds_val t @ take seplen sep) ts) @ take (len - start') (drop start' s) =
       take (len - start) (drop start s)"
  using assms
proof (induction m s len sep seplen j slots start tokens rule: split_loop.induct)
  case (1 m s len sep seplen j slots start tokens)
  let ?sep = "take seplen sep"
  have al: "\<And>n. alloc_ok m n" using "1.prems"(1) by (simp add: mem_fails_def)
  have lsep: "length ?sep = seplen" "?sep \<noteq> []" using "1.prems"(3,4) by auto
  show ?case
  proof (cases "j + seplen \<le> len")
    case False
    have "\<not> occurs ?sep (take (len - start) (drop start s))"
      by (rule not_occurs_slice) (use False "1.prems" lsep in auto)
    then show ?thesis using False "1.prems" by (subst split_loop.simps) auto
  next
    case True
    define slots' where "slots' = (if slots < length tokens + 2 then slots * 2 else slots)"
    have hit: "((seplen = 1 \<and> s ! j = sep ! 0) \<or> take seplen (drop j s) = ?sep) \<longleftrightarrow> take seplen (drop j s) = ?sep"
    proof -
      have "take 1 (drop j s) = take 1 sep" if "seplen = 1" "s ! j = sep ! 0"
      proof -
        have "drop j s = s ! j # drop (Suc j) s" using that(1) True "1.prems"(2) by (simp add: Cons_nth_drop_Suc)
        moreover have "sep = sep ! 0 # tl sep" using that(1) "1.prems"(4) by (cases sep) auto
        ultimately show ?thesis using that(2) by (metis take_Suc_Cons take_0 One_nat_def)
      qed
      then show ?thesis by auto
    qed
    show ?thesis
    proof (cases "take seplen (drop j s) = ?sep")
      case match: True
      have "j - start \<le> length (drop start s)" using "1.prems"(2,6) by (simp add: diff_le_mono)
      then obtain t where t: "sdsnewlen m (Some (drop start s)) (j - start) = Some t" "wf_sds t"
          "sds_val t = take (j - start) (drop start s)"
        using sdsnewlen_ok [OF "1.prems"(1)] by blast
      have "\<not> occurs ?sep (sds_val t)"
        unfolding t(3) by (rule not_occurs_slice) (use True "1.prems" lsep in auto)
      moreover have "\<exists>start' ts. split_loop m s len sep seplen (j + seplen) slots' (j + seplen) (tokens @ [t]) =
            Some (start', (tokens @ [t]) @ ts) \<and> start' \<le> len \<and>
          list_all (\<lambda>t. wf_sds t \<and> \<not> occurs ?sep (sds_val t)) ts \<and>
          \<not> occurs ?sep (take (len - start') (drop start' s)) \<and>
          concat (map (\<lambda>t. sds_val t @ ?sep) ts) @ take (len - start') (drop start' s) =
            take (len - (j + seplen)) (drop (j + seplen) s)"
        by (rule "1.IH"(1) [OF _ refl slots'_def _ _ t(1)]) (use hit match True al "1.prems" in auto)
      then obtain start' ts where "split_loop m s len sep seplen (j + seplen) slots' (j + seplen) (tokens @ [t]) =
            Some (start', (tokens @ [t]) @ ts)" "start' \<le> len"
          "list_all (\<lambda>t. wf_sds t \<and> \<not> occurs ?sep (sds_val t)) ts"
          "\<not> occurs ?sep (take (len - start') (drop start' s))"
          "concat (map (\<lambda>t. sds_val t @ ?sep) ts) @ take (len - start') (drop start' s) =
            take (len - (j + seplen)) (drop (j + seplen) s)"
        by blast
      moreover have "take (len - start) (drop start s) =
          sds_val t @ ?sep @ take (len - (j + seplen)) (drop (j + seplen) s)"
      proof -
        have a: "drop start s = take (j - start) (drop start s) @ drop j s"
          using "1.prems"(5) by (metis append_take_drop_id drop_drop le_add_diff_inverse2)
        have b: "drop j s = ?sep @ drop (j + seplen) s"
          using match by (metis append_take_drop_id drop_drop add.commute)
        have "length (take (j - start) (drop start s)) = j - start" using "1.prems" by simp
        then show ?thesis
          using True lsep "1.prems"(5,6) unfolding t(3) by (subst a, subst b) (simp add: diff_diff_left)
      qed
      moreover have "split_loop m s len sep seplen j slots start tokens =
          split_loop m s len sep seplen (j + seplen) slots' (j + seplen) (tokens @ [t])"
        using t(1) True match al "1.prems"(3) by (subst split_loop.simps) (simp add: Let_def slots'_def)
      ultimately show ?thesis using t(2) by (intro exI [of _ start'] exI [of _ "t # ts"]) simp
    next
      case False
      have "\<forall>k. start \<le> k \<and> k < j + 1 \<longrightarrow> take seplen (drop k s) \<noteq> ?sep"
        using "1.prems"(7) False by (auto simp: less_Suc_eq)
      moreover have "split_loop m s len sep seplen j slots start tokens =
          split_loop m s len sep seplen (j + 1) slots' start tokens"
        using True False hit al "1.prems"(3) by (subst split_loop.simps) (auto simp: Let_def slots'_def)
      ultimately show ?thesis
        using "1.IH"(2) [OF _ refl slots'_def] hit False True al "1.prems" by auto
    qed
  qed
qed

lemma sdscatsds_ok:
  assumes "wf_sds s" and "wf_sds t" and "\<not> mem_fails m"
  shows "\<exists>r. sdscatsds m s t = Some r \<and> wf_sds r \<and> sds_val r = sds_val s @ sds_val t"
proof -
  obtain r where "sdscatsds m s t = Some r"
    using assms(3) sdscatlen_None by (cases "sdscatsds m s t") (auto simp: sdscatsds_def)
  then show ?thesis using sdscatsds_spec assms by blast
qed

text \<open>The text of a join.\<close>

fun join_text :: "string \<Rightarrow> string list \<Rightarrow> string" where
  "join_text sep [] = []"
| "join_text sep [v] = v"
| "join_text sep (v # w # vs) = v @ sep @ join_text sep (w # vs)"

lemma join_text_snoc: "join_text sep (vs @ [v]) = concat (map (\<lambda>u. u @ sep) vs) @ v"
  by (induction sep vs rule: join_text.induct) auto

lemma join_loop_text:
  assumes "wf_sds j" and "list_all wf_sds ts" and "\<not> mem_fails m" and "seplen \<le> length sep"
  shows "\<exists>r. join_loop m (\<lambda>a j. sdscatsds m j a) ts sep seplen j = Ok (Some r) \<and> wf_sds r \<and>
    sds_val r = sds_val j @ join_text (take seplen sep) (map sds_val ts)"
  using assms(1,2)
proof (induction ts arbitrary: j)
  case (Cons a ts)
  obtain j1 where j1: "sdscatsds m j a = Some j1" "wf_sds j1" "sds_val j1 = sds_val j @ sds_val a"
    using sdscatsds_ok [of j a] Cons.prems assms(3) by auto
  show ?case
  proof (cases ts)
    case Nil
    then show ?thesis using j1 by simp
  next
    case (Cons b bs)
    obtain j2 where j2: "sdscatlen m j1 sep seplen = Some j2" "wf_sds j2" "sds_val j2 = sds_val j1 @ take seplen sep"
      using sdscatlen_ok [OF j1(2) assms(3,4)] by blast
    obtain r where "join_loop m (\<lambda>a j. sdscatsds m j a) ts sep seplen j2 = Ok (Some r)" "wf_sds r"
        "sds_val r = sds_val j2 @ join_text (take seplen sep) (map sds_val ts)"
      using Cons.IH [OF j2(2)] Cons.prems(2) by auto
    then show ?thesis using Cons j1 j2 by simp
  qed
qed simp

text \<open>C40.
  Splitting a string at a separator and joining the tokens with the same separator gives the string
  back, and no token contains the separator, for any bytes and any length of the separator.
\<close>

theorem sdssplitlen_join:
  assumes "0 < len" and "nat len \<le> length s" and "0 < seplen" and "nat seplen \<le> length sep" and "\<not> mem_fails m"
  shows "\<exists>ts r. sdssplitlen m s len sep seplen = Some ts \<and>
     list_all (\<lambda>t. \<not> occurs (take (nat seplen) sep) (sds_val t)) ts \<and>
     sdsjoinsds m ts sep (nat seplen) = Ok (Some r) \<and> sds_val r = take (nat len) s"
proof -
  let ?sep = "take (nat seplen) sep"
  obtain start ts where ts: "split_loop m s (nat len) sep (nat seplen) 0 5 0 [] = Some (start, ts)" "start \<le> nat len"
      "list_all (\<lambda>t. wf_sds t \<and> \<not> occurs ?sep (sds_val t)) ts"
      "\<not> occurs ?sep (take (nat len - start) (drop start s))"
      "concat (map (\<lambda>t. sds_val t @ ?sep) ts) @ take (nat len - start) (drop start s) = take (nat len) s"
    using split_loop_parts [OF assms(5,2) _ assms(4), of 0 0 5 "[]"] assms(3) by auto
  have "nat len - start \<le> length (drop start s)" using assms(2) by (simp add: diff_le_mono)
  then obtain t where t: "sdsnewlen m (Some (drop start s)) (nat len - start) = Some t" "wf_sds t"
      "sds_val t = take (nat len - start) (drop start s)"
    using sdsnewlen_ok [OF assms(5)] by blast
  have split: "sdssplitlen m s len sep seplen = Some (ts @ [t])"
    using assms(1,3,5) ts(1) t(1) by (simp add: sdssplitlen_def mem_fails_def)
  obtain e where e: "sdsempty m = Some e" "wf_sds e" "sds_val e = []"
    using sdsempty_None sdsempty_spec assms(5) by (cases "sdsempty m") auto
  obtain r where "join_loop m (\<lambda>a j. sdscatsds m j a) (ts @ [t]) sep (nat seplen) e = Ok (Some r)"
      "sds_val r = join_text ?sep (map sds_val (ts @ [t]))"
    using join_loop_text [OF e(2) _ assms(5,4), of "ts @ [t]"] ts(3) t(2) e(3) by (auto simp: list_all_iff)
  then have "sdsjoinsds m (ts @ [t]) sep (nat seplen) = Ok (Some r)" "sds_val r = take (nat len) s"
    using e(1) ts(5) t(3) join_text_snoc [of ?sep "map sds_val ts" "sds_val t"]
    by (simp_all add: sdsjoinsds_def comp_def)
  moreover have "list_all (\<lambda>t. \<not> occurs ?sep (sds_val t)) (ts @ [t])"
    using ts(3,4) t(3) by (simp add: list_all_iff)
  ultimately show ?thesis using split by blast
qed

theorem sdssplitlen_join_witness:
  "\<exists>ts r. sdssplitlen good_mem ''foo_-_bar_-_'' 12 ''_-_'' 3 = Some ts \<and>
     sdsjoinsds good_mem ts ''_-_'' 3 = Ok (Some r) \<and> sds_val r = ''foo_-_bar_-_''"
  using sdssplitlen_join [of 12 "''foo_-_bar_-_''" 3 "''_-_''" good_mem] by auto

section \<open>Quoting\<close>

definition quote_text :: "string \<Rightarrow> string" where
  "quote_text s = CHR 0x22 # concat (map (\<lambda>c. app_text (repr_char c)) s) @ [CHR 0x22]"

lemma hex_digits:
  assumes "d < 16"
  shows "is_hex_digit (hex_char 97 d)" and "hex_digit_to_int (hex_char 97 d) = d" and "hex_char 97 d \<noteq> NUL"
proof -
  have "byte (hex_char 97 d) = (if d < 10 then 48 + d else 87 + d)"
    using assms by (simp add: hex_char_def byte_digit_char)
  moreover from this have "byte (hex_char 97 d) \<noteq> 0" by simp
  ultimately show "is_hex_digit (hex_char 97 d)" "hex_digit_to_int (hex_char 97 d) = d" "hex_char 97 d \<noteq> NUL"
    using assms by (auto simp: is_hex_digit_def hex_digit_to_int_def)
qed

lemma isprint_not_NUL: "isprint c \<Longrightarrow> c \<noteq> NUL"
  by (auto simp: isprint_def)

text \<open>The text of a byte, and that the reader takes it as that byte.\<close>

lemma repr_text_cases:
  obtains (special) d where "app_text (repr_char c) = [CHR 0x5C, d]" "unescape d = c" "d \<noteq> CHR ''x''" "d \<noteq> NUL"
  | (hex) "app_text (repr_char c) =
      [CHR 0x5C, CHR ''x'', hex_char 97 (byte c div 16), hex_char 97 (byte c mod 16)]"
  | (plain) "app_text (repr_char c) = [c]" "c \<noteq> CHR 0x5C" "c \<noteq> CHR 0x22" "c \<noteq> NUL"
proof (cases "c \<in> {CHR 0x5C, CHR 0x22, LF, CR, CHR 0x09, CHR 0x07, CHR 0x08}")
  case True
  have "\<exists>d. app_text (repr_char c) = [CHR 0x5C, d] \<and> unescape d = c \<and> d \<noteq> CHR ''x'' \<and> d \<noteq> NUL"
    using True by (auto simp: repr_char_def unescape_def)
  then show thesis using special by blast
next
  case False
  show thesis
  proof (cases "isprint c")
    case True
    then have "app_text (repr_char c) = [c]" using False isprint_not_NUL by (simp add: repr_char_def)
    then show thesis using plain False isprint_not_NUL [OF True] by blast
  next
    case no: False
    have "hex_char 97 (byte c div 16) \<noteq> NUL" "hex_char 97 (byte c mod 16) \<noteq> NUL"
      by (rule hex_digits; simp add: less_mult_imp_div_less)+
    then show thesis using hex False no by (simp add: repr_char_def)
  qed
qed

lemma token_step_repr:
  "token_step True insq (app_text (repr_char c) @ p) = TPush c (length (app_text (repr_char c)))"
proof (cases c rule: repr_text_cases)
  case (special d)
  then show ?thesis by (simp add: token_step_def peek_def)
next
  case hex
  have d: "byte c div 16 < 16" "byte c mod 16 < 16" by (simp_all add: less_mult_imp_div_less)
  have "char_of (byte c div 16 * 16 + byte c mod 16) = c" by (simp add: div_mult_mod_eq)
  then show ?thesis using hex hex_digits [OF d(1)] hex_digits [OF d(2)] by (simp add: token_step_def peek_def Let_def numeral_2_eq_2 numeral_3_eq_3)
next
  case plain
  then show ?thesis by (simp add: token_step_def peek_def)
qed

lemma do_append_ok:
  assumes "wf_sds s" and "\<not> mem_fails m" and "\<And>t n. a = AppLen t n \<Longrightarrow> n \<le> length t"
  shows "\<exists>r. do_append m s a = Some r \<and> wf_sds r \<and> sds_val r = sds_val s @ app_text a"
  using assms do_append_None do_append_spec by (cases "do_append m s a") blast+

lemma repr_char_len: "repr_char c = AppLen t n \<Longrightarrow> n \<le> length t"
  by (auto simp: repr_char_def split: if_splits)

lemma repr_loop_text:
  assumes "wf_sds s" and "\<not> mem_fails m"
  shows "\<exists>r. repr_loop m p (Some s) = Ok (Some r) \<and> wf_sds r \<and>
    sds_val r = sds_val s @ concat (map (\<lambda>c. app_text (repr_char c)) p)"
  using assms(1)
proof (induction p arbitrary: s)
  case (Cons c p)
  obtain r where r: "do_append m s (repr_char c) = Some r" "wf_sds r" "sds_val r = sds_val s @ app_text (repr_char c)"
    using do_append_ok [OF Cons.prems assms(2), of "repr_char c"] repr_char_len by blast
  then show ?case using Cons.IH [OF r(2)] by (simp add: cat_or_fault_def)
qed simp

lemma sdscatrepr_text:
  assumes "wf_sds s" and "\<not> mem_fails m" and "len \<le> length p"
  shows "\<exists>r. sdscatrepr m s p len = Ok (Some r) \<and> wf_sds r \<and> sds_val r = sds_val s @ quote_text (take len p)"
proof -
  let ?q = "AppLen [CHR 0x22] 1"
  obtain s1 where s1: "do_append m s ?q = Some s1" "wf_sds s1" "sds_val s1 = sds_val s @ [CHR 0x22]"
    using do_append_ok [OF assms(1,2), of ?q] by auto
  obtain s2 where s2: "repr_loop m (take len p) (Some s1) = Ok (Some s2)" "wf_sds s2"
      "sds_val s2 = sds_val s1 @ concat (map (\<lambda>c. app_text (repr_char c)) (take len p))"
    using repr_loop_text [OF s1(2) assms(2)] by blast
  obtain s3 where s3: "do_append m s2 ?q = Some s3" "wf_sds s3" "sds_val s3 = sds_val s2 @ [CHR 0x22]"
    using do_append_ok [OF s2(2) assms(2), of ?q] by auto
  show ?thesis
    using assms(3) s1 s2 s3 by (simp add: sdscatrepr_def cat_or_fault_def quote_text_def)
qed

lemma token_loop_quote:
  assumes "wf_sds cur" and "\<not> mem_fails m" and "p = [] \<or> isspace (hd p)"
  shows "\<exists>r. token_loop m True False (Some cur) (concat (map (\<lambda>c. app_text (repr_char c)) s) @ CHR 0x22 # p) =
      Ok (Some (Some r, p)) \<and> wf_sds r \<and> sds_val r = sds_val cur @ s"
  using assms(1)
proof (induction s arbitrary: cur)
  case Nil
  have "token_step True False (CHR 0x22 # p) = TDone"
    using assms(3) by (auto simp: token_step_def peek_def Let_def hd_conv_nth)
  then show ?case using Nil by (subst token_loop.simps) simp
next
  case (Cons c s)
  let ?rest = "concat (map (\<lambda>c. app_text (repr_char c)) s) @ CHR 0x22 # p"
  obtain r where r: "do_append m cur (AppLen [c] 1) = Some r" "wf_sds r" "sds_val r = sds_val cur @ [c]"
    using do_append_ok [OF Cons.prems assms(2), of "AppLen [c] 1"] by auto
  have "token_loop m True False (Some cur) (app_text (repr_char c) @ ?rest) = token_loop m True False (Some r) ?rest"
    using token_step_repr [of False c ?rest] r(1)
    by (subst token_loop.simps) (simp add: cat_or_fault_def)
  then show ?case using Cons.IH [OF r(2)] r(3) by simp
qed

lemma quote_no_nul: "NUL \<notin> set (quote_text s)"
proof -
  have "NUL \<notin> set (app_text (repr_char c))" for c
  proof (cases c rule: repr_text_cases)
    case hex
    then show ?thesis using hex_digits(3) [of "byte c div 16"] hex_digits(3) [of "byte c mod 16"]
      by (simp add: less_mult_imp_div_less)
  qed auto
  then show ?thesis by (auto simp: quote_text_def)
qed

lemma args_loop_quotes:
  assumes "\<not> mem_fails m"
  shows "\<exists>ts. args_loop m (concat (map (\<lambda>s. quote_text s @ '' '') ss)) vec = Ok (Some (vec @ map Some ts)) \<and> map sds_val ts = ss"
proof (induction ss arbitrary: vec)
  case Nil
  have "alloc_ok m n" for n using assms by (simp add: mem_fails_def)
  then show ?case by (subst args_loop.simps) simp
next
  case (Cons s ss)
  let ?rest = "'' '' @ concat (map (\<lambda>s. quote_text s @ '' '') ss)"
  let ?body = "concat (map (\<lambda>c. app_text (repr_char c)) s) @ CHR 0x22 # ?rest"
  have al: "alloc_ok m n" for n using assms by (simp add: mem_fails_def)
  obtain e where e: "sdsempty m = Some e" "wf_sds e" "sds_val e = []"
    using sdsempty_None sdsempty_spec assms by (cases "sdsempty m") auto
  obtain r where r: "token_loop m True False (Some e) ?body = Ok (Some (Some r, ?rest))" "sds_val r = s"
    using token_loop_quote [OF e(2) assms, of ?rest s] e(3) by (auto simp: isspace_def)
  have line: "concat (map (\<lambda>s. quote_text s @ '' '') (s # ss)) = CHR 0x22 # ?body"
    by (simp add: quote_text_def)
  have "token_step False False (CHR 0x22 # ?body) = TEnter True False"
    by (simp add: token_step_def peek_def)
  then have "token_loop m False False (Some e) (CHR 0x22 # ?body) = Ok (Some (Some r, ?rest))"
    using r(1) by (subst token_loop.simps) simp
  moreover have "dropWhile isspace (CHR 0x22 # ?body) = CHR 0x22 # ?body" by (simp add: isspace_def)
  ultimately have "args_loop m (CHR 0x22 # ?body) vec = args_loop m ?rest (vec @ [Some r])"
    using e(1) al by (subst args_loop.simps) (simp del: append_Cons append_assoc)
  also have "\<dots> = args_loop m (concat (map (\<lambda>s. quote_text s @ '' '') ss)) (vec @ [Some r])"
    by (subst (1 2) args_loop.simps) (simp add: isspace_def)
  finally have step: "args_loop m (concat (map (\<lambda>s. quote_text s @ '' '') (s # ss))) vec =
      args_loop m (concat (map (\<lambda>s. quote_text s @ '' '') ss)) (vec @ [Some r])"
    unfolding line .
  obtain ts where "args_loop m (concat (map (\<lambda>s. quote_text s @ '' '') ss)) (vec @ [Some r]) =
      Ok (Some ((vec @ [Some r]) @ map Some ts))" "map sds_val ts = ss"
    using Cons.IH by blast
  then show ?case using step r(2) by (intro exI [of _ "r # ts"]) simp
qed

text \<open>Writing a line of quoted arguments with a blank after each.\<close>

fun quote_line :: "cmem \<Rightarrow> string list \<Rightarrow> sdshdr \<Rightarrow> sdshdr option outcome" where
  "quote_line m [] line = Ok (Some line)"
| "quote_line m (s # ss) line =
     obind (sdscatrepr m line s (length s)) (\<lambda>l1.
     obind (cat_or_fault m l1 (AppLen '' '' 1)) (\<lambda>l2.
       case l2 of None \<Rightarrow> Fault NullDeref | Some l3 \<Rightarrow> quote_line m ss l3))"

lemma quote_line_text:
  assumes "wf_sds line" and "\<not> mem_fails m"
  shows "\<exists>r. quote_line m ss line = Ok (Some r) \<and> sds_val r = sds_val line @ concat (map (\<lambda>s. quote_text s @ '' '') ss)"
  using assms(1)
proof (induction ss arbitrary: line)
  case (Cons s ss)
  obtain l1 where l1: "sdscatrepr m line s (length s) = Ok (Some l1)" "wf_sds l1" "sds_val l1 = sds_val line @ quote_text s"
    using sdscatrepr_text [OF Cons.prems assms(2), of "length s" s] by auto
  obtain l2 where l2: "do_append m l1 (AppLen '' '' 1) = Some l2" "wf_sds l2" "sds_val l2 = sds_val l1 @ '' ''"
    using do_append_ok [OF l1(2) assms(2), of "AppLen '' '' 1"] by auto
  then show ?case using Cons.IH [OF l2(2)] l1 by (simp add: cat_or_fault_def)
qed simp

text \<open>C20.
  A line of arguments written with \<^verbatim>\<open>sdscatrepr\<close> is read back by \<^verbatim>\<open>sdssplitargs\<close> as exactly these
  arguments, whatever their bytes: blanks, quotes, backslashes, NUL and bytes above 127 included.
\<close>

theorem sdssplitargs_repr:
  assumes "wf_sds line" and "sds_val line = []" and "\<not> mem_fails m"
  shows "\<exists>r ts. quote_line m ss line = Ok (Some r) \<and>
     sdssplitargs m (sds_val r) = Ok (Some (map Some ts)) \<and> map sds_val ts = ss"
proof -
  obtain r where r: "quote_line m ss line = Ok (Some r)" "sds_val r = concat (map (\<lambda>s. quote_text s @ '' '') ss)"
    using quote_line_text [OF assms(1,3), of ss] assms(2) by auto
  have "no_nul (sds_val r)" using quote_no_nul by (auto simp: r(2) no_nul_def)
  then have "sdssplitargs m (sds_val r) = args_loop m (sds_val r) []" by (simp add: sdssplitargs_def)
  then show ?thesis using args_loop_quotes [OF assms(3), of ss "[]"] r by auto
qed

theorem sdssplitargs_repr_witness:
  "\<exists>r ts. quote_line good_mem [''a b'', [CHR 0x22, NUL, CHR 0xFF], []] empty_sds = Ok (Some r) \<and>
     sdssplitargs good_mem (sds_val r) = Ok (Some (map Some ts)) \<and>
     map sds_val ts = [''a b'', [CHR 0x22, NUL, CHR 0xFF], []]"
  by (rule sdssplitargs_repr) simp_all

end
