(* ===== verification/Context.thy ===== *)
theory Context
  imports Reader SdsText
begin

unbundle bit_operations_syntax

text \<open>
  The blocking and non-blocking client of \<^verbatim>\<open>hiredis.c\<close>: a context holds the output buffer, the reply
  reader and the error of a connection. The operating system is a parameter: \<open>sys_read\<close> and
  \<open>sys_write\<close> transfer bytes on a descriptor or fail with an \<open>errno\<close>, and change a world \<open>'w\<close>. The
  loops of \<^verbatim>\<open>redisGetReply\<close> may wait for ever, so it is a partial function; \<open>None\<close> is a run without
  end. A context starts here from a connected descriptor (\<^verbatim>\<open>redisConnectFd\<close>); connecting sockets is
  the theory Net.
\<close>

section \<open>Contexts and the operating system\<close>

definition REDIS_ERR_IO :: nat where "REDIS_ERR_IO = 1"
definition REDIS_ERR_OTHER :: nat where "REDIS_ERR_OTHER = 2"
definition REDIS_ERR_EOF :: nat where "REDIS_ERR_EOF = 3"

definition REDIS_BLOCK :: cint where "REDIS_BLOCK = 0x1"
definition REDIS_CONNECTED :: cint where "REDIS_CONNECTED = 0x2"
definition REDIS_DISCONNECTING :: cint where "REDIS_DISCONNECTING = 0x4"
definition REDIS_FREEING :: cint where "REDIS_FREEING = 0x8"
definition REDIS_IN_CALLBACK :: cint where "REDIS_IN_CALLBACK = 0x10"
definition REDIS_SUBSCRIBED :: cint where "REDIS_SUBSCRIBED = 0x20"
definition REDIS_MONITORING :: cint where "REDIS_MONITORING = 0x40"
definition REDIS_REUSEADDR :: cint where "REDIS_REUSEADDR = 0x80"

lemmas flag_defs = REDIS_BLOCK_def REDIS_CONNECTED_def REDIS_DISCONNECTING_def REDIS_FREEING_def
  REDIS_IN_CALLBACK_def REDIS_SUBSCRIBED_def REDIS_MONITORING_def REDIS_REUSEADDR_def

record redisContext =
  c_err :: nat
  c_errstr :: string
  c_fd :: int
  c_flags :: cint
  c_obuf :: "sdshdr option"
  c_reader :: "redisReader option"

definition has_flag :: "redisContext \<Rightarrow> cint \<Rightarrow> bool" where
  "has_flag c f \<longleftrightarrow> c_flags c AND f \<noteq> 0"

definition set_flag :: "cint \<Rightarrow> redisContext \<Rightarrow> redisContext" where
  "set_flag f c = c\<lparr>c_flags := c_flags c OR f\<rparr>"

definition clear_flag :: "cint \<Rightarrow> redisContext \<Rightarrow> redisContext" where
  "clear_flag f c = c\<lparr>c_flags := c_flags c AND NOT f\<rparr>"

datatype errno = EAGAIN | EINTR | EINPROGRESS | EHOSTUNREACH | EADDRNOTAVAIL | ETIMEDOUT | Errno nat

datatype read_result = ReadBytes string | ReadError errno
datatype sock_result = SockStatus "errno option" | SockFailed errno
datatype write_result = Wrote nat | WriteError errno

record 'w system =
  sys_read :: "int \<Rightarrow> nat \<Rightarrow> 'w \<Rightarrow> read_result \<times> 'w"
  sys_write :: "int \<Rightarrow> string \<Rightarrow> 'w \<Rightarrow> write_result \<times> 'w"
  sys_close :: "int \<Rightarrow> 'w \<Rightarrow> 'w"
  sys_sockerror :: "int \<Rightarrow> 'w \<Rightarrow> sock_result \<times> 'w"
  sys_strerror :: "errno \<Rightarrow> string"

text \<open>The state a call works on: the context, the heap of reply objects and the world.\<close>

type_synonym 'w conn = "redisContext \<times> rheap \<times> 'w"

section \<open>Errors\<close>

text \<open>
  \<^verbatim>\<open>__redisSetError\<close>: the text is cut to 127 bytes; only an input/output error may come without one,
  and takes the system's message.
\<close>

definition redisSetError :: "redisContext \<Rightarrow> nat \<Rightarrow> string option \<Rightarrow> string \<Rightarrow> redisContext outcome" where
  "redisSetError c type str strerror =
     (case str of
        Some t \<Rightarrow>
          let len = (if length (c_str t) < 127 then length (c_str t) else 127)
          in Ok (c\<lparr>c_err := type, c_errstr := take len (c_str t)\<rparr>)
      | None \<Rightarrow>
          if type \<noteq> REDIS_ERR_IO then Fault AssertFailure
          else Ok (c\<lparr>c_err := type, c_errstr := take 127 (c_str strerror)\<rparr>))"

text \<open>
  \<^verbatim>\<open>net.c\<close>: an error text made from \<^verbatim>\<open>errno\<close> with a prefix, and the status of a socket whose
  connection was started. The \<^verbatim>\<open>errno\<close> that is set is returned with the status.
\<close>

definition redisSetErrorFromErrno :: "'w system \<Rightarrow> redisContext \<Rightarrow> nat \<Rightarrow> string option \<Rightarrow> errno \<Rightarrow> redisContext outcome" where
  "redisSetErrorFromErrno sys c type prefix e =
     (let pre = (case prefix of None \<Rightarrow> [] | Some t \<Rightarrow> take 127 (c_str t @ '': ''))
      in redisSetError c type (Some (pre @ take (127 - length pre) (c_str (sys_strerror sys e)))) [])"

definition redisCheckSocketError ::
    "'w system \<Rightarrow> redisContext \<Rightarrow> 'w \<Rightarrow> (errno option \<times> redisContext \<times> 'w) outcome" where
  "redisCheckSocketError sys c w =
     (case sys_sockerror sys (c_fd c) w of
        (SockFailed e, w1) \<Rightarrow>
          obind (redisSetErrorFromErrno sys c REDIS_ERR_IO (Some ''getsockopt(SO_ERROR)'') e) (\<lambda>c1.
            Ok (Some e, c1, w1))
      | (SockStatus (Some e), w1) \<Rightarrow>
          obind (redisSetErrorFromErrno sys c REDIS_ERR_IO None e) (\<lambda>c1. Ok (Some e, c1, w1))
      | (SockStatus None, w1) \<Rightarrow> Ok (None, c, w1))"

section \<open>Creating and freeing\<close>

definition redisReaderCreate :: "cmem \<Rightarrow> redisReader option" where
  "redisReaderCreate m = redisReaderCreateWithFunctions m"

text \<open>\<^verbatim>\<open>sizeof(redisContext)\<close>\<close>

definition context_bytes :: nat where "context_bytes = 160"

definition redisFree :: "'w system \<Rightarrow> redisContext option \<Rightarrow> rheap \<Rightarrow> 'w \<Rightarrow> (rheap \<times> 'w) outcome" where
  "redisFree sys oc h w =
     (case oc of
        None \<Rightarrow> Ok (h, w)
      | Some c \<Rightarrow>
          let w1 = (if c_fd c > 0 then sys_close sys (c_fd c) w else w)
          in obind (case c_reader c of None \<Rightarrow> Ok h | Some r \<Rightarrow> redisReaderFree defaultFunctions r h)
               (\<lambda>h1. Ok (h1, w1)))"

text \<open>A context whose buffer or reader could not be allocated is freed again; its descriptor is 0.\<close>

definition redisContextInit :: "cmem \<Rightarrow> redisContext option" where
  "redisContextInit m =
     (if \<not> alloc_ok m context_bytes then None
      else
        let c = \<lparr>c_err = 0, c_errstr = [], c_fd = 0, c_flags = 0, c_obuf = sdsempty m,
                 c_reader = redisReaderCreate m\<rparr>
        in if c_obuf c = None \<or> c_reader c = None then None else Some c)"

definition redisConnectFd :: "cmem \<Rightarrow> int \<Rightarrow> redisContext option" where
  "redisConnectFd m fd =
     (case redisContextInit m of
        None \<Rightarrow> None
      | Some c \<Rightarrow> Some (set_flag (REDIS_BLOCK OR REDIS_CONNECTED) (c\<lparr>c_fd := fd\<rparr>)))"

definition redisFreeKeepFd :: "'w system \<Rightarrow> redisContext \<Rightarrow> rheap \<Rightarrow> 'w \<Rightarrow> (int \<times> rheap \<times> 'w) outcome" where
  "redisFreeKeepFd sys c h w =
     obind (redisFree sys (Some (c\<lparr>c_fd := -1\<rparr>)) h w) (\<lambda>(h1, w1). Ok (c_fd c, h1, w1))"

section \<open>Reading and writing\<close>

text \<open>A failed transfer is tried again later when it was interrupted or would block.\<close>

definition try_later :: "redisContext \<Rightarrow> errno \<Rightarrow> bool" where
  "try_later c e \<longleftrightarrow> (e = EAGAIN \<and> \<not> has_flag c REDIS_BLOCK) \<or> e = EINTR"

definition io_error :: "'w system \<Rightarrow> errno \<Rightarrow> 'w conn \<Rightarrow> (bool \<times> 'w conn) outcome" where
  "io_error sys e = (\<lambda>(c, h, w).
     obind (redisSetError c REDIS_ERR_IO None (sys_strerror sys e)) (\<lambda>c1. Ok (False, c1, h, w)))"

definition redisBufferRead :: "cmem \<Rightarrow> 'w system \<Rightarrow> 'w conn \<Rightarrow> (bool \<times> 'w conn) outcome" where
  "redisBufferRead m sys = (\<lambda>(c, h, w).
     if c_err c \<noteq> 0 then Ok (False, c, h, w)
     else
       (case sys_read sys (c_fd c) (1024 * 16) w of
          (ReadError e, w1) \<Rightarrow>
            if try_later c e then Ok (True, c, h, w1) else io_error sys e (c, h, w1)
        | (ReadBytes buf, w1) \<Rightarrow>
            if buf = [] then
              obind (redisSetError c REDIS_ERR_EOF (Some ''Server closed the connection'') []) (\<lambda>c1.
                Ok (False, c1, h, w1))
            else
              (case c_reader c of
                 None \<Rightarrow> Fault NullDeref
               | Some r \<Rightarrow>
                   obind (redisReaderFeed m defaultFunctions r h (Some buf) (length buf)) (\<lambda>(ok, r1, h1).
                     let c1 = c\<lparr>c_reader := Some r1\<rparr>
                     in if \<not> ok then
                          obind (redisSetError c1 (r_err r1) (Some (r_errstr r1)) []) (\<lambda>c2.
                            Ok (False, c2, h1, w1))
                        else Ok (True, c1, h1, w1)))))"

text \<open>The second component is what the call stores in \<^verbatim>\<open>*done\<close>; it is not set on an error.\<close>

definition redisBufferWrite ::
    "cmem \<Rightarrow> 'w system \<Rightarrow> 'w conn \<Rightarrow> (bool \<times> bool option \<times> 'w conn) outcome" where
  "redisBufferWrite m sys = (\<lambda>(c, h, w).
     if c_err c \<noteq> 0 then Ok (False, None, c, h, w)
     else
       (case c_obuf c of
          None \<Rightarrow> Fault NullDeref
        | Some obuf \<Rightarrow>
            obind
              (if sdslen obuf > 0 then
                 (case sys_write sys (c_fd c) (take (sdslen obuf) (sds_buf obuf)) w of
                    (WriteError e, w1) \<Rightarrow>
                      if try_later c e then Ok (True, c, h, w1) else io_error sys e (c, h, w1)
                  | (Wrote nwritten, w1) \<Rightarrow>
                      if nwritten > 0 then
                        if nwritten = sdslen obuf then Ok (True, c\<lparr>c_obuf := sdsempty m\<rparr>, h, w1)
                        else Ok (True, c\<lparr>c_obuf := Some (sdsrange obuf (int nwritten) (-1))\<rparr>, h, w1)
                      else Ok (True, c, h, w1))
               else Ok (True, c, h, w))
              (\<lambda>(ok, c1, h1, w1).
                 if \<not> ok then Ok (False, None, c1, h1, w1)
                 else
                   (case c_obuf c1 of
                      None \<Rightarrow> Fault NullDeref
                    | Some obuf1 \<Rightarrow> Ok (True, Some (sdslen obuf1 = 0), c1, h1, w1)))))"

definition redisGetReplyFromReader :: "'w conn \<Rightarrow> (bool \<times> ptr \<times> 'w conn) outcome" where
  "redisGetReplyFromReader = (\<lambda>(c, h, w).
     case c_reader c of
       None \<Rightarrow> Fault NullDeref
     | Some r \<Rightarrow>
         obind (redisReaderGetReply defaultFunctions r h) (\<lambda>(ok, p, r1, h1).
           let c1 = c\<lparr>c_reader := Some r1\<rparr>
           in if \<not> ok then
                obind (redisSetError c1 (r_err r1) (Some (r_errstr r1)) []) (\<lambda>c2. Ok (False, p, c2, h1, w))
              else Ok (True, p, c1, h1, w)))"

text \<open>\<^verbatim>\<open>do { redisBufferWrite } while (!wdone)\<close>\<close>

partial_function (option) write_until_done ::
    "cmem \<Rightarrow> 'w system \<Rightarrow> 'w conn \<Rightarrow> (bool \<times> 'w conn) outcome option" where
  "write_until_done m sys s =
     (case redisBufferWrite m sys s of
        Fault e \<Rightarrow> Some (Fault e)
      | Ok (ok, wdone, s1) \<Rightarrow>
          if \<not> ok then Some (Ok (False, s1))
          else if wdone = Some True then Some (Ok (True, s1))
          else write_until_done m sys s1)"

text \<open>\<^verbatim>\<open>do { redisBufferRead; redisGetReplyFromReader } while (aux == NULL)\<close>\<close>

partial_function (option) read_until_reply ::
    "cmem \<Rightarrow> 'w system \<Rightarrow> 'w conn \<Rightarrow> (bool \<times> ptr \<times> 'w conn) outcome option" where
  "read_until_reply m sys s =
     (case redisBufferRead m sys s of
        Fault e \<Rightarrow> Some (Fault e)
      | Ok (ok, s1) \<Rightarrow>
          if \<not> ok then Some (Ok (False, None, s1))
          else
            (case redisGetReplyFromReader s1 of
               Fault e \<Rightarrow> Some (Fault e)
             | Ok (ok2, aux, s2) \<Rightarrow>
                 if \<not> ok2 then Some (Ok (False, None, s2))
                 else if aux \<noteq> None then Some (Ok (True, aux, s2))
                 else read_until_reply m sys s2))"

text \<open>The status and the reply; on an error \<^verbatim>\<open>*reply\<close> is not set.\<close>

definition redisGetReply ::
    "cmem \<Rightarrow> 'w system \<Rightarrow> 'w conn \<Rightarrow> (bool \<times> ptr \<times> 'w conn) outcome option" where
  "redisGetReply m sys s =
     (case redisGetReplyFromReader s of
        Fault e \<Rightarrow> Some (Fault e)
      | Ok (ok, aux, s1) \<Rightarrow>
          if \<not> ok then Some (Ok (False, None, s1))
          else if aux = None \<and> has_flag (fst s1) REDIS_BLOCK then
            (case write_until_done m sys s1 of
               None \<Rightarrow> None
             | Some (Fault e) \<Rightarrow> Some (Fault e)
             | Some (Ok (ok2, s2)) \<Rightarrow>
                 if \<not> ok2 then Some (Ok (False, None, s2)) else read_until_reply m sys s2)
          else Some (Ok (True, aux, s1)))"

section \<open>Commands\<close>

definition redisAppendCommand_priv :: "cmem \<Rightarrow> redisContext \<Rightarrow> string \<Rightarrow> nat \<Rightarrow> (bool \<times> redisContext) outcome" where
  "redisAppendCommand_priv m c cmd len =
     (case c_obuf c of
        None \<Rightarrow> Fault NullDeref
      | Some obuf \<Rightarrow>
          (case sdscatlen m obuf cmd len of
             None \<Rightarrow> obind (redisSetError c REDIS_ERR_OOM (Some ''Out of memory'') []) (\<lambda>c1. Ok (False, c1))
           | Some newbuf \<Rightarrow> Ok (True, c\<lparr>c_obuf := Some newbuf\<rparr>)))"

definition redisAppendFormattedCommand :: "cmem \<Rightarrow> redisContext \<Rightarrow> string \<Rightarrow> nat \<Rightarrow> (bool \<times> redisContext) outcome" where
  "redisAppendFormattedCommand m c cmd len =
     obind (redisAppendCommand_priv m c cmd len) (\<lambda>(ok, c1). if \<not> ok then Ok (False, c1) else Ok (True, c1))"

definition redisvAppendCommand :: "cmem \<Rightarrow> redisContext \<Rightarrow> string \<Rightarrow> fmtarg list \<Rightarrow> (bool \<times> redisContext) outcome" where
  "redisvAppendCommand m c format ap =
     obind (redisvFormatCommand m format ap) (\<lambda>(len, cmd).
       if len = -1 then
         obind (redisSetError c REDIS_ERR_OOM (Some ''Out of memory'') []) (\<lambda>c1. Ok (False, c1))
       else if len = -2 then
         obind (redisSetError c REDIS_ERR_OTHER (Some ''Invalid format string'') []) (\<lambda>c1. Ok (False, c1))
       else
         (case cmd of
            None \<Rightarrow> Fault NullDeref
          | Some t \<Rightarrow> redisAppendCommand_priv m c t (nat len)))"

definition redisAppendCommand :: "cmem \<Rightarrow> redisContext \<Rightarrow> string \<Rightarrow> fmtarg list \<Rightarrow> (bool \<times> redisContext) outcome" where
  "redisAppendCommand m c format ap = redisvAppendCommand m c format ap"

definition redisAppendCommandArgv ::
    "cmem \<Rightarrow> redisContext \<Rightarrow> nat \<Rightarrow> string list \<Rightarrow> nat list option \<Rightarrow> (bool \<times> redisContext) outcome" where
  "redisAppendCommandArgv m c argc argv argvlen =
     obind (redisFormatSdsCommandArgv m argc argv argvlen) (\<lambda>(len, cmd).
       if len = -1 then
         obind (redisSetError c REDIS_ERR_OOM (Some ''Out of memory'') []) (\<lambda>c1. Ok (False, c1))
       else
         (case cmd of
            None \<Rightarrow> Fault NullDeref
          | Some t \<Rightarrow> redisAppendCommand_priv m c (sds_buf t) (nat len)))"

text \<open>\<^verbatim>\<open>__redisBlockForReply\<close>\<close>

definition redisBlockForReply ::
    "cmem \<Rightarrow> 'w system \<Rightarrow> 'w conn \<Rightarrow> (ptr \<times> 'w conn) outcome option" where
  "redisBlockForReply m sys s =
     (if has_flag (fst s) REDIS_BLOCK then
        (case redisGetReply m sys s of
           None \<Rightarrow> None
         | Some (Fault e) \<Rightarrow> Some (Fault e)
         | Some (Ok (ok, reply, s1)) \<Rightarrow> Some (Ok (if ok then reply else None, s1)))
      else Some (Ok (None, s)))"

definition redisvCommand ::
    "cmem \<Rightarrow> 'w system \<Rightarrow> string \<Rightarrow> fmtarg list \<Rightarrow> 'w conn \<Rightarrow> (ptr \<times> 'w conn) outcome option" where
  "redisvCommand m sys format ap = (\<lambda>(c, h, w).
     case redisvAppendCommand m c format ap of
       Fault e \<Rightarrow> Some (Fault e)
     | Ok (ok, c1) \<Rightarrow> if \<not> ok then Some (Ok (None, c1, h, w)) else redisBlockForReply m sys (c1, h, w))"

definition redisCommand ::
    "cmem \<Rightarrow> 'w system \<Rightarrow> string \<Rightarrow> fmtarg list \<Rightarrow> 'w conn \<Rightarrow> (ptr \<times> 'w conn) outcome option" where
  "redisCommand m sys format ap s = redisvCommand m sys format ap s"

definition redisCommandArgv ::
    "cmem \<Rightarrow> 'w system \<Rightarrow> nat \<Rightarrow> string list \<Rightarrow> nat list option \<Rightarrow> 'w conn \<Rightarrow> (ptr \<times> 'w conn) outcome option" where
  "redisCommandArgv m sys argc argv argvlen = (\<lambda>(c, h, w).
     case redisAppendCommandArgv m c argc argv argvlen of
       Fault e \<Rightarrow> Some (Fault e)
     | Ok (ok, c1) \<Rightarrow> if \<not> ok then Some (Ok (None, c1, h, w)) else redisBlockForReply m sys (c1, h, w))"

end
