(* ===== verification/Async.thy ===== *)
theory Async
  imports Context Dict
begin

unbundle bit_operations_syntax

text \<open>
  The asynchronous client \<^verbatim>\<open>hiredis/async.c\<close>: queues of callbacks as linked lists in a store, the
  subscriptions in two hash tables, the event library's hooks, and the handlers the event loop calls.
  What a user's callback does is a parameter \<open>user\<close>: it may change the whole state. The calls of hooks
  and of the connect and disconnect callbacks are recorded in a trace. Connecting is the theory Net.
\<close>

section \<open>State\<close>

record redisCallback =
  cb_next :: ptr
  cb_fn :: "nat option"
  cb_privdata :: ptr

record redisCallbackList =
  cb_head :: ptr
  cb_tail :: ptr

datatype event = AddRead | DelRead | AddWrite | DelWrite | Cleanup | Connected bool | Disconnected bool

record 'w redisAsyncContext =
  ac_c :: redisContext
  ac_err :: nat
  ac_errstr :: string
  ac_hook :: "event \<Rightarrow> bool"
  ac_onConnect :: bool
  ac_onDisconnect :: bool
  ac_replies :: redisCallbackList
  ac_invalid :: redisCallbackList
  ac_channels :: "(string, redisCallback) dict"
  ac_patterns :: "(string, redisCallback) dict"
  ac_live :: bool
  ac_heap :: rheap
  ac_store :: "nat \<rightharpoonup> redisCallback"
  ac_next :: nat
  ac_trace :: "event list"
  ac_world :: 'w

type_synonym ('w, 'a) aop = "('w redisAsyncContext, 'a) op"

definition get :: "('s \<Rightarrow> 'a) \<Rightarrow> ('s, 'a) op" where
  "get f = (\<lambda>s. (Ok (f s), s))"

definition modify :: "('s \<Rightarrow> 's) \<Rightarrow> ('s, unit) op" where
  "modify f = (\<lambda>s. (Ok (), f s))"

definition flag :: "cint \<Rightarrow> 'w redisAsyncContext \<Rightarrow> bool" where
  "flag f ac = has_flag (ac_c ac) f"

definition raise_flag :: "cint \<Rightarrow> ('w, unit) aop" where
  "raise_flag f = modify (\<lambda>ac. ac\<lparr>ac_c := set_flag f (ac_c ac)\<rparr>)"

definition lower_flag :: "cint \<Rightarrow> ('w, unit) aop" where
  "lower_flag f = modify (\<lambda>ac. ac\<lparr>ac_c := clear_flag f (ac_c ac)\<rparr>)"

text \<open>\<^verbatim>\<open>_EL_ADD_READ\<close> and its like: the hook is called when it is set.\<close>

definition event_hook :: "event \<Rightarrow> ('w, unit) aop" where
  "event_hook e = modify (\<lambda>ac. if ac_hook ac e then ac\<lparr>ac_trace := ac_trace ac @ [e]\<rparr> else ac)"

section \<open>The dictionaries of subscriptions\<close>

definition callbackHash :: "string \<Rightarrow> cint" where
  "callbackHash key = dictGenHashFunction key (length key)"

definition callbackKeyCompare :: "string \<Rightarrow> string \<Rightarrow> bool" where
  "callbackKeyCompare key1 key2 =
     (let l1 = length key1; l2 = length key2
      in if l1 \<noteq> l2 then False else memcmp key1 key2 l1 = 0)"

text \<open>\<^verbatim>\<open>callbackValDup\<close> copies the callback.\<close>

definition callbackValDup :: "redisCallback \<Rightarrow> redisCallback" where
  "callbackValDup src = src"

definition callbackDict :: "(string, redisCallback) dictType" where
  "callbackDict = \<lparr>hashFunction = callbackHash, keyDup = None, valDup = Some callbackValDup,
     keyCompare = Some callbackKeyCompare, keyDestructor = True, valDestructor = True\<rparr>"

section \<open>Creation and errors\<close>

text \<open>\<^verbatim>\<open>sizeof(redisAsyncContext)\<close>, \<^verbatim>\<open>sizeof(redisCallback)\<close>\<close>

definition async_bytes :: nat where "async_bytes = 320"
definition callback_bytes :: nat where "callback_bytes = 24"

definition redisAsyncInitialize ::
    "cmem \<Rightarrow> redisContext \<Rightarrow> rheap \<Rightarrow> 'w \<Rightarrow> 'w redisAsyncContext option outcome" where
  "redisAsyncInitialize m c h w =
     (if \<not> alloc_ok m async_bytes then Ok None
      else
        obind (dictCreate m callbackDict) (\<lambda>channels.
        obind (dictCreate m callbackDict) (\<lambda>patterns.
          Ok (Some \<lparr>ac_c = clear_flag REDIS_CONNECTED c, ac_err = 0, ac_errstr = [], ac_hook = (\<lambda>e. False),
                ac_onConnect = False, ac_onDisconnect = False,
                ac_replies = \<lparr>cb_head = None, cb_tail = None\<rparr>, ac_invalid = \<lparr>cb_head = None, cb_tail = None\<rparr>,
                ac_channels = channels, ac_patterns = patterns, ac_live = True,
                ac_heap = h, ac_store = Map.empty, ac_next = 0, ac_trace = [], ac_world = w\<rparr>))))"

text \<open>\<^verbatim>\<open>errstr\<close> points to the text of the context.\<close>

definition redisAsyncCopyError :: "('w, unit) aop" where
  "redisAsyncCopyError = modify (\<lambda>ac. ac\<lparr>ac_err := c_err (ac_c ac), ac_errstr := c_errstr (ac_c ac)\<rparr>)"

definition redisAsyncSetConnectCallback :: "('w, bool) aop" where
  "redisAsyncSetConnectCallback =
     bind (get ac_onConnect) (\<lambda>present.
       if \<not> present then
         bind (modify (\<lambda>ac. ac\<lparr>ac_onConnect := True\<rparr>)) (\<lambda>_.
         bind (event_hook AddWrite) (\<lambda>_. ret True))
       else ret False)"

definition redisAsyncSetDisconnectCallback :: "('w, bool) aop" where
  "redisAsyncSetDisconnectCallback =
     bind (get ac_onDisconnect) (\<lambda>present.
       if \<not> present then bind (modify (\<lambda>ac. ac\<lparr>ac_onDisconnect := True\<rparr>)) (\<lambda>_. ret True)
       else ret False)"

section \<open>Callback lists\<close>

text \<open>
  Pushing and shifting on a list, a store of cells and the next free address. The push fails when the
  cell cannot be allocated; the source of a push is never NULL here.
\<close>

type_synonym cbstore = "(nat \<rightharpoonup> redisCallback) \<times> nat"

definition redisPushCallback ::
    "cmem \<Rightarrow> redisCallbackList \<Rightarrow> cbstore \<Rightarrow> redisCallback \<Rightarrow> (nat \<times> redisCallbackList \<times> cbstore) outcome" where
  "redisPushCallback m list = (\<lambda>(store, next) source.
     if \<not> alloc_ok m callback_bytes then Ok (REDIS_ERR_OOM, list, (store, next))
     else
       let cb = next;
           store1 = store(cb \<mapsto> source\<lparr>cb_next := None\<rparr>);
           list1 = (if cb_head list = None then list\<lparr>cb_head := Some cb\<rparr> else list)
       in obind
            (case cb_tail list1 of
               None \<Rightarrow> Ok store1
             | Some t \<Rightarrow>
                 (case store1 t of
                    None \<Rightarrow> Fault NullDeref
                  | Some cell \<Rightarrow> Ok (store1(t \<mapsto> cell\<lparr>cb_next := Some cb\<rparr>))))
            (\<lambda>store2. Ok (0, list1\<lparr>cb_tail := Some cb\<rparr>, (store2, next + 1))))"

definition redisShiftCallback ::
    "redisCallbackList \<Rightarrow> cbstore \<Rightarrow> (redisCallback option \<times> redisCallbackList \<times> cbstore) outcome" where
  "redisShiftCallback list = (\<lambda>(store, next).
     case cb_head list of
       None \<Rightarrow> Ok (None, list, (store, next))
     | Some cb \<Rightarrow>
         (case store cb of
            None \<Rightarrow> Fault NullDeref
          | Some cell \<Rightarrow>
              let list1 = list\<lparr>cb_head := cb_next cell\<rparr>;
                  list2 = (if Some cb = cb_tail list1 then list1\<lparr>cb_tail := None\<rparr> else list1)
              in Ok (Some cell, list2, (store(cb := None), next))))"

text \<open>The two lists of a context.\<close>

datatype which_list = Replies | Invalid

fun get_list :: "which_list \<Rightarrow> 'w redisAsyncContext \<Rightarrow> redisCallbackList" where
  "get_list Replies ac = ac_replies ac"
| "get_list Invalid ac = ac_invalid ac"

fun put_list :: "which_list \<Rightarrow> redisCallbackList \<Rightarrow> 'w redisAsyncContext \<Rightarrow> 'w redisAsyncContext" where
  "put_list Replies l ac = ac\<lparr>ac_replies := l\<rparr>"
| "put_list Invalid l ac = ac\<lparr>ac_invalid := l\<rparr>"

definition push_callback :: "cmem \<Rightarrow> which_list \<Rightarrow> redisCallback \<Rightarrow> ('w, nat) aop" where
  "push_callback m q cb = (\<lambda>ac.
     case redisPushCallback m (get_list q ac) (ac_store ac, ac_next ac) cb of
       Fault e \<Rightarrow> (Fault e, ac)
     | Ok (r, l, (store, next)) \<Rightarrow> (Ok r, (put_list q l ac)\<lparr>ac_store := store, ac_next := next\<rparr>))"

definition shift_callback :: "which_list \<Rightarrow> ('w, redisCallback option) aop" where
  "shift_callback q = (\<lambda>ac.
     case redisShiftCallback (get_list q ac) (ac_store ac, ac_next ac) of
       Fault e \<Rightarrow> (Fault e, ac)
     | Ok (cb, l, (store, next)) \<Rightarrow> (Ok cb, (put_list q l ac)\<lparr>ac_store := store, ac_next := next\<rparr>))"

section \<open>Running callbacks and freeing\<close>

type_synonym 'w user = "nat \<Rightarrow> ptr \<Rightarrow> ptr \<Rightarrow> ('w, unit) aop"

definition redisRunCallback :: "'w user \<Rightarrow> redisCallback \<Rightarrow> ptr \<Rightarrow> ('w, unit) aop" where
  "redisRunCallback user cb reply =
     (case cb_fn cb of
        None \<Rightarrow> ret ()
      | Some f \<Rightarrow>
          bind (raise_flag REDIS_IN_CALLBACK) (\<lambda>_.
          bind (user f reply (cb_privdata cb)) (\<lambda>_.
            lower_flag REDIS_IN_CALLBACK)))"

text \<open>\<^verbatim>\<open>while (__redisShiftCallback(list, &cb) == REDIS_OK) __redisRunCallback(ac, &cb, NULL);\<close>\<close>

partial_function (option) run_pending ::
    "'w user \<Rightarrow> which_list \<Rightarrow> 'w redisAsyncContext \<Rightarrow> (unit outcome \<times> 'w redisAsyncContext) option" where
  "run_pending user q s =
     (case shift_callback q s of
        (Fault e, s1) \<Rightarrow> Some (Fault e, s1)
      | (Ok None, s1) \<Rightarrow> Some (Ok (), s1)
      | (Ok (Some cb), s1) \<Rightarrow>
          (case redisRunCallback user cb None s1 of
             (Fault e, s2) \<Rightarrow> Some (Fault e, s2)
           | (Ok _, s2) \<Rightarrow> run_pending user q s2))"

text \<open>\<^verbatim>\<open>while ((de = dictNext(it)) != NULL) __redisRunCallback(ac, dictGetEntryVal(de), NULL);\<close>\<close>

partial_function (option) run_subscriptions ::
    "'w user \<Rightarrow> ('w redisAsyncContext \<Rightarrow> (string, redisCallback) dict) \<Rightarrow> (string, redisCallback) dictIterator \<Rightarrow>
     'w redisAsyncContext \<Rightarrow> (unit outcome \<times> 'w redisAsyncContext) option" where
  "run_subscriptions user table it s =
     (case dictNext (table s) it of
        (None, it1) \<Rightarrow> Some (Ok (), s)
      | (Some de, it1) \<Rightarrow>
          (case redisRunCallback user (snd de) None s of
             (Fault e, s1) \<Rightarrow> Some (Fault e, s1)
           | (Ok _, s1) \<Rightarrow> run_subscriptions user table it1 s1))"

definition run_table ::
    "cmem \<Rightarrow> 'w user \<Rightarrow> ('w redisAsyncContext \<Rightarrow> (string, redisCallback) dict) \<Rightarrow> ('w redisAsyncContext, unit) pop" where
  "run_table m user table =
     pbind (ended (lift (dictGetIterator m))) (\<lambda>it. run_subscriptions user table it)"

text \<open>\<^verbatim>\<open>__redisAsyncFree\<close>; the context may not be used after it.\<close>

definition redisAsyncFree_priv :: "cmem \<Rightarrow> 'w system \<Rightarrow> 'w user \<Rightarrow> ('w redisAsyncContext, unit) pop" where
  "redisAsyncFree_priv m sys user =
     pbind (ended (get ac_live)) (\<lambda>live.
       if \<not> live then ended (fail NullDeref)
       else
         pbind (run_pending user Replies) (\<lambda>_.
         pbind (run_pending user Invalid) (\<lambda>_.
         pbind (run_table m user ac_channels) (\<lambda>_.
         pbind (ended (modify (\<lambda>ac. ac\<lparr>ac_channels := fst (dictClear (ac_channels ac))\<rparr>))) (\<lambda>_.
         pbind (run_table m user ac_patterns) (\<lambda>_.
         ended (
           bind (modify (\<lambda>ac. ac\<lparr>ac_patterns := fst (dictClear (ac_patterns ac))\<rparr>)) (\<lambda>_.
           bind (event_hook Cleanup) (\<lambda>_.
           bind (modify (\<lambda>ac.
             if ac_onDisconnect ac \<and> flag REDIS_CONNECTED ac then
               ac\<lparr>ac_trace := ac_trace ac @
                    [Disconnected (if flag REDIS_FREEING ac then True else ac_err ac = 0)]\<rparr>
             else ac)) (\<lambda>_. \<lambda>ac.
             case redisFree sys (Some (ac_c ac)) (ac_heap ac) (ac_world ac) of
               Fault e \<Rightarrow> (Fault e, ac)
             | Ok (h1, w1) \<Rightarrow>
                 (Ok (), ac\<lparr>ac_heap := h1, ac_world := w1, ac_live := False\<rparr>)))))))))))"

definition redisAsyncFree :: "cmem \<Rightarrow> 'w system \<Rightarrow> 'w user \<Rightarrow> ('w redisAsyncContext, unit) pop" where
  "redisAsyncFree m sys user =
     pbind (ended (raise_flag REDIS_FREEING)) (\<lambda>_.
     pbind (ended (get (flag REDIS_IN_CALLBACK))) (\<lambda>incb.
       if \<not> incb then redisAsyncFree_priv m sys user else ended (ret ())))"

text \<open>\<^verbatim>\<open>__redisAsyncDisconnect\<close>: its assertion shifts a callback, if there is one.\<close>

definition redisAsyncDisconnect_priv :: "cmem \<Rightarrow> 'w system \<Rightarrow> 'w user \<Rightarrow> ('w redisAsyncContext, unit) pop" where
  "redisAsyncDisconnect_priv m sys user =
     pbind (ended (
       bind redisAsyncCopyError (\<lambda>_.
       bind (get ac_err) (\<lambda>err.
         if err = 0 then
           bind (shift_callback Replies) (\<lambda>cb. if cb = None then ret () else fail AssertFailure)
         else raise_flag REDIS_DISCONNECTING)))) (\<lambda>_.
     redisAsyncFree_priv m sys user)"

definition redisAsyncDisconnect :: "cmem \<Rightarrow> 'w system \<Rightarrow> 'w user \<Rightarrow> ('w redisAsyncContext, unit) pop" where
  "redisAsyncDisconnect m sys user =
     pbind (ended (raise_flag REDIS_DISCONNECTING)) (\<lambda>_.
     pbind (ended (get (\<lambda>ac. \<not> flag REDIS_IN_CALLBACK ac \<and> cb_head (ac_replies ac) = None))) (\<lambda>idle.
       if idle then redisAsyncDisconnect_priv m sys user else ended (ret ())))"

section \<open>Finding the callback of a message\<close>

text \<open>\<^verbatim>\<open>reply->element[i]\<close>\<close>

definition reply_element :: "rheap \<Rightarrow> robj \<Rightarrow> nat \<Rightarrow> robj outcome" where
  "reply_element h ob i =
     (case ob_element ob of
        None \<Rightarrow> Fault NullDeref
      | Some es \<Rightarrow>
          if i \<ge> length es then Fault OutOfBounds
          else (case Option.bind (es ! i) (cells h) of None \<Rightarrow> Fault NullDeref | Some e \<Rightarrow> Ok e))"

definition string_element :: "rheap \<Rightarrow> robj \<Rightarrow> nat \<Rightarrow> string outcome" where
  "string_element h ob i =
     obind (reply_element h ob i) (\<lambda>e.
       if ob_type e \<noteq> REDIS_REPLY_STRING then Fault AssertFailure
       else (case ob_str e of None \<Rightarrow> Fault NullDeref | Some str \<Rightarrow> Ok str))"

definition strcasecmp_eq :: "string \<Rightarrow> string \<Rightarrow> bool" where
  "strcasecmp_eq a b \<longleftrightarrow> map tolower (c_str a) = map tolower (c_str b)"

definition starts_with_p :: "string \<Rightarrow> nat" where
  "starts_with_p t = (if tolower (peek t 0) = CHR ''p'' then 1 else 0)"

text \<open>The result is the new value of \<^verbatim>\<open>*dstcb\<close>.\<close>

definition redisGetSubscribeCallback :: "cmem \<Rightarrow> nat \<Rightarrow> redisCallback \<Rightarrow> ('w, redisCallback) aop" where
  "redisGetSubscribeCallback m reply dstcb = (\<lambda>ac.
     case cells (ac_heap ac) reply of
       None \<Rightarrow> (Fault NullDeref, ac)
     | Some ob \<Rightarrow>
         if ob_type ob \<noteq> REDIS_REPLY_ARRAY then
           bind (shift_callback Invalid) (\<lambda>cb. ret (case cb of None \<Rightarrow> dstcb | Some cb' \<Rightarrow> cb')) ac
         else if unat (ob_elements ob) < 2 then (Fault AssertFailure, ac)
         else
           bind (lift (string_element (ac_heap ac) ob 0)) (\<lambda>stype.
             let pvariant = starts_with_p stype;
                 callbacks = (if pvariant = 1 then ac_patterns ac else ac_channels ac);
                 put = (\<lambda>d ac. if pvariant = 1 then ac\<lparr>ac_patterns := d\<rparr> else ac\<lparr>ac_channels := d\<rparr>)
             in
             bind (lift (string_element (ac_heap ac) ob 1)) (\<lambda>sname.
               if \<not> alloc_ok m (sdshdr_size + length sname + 1) then fail NullDeref
               else
                 bind (lift (dictFind callbacks sname)) (\<lambda>de.
                   case de of
                     None \<Rightarrow> ret dstcb
                   | Some (_, cb) \<Rightarrow>
                       if strcasecmp_eq (drop pvariant stype) ''unsubscribe'' then
                         bind (lift (dictDelete callbacks sname)) (\<lambda>(_, d, _).
                         bind (modify (put d)) (\<lambda>_.
                         bind (lift (reply_element (ac_heap ac) ob 2)) (\<lambda>e.
                           if ob_type e \<noteq> REDIS_REPLY_INTEGER then fail AssertFailure
                           else if ob_integer e = 0 then bind (lower_flag REDIS_SUBSCRIBED) (\<lambda>_. ret cb)
                           else ret cb)))
                       else ret cb))) ac)"

section \<open>Handling replies\<close>

text \<open>\<^verbatim>\<open>redisGetReply\<close> on the parts of the state it works on.\<close>

definition async_get_reply :: "cmem \<Rightarrow> 'w system \<Rightarrow> ('w redisAsyncContext, bool \<times> ptr) pop" where
  "async_get_reply m sys = (\<lambda>ac.
     case redisGetReply m sys (ac_c ac, ac_heap ac, ac_world ac) of
       None \<Rightarrow> None
     | Some (Fault e) \<Rightarrow> Some (Fault e, ac)
     | Some (Ok (ok, reply, (c1, h1, w1))) \<Rightarrow>
         Some (Ok (ok, reply), ac\<lparr>ac_c := c1, ac_heap := h1, ac_world := w1\<rparr>))"

definition free_reply :: "nat \<Rightarrow> ('w, unit) aop" where
  "free_reply p = (\<lambda>ac.
     case freeReplyObject (Some p) (ac_heap ac) of
       Fault e \<Rightarrow> (Fault e, ac)
     | Ok h1 \<Rightarrow> (Ok (), ac\<lparr>ac_heap := h1\<rparr>))"

text \<open>
  One round of \<^verbatim>\<open>redisProcessCallbacks\<close>: \<open>None\<close> when the function returns, the value of \<^verbatim>\<open>cb\<close> when it
  goes on. A failing status leaves the loop and disconnects.
\<close>

definition redisReply_callback :: "cmem \<Rightarrow> nat \<Rightarrow> redisCallback \<Rightarrow> ('w, redisCallback option) aop" where
  "redisReply_callback m p cb =
     bind (shift_callback Replies) (\<lambda>shifted.
       case shifted of
         Some cb1 \<Rightarrow> ret (Some cb1)
       | None \<Rightarrow>
           bind (get (\<lambda>ac. cells (ac_heap ac) p)) (\<lambda>cell.
             case cell of
               None \<Rightarrow> fail NullDeref
             | Some ob \<Rightarrow>
                 if ob_type ob = REDIS_REPLY_ERROR then
                   (case ob_str ob of
                      None \<Rightarrow> fail NullDeref
                    | Some str \<Rightarrow>
                        bind (modify (\<lambda>ac. ac\<lparr>ac_c := (ac_c ac)\<lparr>c_err := REDIS_ERR_OTHER,
                                                c_errstr := take 127 (c_str str)\<rparr>\<rparr>)) (\<lambda>_. ret None))
                 else
                   bind (get (\<lambda>ac. (flag REDIS_SUBSCRIBED ac, flag REDIS_MONITORING ac))) (\<lambda>(sub, mon).
                     if \<not> (sub \<or> mon) then fail AssertFailure
                     else if sub then bind (redisGetSubscribeCallback m p cb) (\<lambda>cb1. ret (Some cb1))
                     else ret (Some cb))))"

definition process_round ::
    "cmem \<Rightarrow> 'w system \<Rightarrow> 'w user \<Rightarrow> redisCallback \<Rightarrow> ('w redisAsyncContext, redisCallback option) pop" where
  "process_round m sys user cb =
     pbind (async_get_reply m sys) (\<lambda>(ok, reply).
       if \<not> ok then pbind (redisAsyncDisconnect_priv m sys user) (\<lambda>_. ended (ret None))
       else
         (case reply of
            None \<Rightarrow>
              pbind (ended (get (\<lambda>ac. (flag REDIS_DISCONNECTING ac \<and> map_option sdslen (c_obuf (ac_c ac)) = Some 0,
                                       flag REDIS_MONITORING ac)))) (\<lambda>(stop, mon).
                if stop then pbind (redisAsyncDisconnect_priv m sys user) (\<lambda>_. ended (ret None))
                else if mon then ended (bind (push_callback m Replies cb) (\<lambda>_. ret None))
                else ended (ret None))
          | Some p \<Rightarrow>
              pbind (ended (redisReply_callback m p cb)) (\<lambda>r.
                case r of
                  None \<Rightarrow> pbind (redisAsyncDisconnect_priv m sys user) (\<lambda>_. ended (ret None))
                | Some cb1 \<Rightarrow>
                    if cb_fn cb1 \<noteq> None then
                      pbind (ended (bind (redisRunCallback user cb1 (Some p)) (\<lambda>_. free_reply p))) (\<lambda>_.
                      pbind (ended (get (flag REDIS_FREEING))) (\<lambda>freeing.
                        if freeing then pbind (redisAsyncFree_priv m sys user) (\<lambda>_. ended (ret None))
                        else ended (ret (Some cb1))))
                    else ended (bind (free_reply p) (\<lambda>_. ret (Some cb1))))))"

partial_function (option) process_loop_async ::
    "cmem \<Rightarrow> 'w system \<Rightarrow> 'w user \<Rightarrow> redisCallback \<Rightarrow> 'w redisAsyncContext \<Rightarrow> (unit outcome \<times> 'w redisAsyncContext) option" where
  "process_loop_async m sys user cb s =
     (case process_round m sys user cb s of
        None \<Rightarrow> None
      | Some (Fault e, s1) \<Rightarrow> Some (Fault e, s1)
      | Some (Ok None, s1) \<Rightarrow> Some (Ok (), s1)
      | Some (Ok (Some cb1), s1) \<Rightarrow> process_loop_async m sys user cb1 s1)"

definition redisProcessCallbacks :: "cmem \<Rightarrow> 'w system \<Rightarrow> 'w user \<Rightarrow> ('w redisAsyncContext, unit) pop" where
  "redisProcessCallbacks m sys user =
     process_loop_async m sys user \<lparr>cb_next = None, cb_fn = None, cb_privdata = None\<rparr>"

section \<open>The handlers of the event loop\<close>

definition redisAsyncHandleConnect :: "cmem \<Rightarrow> 'w system \<Rightarrow> 'w user \<Rightarrow> ('w redisAsyncContext, bool) pop" where
  "redisAsyncHandleConnect m sys user = (\<lambda>ac.
     case redisCheckSocketError sys (ac_c ac) (ac_world ac) of
       Fault e \<Rightarrow> Some (Fault e, ac)
     | Ok (err, c1, w1) \<Rightarrow>
         let ac1 = ac\<lparr>ac_c := c1, ac_world := w1\<rparr>;
             connected = (\<lambda>ok. modify (\<lambda>ac. if ac_onConnect ac then ac\<lparr>ac_trace := ac_trace ac @ [Connected ok]\<rparr> else ac))
         in (case err of
               Some e \<Rightarrow>
                 if e = EINPROGRESS then Some (Ok True, ac1)
                 else
                   pbind (ended (connected False)) (\<lambda>_.
                   pbind (redisAsyncDisconnect_priv m sys user) (\<lambda>_. ended (ret False))) ac1
             | None \<Rightarrow>
                 ended (bind (raise_flag REDIS_CONNECTED) (\<lambda>_. bind (connected True) (\<lambda>_. ret True))) ac1))"

text \<open>Whether the handler goes on: the connection is there, or was just made.\<close>

definition ensure_connected :: "cmem \<Rightarrow> 'w system \<Rightarrow> 'w user \<Rightarrow> ('w redisAsyncContext, bool) pop" where
  "ensure_connected m sys user =
     pbind (ended (get (flag REDIS_CONNECTED))) (\<lambda>con.
       if con then ended (ret True)
       else
         pbind (redisAsyncHandleConnect m sys user) (\<lambda>ok.
           if \<not> ok then ended (ret False) else ended (get (flag REDIS_CONNECTED))))"

definition redisAsyncHandleRead :: "cmem \<Rightarrow> 'w system \<Rightarrow> 'w user \<Rightarrow> ('w redisAsyncContext, unit) pop" where
  "redisAsyncHandleRead m sys user =
     pbind (ensure_connected m sys user) (\<lambda>go.
       if \<not> go then ended (ret ())
       else
         pbind (\<lambda>ac. case redisBufferRead m sys (ac_c ac, ac_heap ac, ac_world ac) of
                       Fault e \<Rightarrow> Some (Fault e, ac)
                     | Ok (ok, (c1, h1, w1)) \<Rightarrow>
                         Some (Ok ok, ac\<lparr>ac_c := c1, ac_heap := h1, ac_world := w1\<rparr>)) (\<lambda>ok.
           if \<not> ok then redisAsyncDisconnect_priv m sys user
           else pbind (ended (event_hook AddRead)) (\<lambda>_. redisProcessCallbacks m sys user)))"

definition redisAsyncHandleWrite :: "cmem \<Rightarrow> 'w system \<Rightarrow> 'w user \<Rightarrow> ('w redisAsyncContext, unit) pop" where
  "redisAsyncHandleWrite m sys user =
     pbind (ensure_connected m sys user) (\<lambda>go.
       if \<not> go then ended (ret ())
       else
         pbind (\<lambda>ac. case redisBufferWrite m sys (ac_c ac, ac_heap ac, ac_world ac) of
                       Fault e \<Rightarrow> Some (Fault e, ac)
                     | Ok (ok, done, (c1, h1, w1)) \<Rightarrow>
                         Some (Ok (ok, done), ac\<lparr>ac_c := c1, ac_heap := h1, ac_world := w1\<rparr>)) (\<lambda>(ok, done).
           if \<not> ok then redisAsyncDisconnect_priv m sys user
           else
             pbind (ended (event_hook (if done = Some True then DelWrite else AddWrite))) (\<lambda>_.
               ended (event_hook AddRead))))"

section \<open>Commands\<close>

text \<open>\<^verbatim>\<open>strchr\<close> from a position of the command's memory.\<close>

definition strchr_at :: "string \<Rightarrow> nat \<Rightarrow> char \<Rightarrow> nat option" where
  "strchr_at mem p c =
     (let t = c_str (drop p mem)
      in if c \<in> set t then Some (p + length (takeWhile (\<lambda>x. x \<noteq> c) t)) else None)"

text \<open>
  \<^verbatim>\<open>nextArgument\<close>: where the argument starts, its length, and where the next one begins; a length is
  read as \<^verbatim>\<open>int\<close> and converted to \<^verbatim>\<open>size_t\<close>. Positions beyond the terminated command are out of bounds.
\<close>

definition nextArgument :: "string \<Rightarrow> nat \<Rightarrow> (nat \<times> nat \<times> nat) option outcome" where
  "nextArgument mem start =
     (if start > length mem then Fault OutOfBounds
      else
        (case (if peek mem start \<noteq> CHR ''$'' then strchr_at mem start CHR ''$'' else Some start) of
           None \<Rightarrow> Ok None
         | Some p \<Rightarrow>
             let len = unat (scast (ucast (strtol (c_str (drop (p + 1) mem))) :: cint) :: clong)
             in (case strchr_at mem p CR of
                   None \<Rightarrow> Fault AssertFailure
                 | Some q \<Rightarrow> Ok (Some (q + 2, len, q + 2 + len + 2)))))"

definition strncasecmp_eq :: "string \<Rightarrow> string \<Rightarrow> nat \<Rightarrow> bool" where
  "strncasecmp_eq a b n \<longleftrightarrow> map tolower (take n (c_str a)) = map tolower (take n (c_str b))"

text \<open>Adding every channel or pattern to the subscriptions.\<close>

definition add_subscription :: "cmem \<Rightarrow> bool \<Rightarrow> redisCallback \<Rightarrow> string \<Rightarrow> ('w, unit) aop" where
  "add_subscription m pvariant cb sname =
     bind (get (if pvariant then ac_patterns else ac_channels)) (\<lambda>d.
     bind (lift (dictReplace m d sname cb)) (\<lambda>(_, d1, _).
       modify (\<lambda>ac. if pvariant then ac\<lparr>ac_patterns := d1\<rparr> else ac\<lparr>ac_channels := d1\<rparr>)))"

partial_function (option) subscribe_loop ::
    "cmem \<Rightarrow> string \<Rightarrow> bool \<Rightarrow> redisCallback \<Rightarrow> nat \<Rightarrow> 'w redisAsyncContext \<Rightarrow> (unit outcome \<times> 'w redisAsyncContext) option" where
  "subscribe_loop m mem pvariant cb p s =
     (case nextArgument mem p of
        Fault e \<Rightarrow> Some (Fault e, s)
      | Ok None \<Rightarrow> Some (Ok (), s)
      | Ok (Some (astr, alen, p1)) \<Rightarrow>
          if astr + alen > length mem then Some (Fault OutOfBounds, s)
          else if \<not> alloc_ok m (sdshdr_size + alen + 1) then Some (Fault NullDeref, s)
          else
            (case add_subscription m pvariant cb (take alen (drop astr mem)) s of
               (Fault e, s1) \<Rightarrow> Some (Fault e, s1)
             | (Ok _, s1) \<Rightarrow> subscribe_loop m mem pvariant cb p1 s1))"

text \<open>\<^verbatim>\<open>__redisAsyncCommand\<close>; the result of appending the command is not looked at.\<close>

definition append_and_schedule :: "cmem \<Rightarrow> string \<Rightarrow> nat \<Rightarrow> ('w, bool) aop" where
  "append_and_schedule m cmd len =
     bind (get ac_c) (\<lambda>c.
     bind (lift (redisAppendCommand_priv m c cmd len)) (\<lambda>(_, c1).
     bind (modify (\<lambda>ac. ac\<lparr>ac_c := c1\<rparr>)) (\<lambda>_.
     bind (event_hook AddWrite) (\<lambda>_. ret True))))"

definition redisAsyncCommand_priv ::
    "cmem \<Rightarrow> nat option \<Rightarrow> ptr \<Rightarrow> string \<Rightarrow> nat \<Rightarrow> ('w redisAsyncContext, bool) pop" where
  "redisAsyncCommand_priv m fn privdata cmd len =
     pbind (ended (get (\<lambda>ac. flag (REDIS_DISCONNECTING OR REDIS_FREEING) ac))) (\<lambda>closing.
       if closing then ended (ret False)
       else
         let cb = \<lparr>cb_next = None, cb_fn = fn, cb_privdata = privdata\<rparr> in
         pbind (ended (lift (nextArgument cmd 0))) (\<lambda>arg.
           case arg of
             None \<Rightarrow> ended (fail AssertFailure)
           | Some (cstr0, clen, p) \<Rightarrow>
               if p > length cmd \<or> cstr0 > length cmd then ended (fail OutOfBounds)
               else
                 let hasnext = (peek cmd p = CHR ''$'');
                     pvariant = starts_with_p (drop cstr0 cmd);
                     cstr = drop (cstr0 + pvariant) cmd
                 in
                 pbind (ended (get (flag REDIS_SUBSCRIBED))) (\<lambda>subscribed.
                   if hasnext \<and> strncasecmp_eq cstr (''subscribe'' @ crlf) 11 then
                     pbind (ended (raise_flag REDIS_SUBSCRIBED)) (\<lambda>_.
                     pbind (subscribe_loop m cmd (pvariant = 1) cb p) (\<lambda>_.
                       ended (append_and_schedule m cmd len)))
                   else if strncasecmp_eq cstr (''unsubscribe'' @ crlf) 13 then
                     if \<not> subscribed then ended (ret False) else ended (append_and_schedule m cmd len)
                   else if strncasecmp_eq cstr (''monitor'' @ crlf) 9 then
                     ended (bind (raise_flag REDIS_MONITORING) (\<lambda>_.
                            bind (push_callback m Replies cb) (\<lambda>_. append_and_schedule m cmd len)))
                   else
                     ended (bind (push_callback m (if subscribed then Invalid else Replies) cb) (\<lambda>_.
                            append_and_schedule m cmd len)))))"

definition redisvAsyncCommand ::
    "cmem \<Rightarrow> nat option \<Rightarrow> ptr \<Rightarrow> string \<Rightarrow> fmtarg list \<Rightarrow> ('w redisAsyncContext, bool) pop" where
  "redisvAsyncCommand m fn privdata format ap =
     pbind (ended (lift (redisvFormatCommand m format ap))) (\<lambda>(len, cmd).
       if len < 0 then ended (ret False)
       else
         (case cmd of
            None \<Rightarrow> ended (fail NullDeref)
          | Some t \<Rightarrow> redisAsyncCommand_priv m fn privdata t (nat len)))"

definition redisAsyncCommand ::
    "cmem \<Rightarrow> nat option \<Rightarrow> ptr \<Rightarrow> string \<Rightarrow> fmtarg list \<Rightarrow> ('w redisAsyncContext, bool) pop" where
  "redisAsyncCommand m fn privdata format ap = redisvAsyncCommand m fn privdata format ap"

text \<open>The result of the formatter is not tested: a failure leaves \<^verbatim>\<open>cmd\<close> without a value.\<close>

definition redisAsyncCommandArgv ::
    "cmem \<Rightarrow> nat option \<Rightarrow> ptr \<Rightarrow> nat \<Rightarrow> string list \<Rightarrow> nat list option \<Rightarrow> ('w redisAsyncContext, bool) pop" where
  "redisAsyncCommandArgv m fn privdata argc argv argvlen =
     pbind (ended (lift (redisFormatSdsCommandArgv m argc argv argvlen))) (\<lambda>(len, cmd).
       case cmd of
         None \<Rightarrow> ended (fail NullDeref)
       | Some t \<Rightarrow> redisAsyncCommand_priv m fn privdata (sds_val t) (nat len))"

definition redisAsyncFormattedCommand ::
    "cmem \<Rightarrow> nat option \<Rightarrow> ptr \<Rightarrow> string \<Rightarrow> nat \<Rightarrow> ('w redisAsyncContext, bool) pop" where
  "redisAsyncFormattedCommand m fn privdata cmd len = redisAsyncCommand_priv m fn privdata cmd len"

end
