(* ===== verification/AsyncSpec.thy ===== *)
theory AsyncSpec
  imports Async DictProperties
begin

text \<open>
  The callback lists are queues: the linked cells in the store hold a sequence, pushing appends to it,
  shifting takes its first element, and the two lists of a context do not disturb each other. The
  interface \<open>fifo\<close> states this; a context's lists are instances of it.
\<close>

lemma wp_step: "m s = (Ok x, s') \<Longrightarrow> wp m Q s = Q x s'"
  by (simp add: wp_def)

section \<open>Interface\<close>

locale fifo =
  fixes push :: "'a \<Rightarrow> ('s, nat) op"
    and shift :: "('s, 'a option) op"
    and ok :: "'s \<Rightarrow> bool"
    and items :: "'s \<Rightarrow> 'b list"
    and key :: "'a \<Rightarrow> 'b"
  assumes push: "ok s \<Longrightarrow> \<exists>s'. push x s = (Ok 0, s') \<and> ok s' \<and> items s' = items s @ [key x]"
    and shift_empty: "ok s \<Longrightarrow> items s = [] \<Longrightarrow> shift s = (Ok None, s)"
    and shift: "ok s \<Longrightarrow> items s = y # ys \<Longrightarrow>
      \<exists>x s'. shift s = (Ok (Some x), s') \<and> key x = y \<and> ok s' \<and> items s' = ys"
begin

fun push_all :: "'a list \<Rightarrow> ('s, unit) op" where
  "push_all [] = ret ()"
| "push_all (x # xs) = bind (push x) (\<lambda>_. push_all xs)"

fun shift_n :: "nat \<Rightarrow> ('s, 'a list) op" where
  "shift_n 0 = ret []"
| "shift_n (Suc n) =
     bind shift (\<lambda>x. case x of None \<Rightarrow> ret [] | Some y \<Rightarrow> bind (shift_n n) (\<lambda>ys. ret (y # ys)))"

lemma push_all_items:
  "ok s \<Longrightarrow> wp (push_all xs) (\<lambda>_ s'. ok s' \<and> items s' = items s @ map key xs) s"
proof (induction xs arbitrary: s)
  case (Cons x xs)
  obtain s' where s': "push x s = (Ok 0, s')" "ok s'" "items s' = items s @ [key x]" using push Cons.prems by blast
  then show ?case
    unfolding push_all.simps wp_bind wp_step [where m = "push x" and s = s, OF s'(1)] using Cons.IH [OF s'(2)] by simp
qed simp

lemma shift_n_items:
  "ok s \<Longrightarrow> wp (shift_n n) (\<lambda>ys s'. ok s' \<and> map key ys = take n (items s) \<and> items s' = drop n (items s)) s"
proof (induction n arbitrary: s)
  case (Suc n)
  show ?case
  proof (cases "items s")
    case Nil
    have "shift s = (Ok None, s)" using shift_empty [OF Suc.prems Nil] .
    then show ?thesis
      unfolding shift_n.simps wp_bind wp_step [where m = shift and s = s, OF \<open>shift s = (Ok None, s)\<close>]
      using Suc.prems Nil by simp
  next
    case (Cons y ys)
    obtain x s' where s': "shift s = (Ok (Some x), s')" "key x = y" "ok s'" "items s' = ys"
      using shift [OF Suc.prems Cons] by blast
    have "wp (bind (shift_n n) (\<lambda>zs. ret (x # zs)))
        (\<lambda>ys s'. ok s' \<and> map key ys = take (Suc n) (items s) \<and> items s' = drop (Suc n) (items s)) s'"
      unfolding wp_bind wp_ret by (rule wp_mono [OF Suc.IH [OF s'(3)]]) (use s' Cons in auto)
    then show ?thesis unfolding shift_n.simps wp_bind wp_step [where m = shift and s = s, OF s'(1)] by simp
  qed
qed simp

lemma first_in_first_out:
  assumes "ok s" and "items s = []"
  shows "wp (bind (push_all xs) (\<lambda>_. shift_n (length xs)))
    (\<lambda>ys s'. ok s' \<and> map key ys = map key xs \<and> items s' = []) s"
  unfolding wp_bind
  by (rule wp_mono [OF push_all_items [OF assms(1)]], rule wp_mono [OF shift_n_items]) (use assms in auto)

end

section \<open>Linked cells\<close>

fun chain :: "(nat \<rightharpoonup> redisCallback) \<Rightarrow> ptr \<Rightarrow> nat list \<Rightarrow> bool" where
  "chain st p [] \<longleftrightarrow> p = None"
| "chain st p (a # as) \<longleftrightarrow> p = Some a \<and> (case st a of None \<Rightarrow> False | Some c \<Rightarrow> chain st (cb_next c) as)"

definition content :: "redisCallback \<Rightarrow> nat option \<times> ptr" where
  "content c = (cb_fn c, cb_privdata c)"

definition cells_of :: "(nat \<rightharpoonup> redisCallback) \<Rightarrow> redisCallbackList \<Rightarrow> nat list \<Rightarrow> bool" where
  "cells_of st l as \<longleftrightarrow> chain st (cb_head l) as \<and> cb_tail l = (if as = [] then None else Some (last as)) \<and> distinct as"

lemma chain_frame: "a \<notin> set as \<Longrightarrow> chain (st(a := v)) p as = chain st p as"
  by (induction as arbitrary: p) (auto split: option.splits)

lemma chain_alloc: "chain st p as \<Longrightarrow> a \<in> set as \<Longrightarrow> st a \<noteq> None"
  by (induction as arbitrary: p) (auto split: option.splits)

lemma chain_snoc:
  assumes "chain st p as" and "as \<noteq> []" and "distinct as" and "n \<notin> set as" and "st (last as) = Some c"
    and "st n = Some c'" and "cb_next c' = None"
  shows "chain (st(last as \<mapsto> c\<lparr>cb_next := Some n\<rparr>)) p (as @ [n])"
  using assms
proof (induction as arbitrary: p)
  case (Cons a as)
  show ?case
  proof (cases as)
    case Nil
    then show ?thesis using Cons.prems by auto
  next
    case (Cons b bs)
    then have "a \<noteq> last as" using Cons.prems(3) by auto
    then show ?thesis using Cons Cons.prems Cons.IH by (auto split: option.splits)
  qed
qed simp

lemma push_cells:
  assumes "cells_of st l as" and "\<forall>a \<in> set as. a < n" and "st n = None" and "alloc_ok m callback_bytes"
  shows "\<exists>l' st'. redisPushCallback m l (st, n) cb = Ok (0, l', (st', n + 1)) \<and> cells_of st' l' (as @ [n]) \<and>
     map_option content (st' n) = Some (content cb) \<and>
     (\<forall>a. a \<noteq> n \<longrightarrow> map_option content (st' a) = map_option content (st a)) \<and>
     (\<forall>a. a \<noteq> n \<and> a \<notin> set as \<longrightarrow> st' a = st a)"
proof (cases "as = []")
  case True
  then show ?thesis using assms by (auto simp: redisPushCallback_def Let_def cells_of_def content_def)
next
  case False
  have ch: "chain st (cb_head l) as" "distinct as" "cb_tail l = Some (last as)"
    using assms(1) False by (auto simp: cells_of_def)
  then have hd: "cb_head l \<noteq> None" using False by (cases as) auto
  have nn: "n \<notin> set as" using assms(2) by auto
  have "last as \<in> set as" using False by simp
  then obtain c where c: "st (last as) = Some c" using chain_alloc [OF ch(1)] by blast
  have ln: "last as \<noteq> n" using nn False last_in_set by metis
  let ?cb = "cb\<lparr>cb_next := None\<rparr>"
  let ?st = "(st(n \<mapsto> ?cb))(last as \<mapsto> c\<lparr>cb_next := Some n\<rparr>)"
  have "chain ?st (cb_head l) (as @ [n])"
    using ch nn c ln by (intro chain_snoc [where c' = ?cb]) (auto simp: chain_frame False)
  moreover have "redisPushCallback m l (st, n) cb = Ok (0, l\<lparr>cb_tail := Some n\<rparr>, (?st, n + 1))"
    using assms(4) hd ch(3) c ln by (simp add: redisPushCallback_def Let_def)
  ultimately show ?thesis
    using ch(2) nn ln c False by (auto simp: cells_of_def content_def)
qed

lemma shift_cells:
  assumes "cells_of st l (a # as)"
  shows "\<exists>c l'. redisShiftCallback l (st, n) = Ok (Some c, l', (st(a := None), n)) \<and> st a = Some c \<and>
     cells_of (st(a := None)) l' as"
proof -
  obtain c where c: "cb_head l = Some a" "st a = Some c" "chain st (cb_next c) as" "a \<notin> set as" "distinct as"
      "cb_tail l = Some (last (a # as))"
    using assms by (auto simp: cells_of_def split: option.splits)
  have tl: "Some a = cb_tail l \<longleftrightarrow> as = []" using c(4,6) by (cases as) (auto dest: last_in_set)
  have "chain (st(a := None)) (cb_next c) as" using c(3,4) by (simp add: chain_frame)
  then show ?thesis
    using c tl by (cases "as = []") (auto simp: redisShiftCallback_def Let_def cells_of_def)
qed

section \<open>The two lists of a context\<close>

text \<open>The sequence in a list, read by following the pointers.\<close>

fun walk :: "nat \<Rightarrow> (nat \<rightharpoonup> redisCallback) \<Rightarrow> ptr \<Rightarrow> (nat option \<times> ptr) list" where
  "walk (Suc n) st (Some a) = (case st a of None \<Rightarrow> [] | Some c \<Rightarrow> content c # walk n st (cb_next c))"
| "walk _ st _ = []"

definition queue :: "which_list \<Rightarrow> 'w redisAsyncContext \<Rightarrow> (nat option \<times> ptr) list" where
  "queue q ac = walk (ac_next ac) (ac_store ac) (cb_head (get_list q ac))"

fun other :: "which_list \<Rightarrow> which_list" where
  "other Replies = Invalid"
| "other Invalid = Replies"

lemma other_other [simp]: "other (other q) = q"
  by (cases q) auto

lemma other_iff: "q' \<noteq> q \<longleftrightarrow> q' = other q"
  by (cases q; cases q') auto

definition lists_at :: "which_list \<Rightarrow> 'w redisAsyncContext \<Rightarrow> nat list \<Rightarrow> nat list \<Rightarrow> bool" where
  "lists_at q ac as bs \<longleftrightarrow>
     cells_of (ac_store ac) (get_list q ac) as \<and> cells_of (ac_store ac) (get_list (other q) ac) bs \<and>
     set as \<inter> set bs = {} \<and> (\<forall>a. ac_store ac a \<noteq> None \<longrightarrow> a < ac_next ac)"

definition queues_ok :: "'w redisAsyncContext \<Rightarrow> bool" where
  "queues_ok ac \<longleftrightarrow> (\<exists>as bs. lists_at Replies ac as bs)"

lemma queues_ok_at: "queues_ok ac \<longleftrightarrow> (\<exists>as bs. lists_at q ac as bs)"
  by (cases q) (auto simp: queues_ok_def lists_at_def)

lemma walk_chain: "chain st p as \<Longrightarrow> length as \<le> n \<Longrightarrow> walk n st p = map (\<lambda>a. content (the (st a))) as"
proof (induction as arbitrary: p n)
  case (Cons a as)
  then show ?case by (cases n) (auto split: option.splits)
next
  case Nil
  then show ?case by (cases n) auto
qed

lemma cells_length:
  assumes "cells_of st l as" and "\<forall>a. st a \<noteq> None \<longrightarrow> a < n"
  shows "length as \<le> n"
proof -
  have "set as \<subseteq> {..<n}" using assms chain_alloc by (fastforce simp: cells_of_def)
  then have "card (set as) \<le> n" using card_mono [of "{..<n}"] by simp
  then show ?thesis using assms(1) distinct_card by (fastforce simp: cells_of_def)
qed

lemma queue_lists:
  assumes "lists_at q ac as bs"
  shows "queue q ac = map (\<lambda>a. content (the (ac_store ac a))) as"
    and "queue (other q) ac = map (\<lambda>a. content (the (ac_store ac a))) bs"
proof -
  have "cells_of (ac_store ac) (get_list q ac) as" "cells_of (ac_store ac) (get_list (other q) ac) bs"
      "\<forall>a. ac_store ac a \<noteq> None \<longrightarrow> a < ac_next ac"
    using assms by (auto simp: lists_at_def)
  then show "queue q ac = map (\<lambda>a. content (the (ac_store ac a))) as"
    "queue (other q) ac = map (\<lambda>a. content (the (ac_store ac a))) bs"
    using cells_length walk_chain by (auto simp: queue_def cells_of_def)
qed

lemma put_list_simps [simp]:
  "get_list q (put_list q l ac) = l" "get_list (other q) (put_list q l ac) = get_list (other q) ac"
  "get_list q (ac\<lparr>ac_store := st\<rparr>) = get_list q ac" "get_list q (ac\<lparr>ac_next := n\<rparr>) = get_list q ac"
  "ac_store (put_list q l ac) = ac_store ac" "ac_next (put_list q l ac) = ac_next ac"
  by (cases q; simp)+

text \<open>A change of the store that leaves the cells of a list alone.\<close>

lemma chain_cong: "(\<And>a. a \<in> set as \<Longrightarrow> st' a = st a) \<Longrightarrow> chain st' p as = chain st p as"
  by (induction as arbitrary: p) (auto split: option.splits)

lemma cells_of_cong:
  "(\<And>a. a \<in> set as \<Longrightarrow> st' a = st a) \<Longrightarrow> cells_of st' l as = cells_of st l as"
  using chain_cong [of as st' st] by (simp add: cells_of_def)

text \<open>Pushing on one list and shifting from it.\<close>

lemma push_callback_queue:
  assumes ok: "queues_ok ac" and mem: "alloc_ok m callback_bytes"
  shows "\<exists>l st. push_callback m q cb ac = (Ok 0, (put_list q l ac)\<lparr>ac_store := st, ac_next := ac_next ac + 1\<rparr>) \<and>
     queues_ok ((put_list q l ac)\<lparr>ac_store := st, ac_next := ac_next ac + 1\<rparr>) \<and>
     queue q ((put_list q l ac)\<lparr>ac_store := st, ac_next := ac_next ac + 1\<rparr>) = queue q ac @ [content cb] \<and>
     queue (other q) ((put_list q l ac)\<lparr>ac_store := st, ac_next := ac_next ac + 1\<rparr>) = queue (other q) ac"
proof -
  obtain as bs where l: "lists_at q ac as bs" using ok queues_ok_at by blast
  let ?n = "ac_next ac"
  have c: "cells_of (ac_store ac) (get_list q ac) as" "cells_of (ac_store ac) (get_list (other q) ac) bs"
      "set as \<inter> set bs = {}" "\<forall>a. ac_store ac a \<noteq> None \<longrightarrow> a < ?n"
    using l by (auto simp: lists_at_def)
  have alloc: "a < ?n \<and> ac_store ac a \<noteq> None" if "a \<in> set as \<union> set bs" for a
    using that c chain_alloc by (fastforce simp: cells_of_def)
  have fresh: "ac_store ac ?n = None" using c(4) by blast
  obtain l' st where p: "redisPushCallback m (get_list q ac) (ac_store ac, ?n) cb = Ok (0, l', (st, ?n + 1))"
      "cells_of st l' (as @ [?n])" "map_option content (st ?n) = Some (content cb)"
      "\<forall>a. a \<noteq> ?n \<longrightarrow> map_option content (st a) = map_option content (ac_store ac a)"
      "\<forall>a. a \<noteq> ?n \<and> a \<notin> set as \<longrightarrow> st a = ac_store ac a"
    using push_cells [OF c(1) _ fresh mem] alloc by blast
  let ?ac = "(put_list q l' ac)\<lparr>ac_store := st, ac_next := ?n + 1\<rparr>"
  have "st a = ac_store ac a" if "a \<in> set bs" for a
  proof -
    have "a \<noteq> ?n \<and> a \<notin> set as" using alloc [of a] c(3) that by auto
    then show ?thesis using p(5) by blast
  qed
  then have "cells_of st (get_list (other q) ac) bs" using c(2) cells_of_cong by metis
  moreover have bound: "a < ?n + 1" if "st a \<noteq> None" for a
  proof (cases "a = ?n")
    case False
    then have "map_option content (st a) = map_option content (ac_store ac a)" using p(4) by blast
    then have "ac_store ac a \<noteq> None" using that by (cases "ac_store ac a") auto
    then show ?thesis using c(4) less_SucI by auto
  qed simp
  ultimately have at: "lists_at q ?ac (as @ [?n]) bs"
    using p(2) c(3) alloc by (auto simp: lists_at_def dest: bound)
  have same: "content (the (st a)) = content (the (ac_store ac a))" if "a \<in> set as \<union> set bs" for a
  proof -
    have "a \<noteq> ?n" "ac_store ac a \<noteq> None" using alloc [OF that] by auto
    then have "map_option content (st a) = map_option content (ac_store ac a)" using p(4) by blast
    then show ?thesis using \<open>ac_store ac a \<noteq> None\<close> by auto
  qed
  have "queue q ?ac = queue q ac @ [content cb]"
    using queue_lists(1) [OF at] queue_lists(1) [OF l] same p(3) by auto
  moreover have "queue (other q) ?ac = queue (other q) ac"
    using queue_lists(2) [OF at] queue_lists(2) [OF l] same by auto
  moreover have "push_callback m q cb ac = (Ok 0, ?ac)" using p(1) by (simp add: push_callback_def)
  ultimately show ?thesis using at queues_ok_at by blast
qed

lemma shift_callback_empty:
  assumes "queues_ok ac" and "queue q ac = []"
  shows "shift_callback q ac = (Ok None, ac)"
proof -
  obtain as bs where l: "lists_at q ac as bs" using assms(1) queues_ok_at by blast
  then have "as = []" using queue_lists(1) [OF l] assms(2) by simp
  then have "cb_head (get_list q ac) = None" using l by (simp add: lists_at_def cells_of_def)
  moreover have "(put_list q (get_list q ac) ac)\<lparr>ac_store := ac_store ac, ac_next := ac_next ac\<rparr> = ac"
    by (cases q) simp_all
  ultimately show ?thesis by (simp add: shift_callback_def redisShiftCallback_def)
qed

lemma shift_callback_queue:
  assumes ok: "queues_ok ac" and q: "queue q ac = x # xs"
  shows "\<exists>cb l st. shift_callback q ac = (Ok (Some cb), (put_list q l ac)\<lparr>ac_store := st\<rparr>) \<and> content cb = x \<and>
     queues_ok ((put_list q l ac)\<lparr>ac_store := st\<rparr>) \<and> queue q ((put_list q l ac)\<lparr>ac_store := st\<rparr>) = xs \<and>
     queue (other q) ((put_list q l ac)\<lparr>ac_store := st\<rparr>) = queue (other q) ac"
proof -
  obtain as0 bs where l0: "lists_at q ac as0 bs" using ok queues_ok_at by blast
  then obtain a as where as0: "as0 = a # as" using queue_lists(1) [OF l0] q by (cases as0) auto
  note l = l0 [unfolded as0]
  have c: "cells_of (ac_store ac) (get_list q ac) (a # as)" "cells_of (ac_store ac) (get_list (other q) ac) bs"
      "set (a # as) \<inter> set bs = {}" "\<forall>a. ac_store ac a \<noteq> None \<longrightarrow> a < ac_next ac"
    using l by (auto simp: lists_at_def)
  obtain cb l' where s: "redisShiftCallback (get_list q ac) (ac_store ac, ac_next ac) =
        Ok (Some cb, l', ((ac_store ac)(a := None), ac_next ac))" "ac_store ac a = Some cb"
      "cells_of ((ac_store ac)(a := None)) l' as"
    using shift_cells [OF c(1)] by blast
  let ?st = "(ac_store ac)(a := None)"
  let ?ac = "(put_list q l' ac)\<lparr>ac_store := ?st\<rparr>"
  have "a \<notin> set as" using c(1) by (simp add: cells_of_def)
  then have same: "?st b = ac_store ac b" if "b \<in> set as \<union> set bs" for b using that c(3) by auto
  have at: "lists_at q ?ac as bs"
    using s(3) c same by (auto simp: lists_at_def cells_of_cong [where st' = ?st and st = "ac_store ac" and as = bs])
  have "content cb = x" "queue q ?ac = xs" "queue (other q) ?ac = queue (other q) ac"
    using queue_lists [OF at] queue_lists [OF l] q s(2) same by auto
  moreover have "shift_callback q ac = (Ok (Some cb), ?ac)"
    using s(1) by (cases q) (simp_all add: shift_callback_def)
  ultimately show ?thesis using at queues_ok_at by blast
qed

interpretation callbacks: fifo "push_callback m q" "shift_callback q"
    "\<lambda>ac. queues_ok ac \<and> alloc_ok m callback_bytes" "queue q" content for m q
proof unfold_locales
  fix ac :: "'w redisAsyncContext" and cb
  assume ok: "queues_ok ac \<and> alloc_ok m callback_bytes"
  show "\<exists>s'. push_callback m q cb ac = (Ok 0, s') \<and> (queues_ok s' \<and> alloc_ok m callback_bytes) \<and>
      queue q s' = queue q ac @ [content cb]"
    using push_callback_queue [of ac m q cb] ok by blast
  show "shift_callback q ac = (Ok None, ac)" if "queue q ac = []" using shift_callback_empty ok that by blast
  show "\<exists>x s'. shift_callback q ac = (Ok (Some x), s') \<and> content x = y \<and>
      (queues_ok s' \<and> alloc_ok m callback_bytes) \<and> queue q s' = ys" if "queue q ac = y # ys" for y ys
    using shift_callback_queue [of ac q y ys] ok that by blast
qed

end
