(* ===== verification/AsyncRun.thy ===== *)
theory AsyncRun
  imports AsyncSpec ReaderProperties
begin

unbundle bit_operations_syntax

text \<open>
  Running callbacks. A user's callback is code outside this library: \<open>sees user act\<close> states what is
  relied on, that a call reads the reply it is given and changes nothing but the user's own state, by
  \<open>act\<close>. The lemmas follow the loops that run callbacks: over the pending ones, over the subscribed ones,
  and over the replies that arrive.
\<close>

definition sees :: "'w user \<Rightarrow> (nat \<Rightarrow> redisReply option \<Rightarrow> ptr \<Rightarrow> 'w \<Rightarrow> 'w) \<Rightarrow> bool" where
  "sees user act \<longleftrightarrow>
     (\<forall>f priv ac. user f None priv ac = (Ok (), ac\<lparr>ac_world := act f None priv (ac_world ac)\<rparr>)) \<and>
     (\<forall>f p priv r lo hi ac. holds (cells (ac_heap ac)) lo hi p r \<longrightarrow>
        user f (Some p) priv ac = (Ok (), ac\<lparr>ac_world := act f (Some r) priv (ac_world ac)\<rparr>))"

text \<open>The effect of one callback, NULL functions included.\<close>

definition run_one :: "(nat \<Rightarrow> redisReply option \<Rightarrow> ptr \<Rightarrow> 'w \<Rightarrow> 'w) \<Rightarrow> redisReply option \<Rightarrow> nat option \<times> ptr \<Rightarrow> 'w \<Rightarrow> 'w" where
  "run_one act r k w = (case fst k of None \<Rightarrow> w | Some f \<Rightarrow> act f r (snd k) w)"

lemma wp_get [simp]: "wp (get f) Q s = Q (f s) s"
  by (simp add: wp_def get_def)

lemma wp_modify [simp]: "wp (modify f) Q s = Q () (f s)"
  by (simp add: wp_def modify_def)

lemma wp_event_hook [simp]:
  "wp (event_hook e) Q s = Q () (s\<lparr>ac_trace := ac_trace s @ (if ac_hook s e then [e] else [])\<rparr>)"
  by (simp add: event_hook_def)

section \<open>What running leaves alone\<close>

lemma queue_frame [simp]:
  "queue q (ac\<lparr>ac_c := c\<rparr>) = queue q ac" "queue q (ac\<lparr>ac_world := w\<rparr>) = queue q ac"
  "queue q (ac\<lparr>ac_heap := h\<rparr>) = queue q ac" "queue q (ac\<lparr>ac_trace := t\<rparr>) = queue q ac"
  "queue q (ac\<lparr>ac_channels := d\<rparr>) = queue q ac" "queue q (ac\<lparr>ac_patterns := d\<rparr>) = queue q ac"
  by (cases q; simp add: queue_def)+

lemma queues_ok_frame [simp]:
  "queues_ok (ac\<lparr>ac_c := c\<rparr>) = queues_ok ac" "queues_ok (ac\<lparr>ac_world := w\<rparr>) = queues_ok ac"
  "queues_ok (ac\<lparr>ac_heap := h\<rparr>) = queues_ok ac" "queues_ok (ac\<lparr>ac_trace := t\<rparr>) = queues_ok ac"
  "queues_ok (ac\<lparr>ac_channels := d\<rparr>) = queues_ok ac" "queues_ok (ac\<lparr>ac_patterns := d\<rparr>) = queues_ok ac"
  by (simp_all add: queues_ok_def lists_at_def)

text \<open>The parts no callback touches; the flag of a running callback is set and cleared again.\<close>

definition same_setup :: "'w redisAsyncContext \<Rightarrow> 'w redisAsyncContext \<Rightarrow> bool" where
  "same_setup ac ac' \<longleftrightarrow>
     (ac_c ac' = ac_c ac \<or> ac_c ac' = clear_flag REDIS_IN_CALLBACK (ac_c ac)) \<and>
     ac_err ac' = ac_err ac \<and> ac_hook ac' = ac_hook ac \<and> ac_onConnect ac' = ac_onConnect ac \<and>
     ac_onDisconnect ac' = ac_onDisconnect ac \<and> ac_channels ac' = ac_channels ac \<and>
     ac_patterns ac' = ac_patterns ac \<and> ac_live ac' = ac_live ac \<and> ac_heap ac' = ac_heap ac \<and>
     ac_trace ac' = ac_trace ac"

lemma clear_flag_idem [simp]: "clear_flag f (clear_flag f c) = clear_flag f c"
  by (simp add: clear_flag_def ac_simps)

lemma clear_set_flag [simp]: "clear_flag f (set_flag f c) = clear_flag f c"
  by (simp add: clear_flag_def set_flag_def bit.conj_disj_distrib2)

lemma same_setup_refl [simp]: "same_setup ac ac"
  by (simp add: same_setup_def)

lemma same_setup_trans: "same_setup a b \<Longrightarrow> same_setup b c \<Longrightarrow> same_setup a c"
  by (auto simp: same_setup_def)

lemma same_setup_lists [simp]:
  "same_setup ac ((put_list q l ac)\<lparr>ac_store := st\<rparr>)"
  by (cases q) (simp_all add: same_setup_def)

section \<open>One callback\<close>

definition after_call :: "(nat \<Rightarrow> redisReply option \<Rightarrow> ptr \<Rightarrow> 'w \<Rightarrow> 'w) \<Rightarrow> redisReply option \<Rightarrow> redisCallback \<Rightarrow>
    'w redisAsyncContext \<Rightarrow> 'w redisAsyncContext" where
  "after_call act r cb ac =
     (if cb_fn cb = None then ac
      else ac\<lparr>ac_c := clear_flag REDIS_IN_CALLBACK (ac_c ac), ac_world := run_one act r (content cb) (ac_world ac)\<rparr>)"

lemma redisRunCallback_null:
  assumes "sees user act"
  shows "redisRunCallback user cb None ac = (Ok (), after_call act None cb ac)"
  using assms
  by (auto simp: redisRunCallback_def sees_def raise_flag_def lower_flag_def modify_def bind_def ret_def
      after_call_def run_one_def content_def split: option.split)

lemma redisRunCallback_reply:
  assumes "sees user act" and "holds (cells (ac_heap ac)) lo hi p r"
  shows "redisRunCallback user cb (Some p) ac = (Ok (), after_call act (Some r) cb ac)"
proof (cases "cb_fn cb")
  case (Some f)
  have "user f (Some p) priv (ac\<lparr>ac_c := c\<rparr>) =
      (Ok (), ac\<lparr>ac_c := c, ac_world := act f (Some r) priv (ac_world ac)\<rparr>)" for priv c
    using assms by (simp add: sees_def)
  then show ?thesis
    using Some by (simp add: redisRunCallback_def raise_flag_def lower_flag_def modify_def bind_def
        after_call_def run_one_def content_def)
qed (simp add: redisRunCallback_def after_call_def ret_def)

lemma after_call_simps [simp]:
  "queue q (after_call act r cb ac) = queue q ac" "queues_ok (after_call act r cb ac) = queues_ok ac"
  "ac_world (after_call act r cb ac) = run_one act r (content cb) (ac_world ac)"
  "ac_heap (after_call act r cb ac) = ac_heap ac" "same_setup ac (after_call act r cb ac)"
  by (simp_all add: after_call_def run_one_def content_def same_setup_def)

section \<open>The pending callbacks\<close>

lemma run_pending_all:
  assumes u: "sees user act"
  shows "queues_ok ac \<Longrightarrow> queue q ac = ks \<Longrightarrow>
    pwp (run_pending user q) (\<lambda>_ ac'. queues_ok ac' \<and> queue q ac' = [] \<and> queue (other q) ac' = queue (other q) ac \<and>
      ac_world ac' = fold (run_one act None) ks (ac_world ac) \<and> same_setup ac ac') ac"
proof (induction ks arbitrary: ac)
  case Nil
  then show ?case
    using shift_callback_empty [of ac q] by (simp add: pwp_def run_pending.simps)
next
  case (Cons k ks)
  obtain cb l st where s: "shift_callback q ac = (Ok (Some cb), (put_list q l ac)\<lparr>ac_store := st\<rparr>)" "content cb = k"
      "queues_ok ((put_list q l ac)\<lparr>ac_store := st\<rparr>)" "queue q ((put_list q l ac)\<lparr>ac_store := st\<rparr>) = ks"
      "queue (other q) ((put_list q l ac)\<lparr>ac_store := st\<rparr>) = queue (other q) ac"
    using shift_callback_queue [OF Cons.prems] by blast
  let ?s = "(put_list q l ac)\<lparr>ac_store := st\<rparr>"
  let ?t = "after_call act None cb ?s"
  have same: "same_setup ac ?t" using same_setup_lists after_call_simps(5) same_setup_trans by metis
  have w: "ac_world ?s = ac_world ac" by (cases q) simp_all
  have "run_pending user q ac = run_pending user q ?t"
    using s(1) redisRunCallback_null [OF u, of cb ?s] by (subst run_pending.simps) simp
  then have "pwp (run_pending user q) Q ac = pwp (run_pending user q) Q ?t" for Q by (simp add: pwp_def)
  then show ?case
    using s w by (auto intro!: pwp_mono [OF Cons.IH [of ?t]] dest: same_setup_trans [OF same])
qed

section \<open>The subscriptions\<close>

lemma run_subscriptions_all:
  assumes u: "sees user act" and table: "\<And>a b. same_setup a b \<Longrightarrow> table b = table a"
  shows "dict_ok (table ac) \<Longrightarrow> it_ok (table ac) it \<Longrightarrow> it_rest (table ac) it = es \<Longrightarrow>
    pwp (run_subscriptions user table it) (\<lambda>_ ac'. (queues_ok ac' = queues_ok ac) \<and> (\<forall>q. queue q ac' = queue q ac) \<and>
      ac_world ac' = fold (\<lambda>e. run_one act None (content (snd e))) es (ac_world ac) \<and> same_setup ac ac') ac"
proof (induction es arbitrary: ac it)
  case Nil
  then show ?case using next_end [of "table ac" it] by (auto simp: pwp_def run_subscriptions.simps)
next
  case (Cons e es)
  obtain it' where it': "dictNext (table ac) it = (Some e, it')" "it_ok (table ac) it'" "it_rest (table ac) it' = es"
    using next_step [OF Cons.prems] by blast
  let ?t = "after_call act None (snd e) ac"
  have t: "table ?t = table ac" by (rule table) simp
  have "run_subscriptions user table it ac = run_subscriptions user table it' ?t"
    using it'(1) redisRunCallback_null [OF u, of "snd e" ac] by (subst run_subscriptions.simps) simp
  then have "pwp (run_subscriptions user table it) Q ac = pwp (run_subscriptions user table it') Q ?t" for Q
    by (simp add: pwp_def)
  then show ?case
    using it' Cons.prems(1) t
    by (auto intro!: pwp_mono [OF Cons.IH [of ?t it']] dest: same_setup_trans [OF after_call_simps(5)])
qed

lemma run_table_all:
  assumes "sees user act" and "\<And>a b. same_setup a b \<Longrightarrow> table b = table a" and "dict_ok (table ac)" and "ample m"
  shows "pwp (run_table m user table) (\<lambda>_ ac'. (queues_ok ac' = queues_ok ac) \<and> (\<forall>q. queue q ac' = queue q ac) \<and>
      ac_world ac' = fold (\<lambda>e. run_one act None (content (snd e))) (concat (d_table (table ac))) (ac_world ac) \<and>
      same_setup ac ac') ac"
proof -
  obtain it where it: "dictGetIterator m = Ok it" "it_ok (table ac) it" "it_rest (table ac) it = concat (d_table (table ac))"
    using assms(4) by (simp add: dictGetIterator_def ample_def it_ok_def it_rest_def)
  then show ?thesis
    using run_subscriptions_all [where user = user and act = act and table = table and ac = ac and it = it, OF assms(1-3) it(2,3)] by (simp add: run_table_def lift_def wp_def)
qed

end
