(* ===== verification/AsyncCommands.thy ===== *)
theory AsyncCommands
  imports AsyncRun
begin

unbundle bit_operations_syntax

text \<open>
  Issuing commands: how \<^verbatim>\<open>nextArgument\<close> walks over a request, how the command's name is recognised, and
  what a command leaves in the queues, the subscriptions and the output buffer.
\<close>

section \<open>Walking over a request\<close>

lemma c_str_Cons [simp]: "c_str (c # s) = (if c = NUL then [] else c # c_str s)"
  by (simp add: c_str_def)

lemma c_str_append: "no_nul s \<Longrightarrow> c_str (s @ t) = s @ c_str t"
  by (induction s) auto

lemma not_special_dec: "c \<in> set (dec n) \<Longrightarrow> c \<noteq> CR \<and> c \<noteq> CHR ''$''"
  using dec_isdigit [of c n] by (auto simp: isdigit_def)

text \<open>The length of an argument as \<^verbatim>\<open>nextArgument\<close> computes it.\<close>

lemma argument_length:
  assumes "n < 2 ^ 31"
  shows "unat (scast (ucast (strtol (dec n @ CR # t)) :: cint) :: clong) = n"
proof -
  have "takeWhile isdigit (dec n @ CR # t) = dec n"
    using not_isdigit_sign(3) by (subst takeWhile_append2) (auto simp: dec_isdigit)
  then have "strtol (dec n @ CR # t) = of_nat n"
    using assms by (simp add: strtol_dec_gen min_def)
  moreover have "(ucast (of_nat n :: clong) :: cint) = of_nat n"
    using assms by (simp add: unsigned_of_nat take_bit_nat_eq_self)
  moreover have "sint (of_nat n :: cint) = int n"
    using assms by (simp add: signed_of_nat signed_take_bit_int_eq_self)
  moreover have "(scast (of_nat n :: cint) :: clong) = of_nat n"
    using calculation(3) by (metis of_int_of_nat_eq scast_eq)
  ultimately show ?thesis using assms by (simp add: unat_of_nat)
qed

lemma nextArgument_at:
  assumes p: "p = length pre" and mem: "mem = pre @ resp_bulk a @ t" and n: "length a < 2 ^ 31"
    and start: "start \<le> p" and find: "start < p \<Longrightarrow> no_nul (drop start pre) \<and> CHR ''$'' \<notin> set (drop start pre)"
  shows "nextArgument mem start =
    Ok (Some (p + length (dec (length a)) + 3, length a, p + length (resp_bulk a)))"
proof -
  let ?d = "dec (length a)" and ?r = "LF # a @ crlf @ t"
  have tail: "drop p mem = CHR ''$'' # ?d @ CR # ?r" using p mem by (simp add: resp_bulk_def crlf_def)
  have "drop (p + 1) mem = tl (drop p mem)" by (simp add: drop_Suc tl_drop)
  then have tail1: "drop (p + 1) mem = ?d @ CR # ?r" using tail by simp
  have dollar: "(if peek mem start \<noteq> CHR ''$'' then strchr_at mem start CHR ''$'' else Some start) = Some p"
  proof (cases "start < p")
    case True
    let ?x = "drop start pre"
    have x: "no_nul ?x" "CHR ''$'' \<notin> set ?x" "length ?x = p - start" using find [OF True] p by auto
    have m: "drop start mem = ?x @ CHR ''$'' # ?d @ CR # ?r" using mem True p by (simp add: resp_bulk_def crlf_def)
    have "peek mem start \<in> set ?x"
      using True p mem by (auto simp: peek_def nth_append in_set_conv_nth intro!: exI [of _ 0])
    then have "peek mem start \<noteq> CHR ''$''" using x(2) by auto
    moreover have "takeWhile (\<lambda>c. c \<noteq> CHR ''$'') (?x @ CHR ''$'' # u) = ?x" for u
      using x(2) by (subst takeWhile_append2) auto
    ultimately show ?thesis
      using x(3) True by (simp add: strchr_at_def m c_str_append [OF x(1)])
  next
    case False
    then have "start = p" using start by simp
    moreover have "peek mem p = CHR ''$''" using p mem by (simp add: peek_def resp_bulk_def)
    ultimately show ?thesis by simp
  qed
  have cr: "strchr_at mem p CR = Some (p + 1 + length ?d)"
  proof -
    have "takeWhile (\<lambda>x. x \<noteq> CR) (?d @ CR # u) = ?d" for u
      using not_special_dec by (subst takeWhile_append2) auto
    then show ?thesis by (simp add: strchr_at_def tail c_str_append)
  qed
  have len: "unat (scast (ucast (strtol (c_str (drop (p + 1) mem))) :: cint) :: clong) = length a"
    by (simp only: tail1 c_str_append [OF no_nul_dec] c_str_Cons) (simp add: argument_length [OF n])
  have "\<not> start > length mem" using start mem p by simp
  moreover have "length (resp_bulk a) = length ?d + length a + 5" by (simp add: resp_bulk_def crlf_def)
  ultimately show ?thesis
    by (simp only: nextArgument_def dollar cr len Let_def option.case if_False) simp
qed

lemma nextArgument_end: "nextArgument mem (length mem) = Ok None"
  by (simp add: nextArgument_def peek_def strchr_at_def c_str_def)

text \<open>The first argument of a request, and the ones behind it.\<close>

definition request_head :: "string list \<Rightarrow> string" where
  "request_head argv = CHR ''*'' # dec (length argv) @ crlf"

lemma resp_request_head: "resp_request argv = request_head argv @ concat (map resp_bulk argv)"
  by (simp add: resp_request_def request_head_def)

lemma nextArgument_first:
  assumes "length a < 2 ^ 31"
  shows "nextArgument (resp_request (a # as)) 0 =
    Ok (Some (length (request_head (a # as)) + length (dec (length a)) + 3, length a,
              length (request_head (a # as)) + length (resp_bulk a)))"
proof -
  have "no_nul (request_head (a # as)) \<and> CHR ''$'' \<notin> set (request_head (a # as))"
    using not_special_dec by (auto simp: request_head_def crlf_def)
  then show ?thesis
    by (intro nextArgument_at [where pre = "request_head (a # as)" and t = "concat (map resp_bulk as)", OF _ _ assms])
       (simp_all add: resp_request_head)
qed

section \<open>The name of the command\<close>

lemma tolower_CR: "tolower c = CR \<longleftrightarrow> c = CR"
proof -
  have "byte (tolower c) = (if 65 \<le> byte c \<and> byte c \<le> 90 then byte c + 32 else byte c)"
    by (simp add: tolower_def)
  moreover have "byte CR = 13" by simp
  ultimately have "byte (tolower c) = byte CR \<longleftrightarrow> byte c = byte CR" by auto
  then show ?thesis by (simp only: byte_inject)
qed

text \<open>\<open>word\<close> is a lower-case word, \<open>u\<close> what the request has instead.\<close>

lemma strncasecmp_line:
  assumes "no_nul u" and "CR \<notin> set u" and "no_nul w" and "CR \<notin> set w" and "map tolower w = w"
  shows "strncasecmp_eq (u @ crlf @ t) (w @ crlf) (length w + 2) \<longleftrightarrow> map tolower u = w"
proof -
  let ?l = "map tolower u @ [CR, LF] @ map tolower (c_str t)"
  have low: "tolower CR = CR" "tolower LF = LF" by (simp_all add: tolower_def)
  have u: "CR \<notin> set (map tolower u)"
  proof
    assume "CR \<in> set (map tolower u)"
    then obtain c where c: "c \<in> set u" "CR = tolower c" unfolding set_map by blast
    have "c = CR" by (rule tolower_CR [THEN iffD1]) (rule c(2) [symmetric])
    then show False using c(1) assms(2) by blast
  qed
  have "strncasecmp_eq (u @ crlf @ t) (w @ crlf) (length w + 2) \<longleftrightarrow> take (length w + 2) ?l = w @ [CR, LF]"
  proof -
    have "c_str (u @ crlf @ t) = u @ [CR, LF] @ c_str t" "c_str (w @ crlf) = w @ [CR, LF]"
      by (simp_all add: c_str_append assms(1,3) crlf_def)
    moreover have "map tolower (u @ [CR, LF] @ c_str t) = ?l" "map tolower (take (length w + 2) (w @ [CR, LF])) = w @ [CR, LF]"
      using low assms(5) by simp_all
    ultimately show ?thesis unfolding strncasecmp_eq_def by (simp only: take_map [symmetric])
  qed
  also have "\<dots> \<longleftrightarrow> map tolower u = w"
  proof
    assume eq: "take (length w + 2) ?l = w @ [CR, LF]"
    have nth: "?l ! i = (w @ [CR, LF]) ! i" if "i < length w + 2" for i
      using nth_take [OF that, of ?l] eq by metis
    have "length u = length w"
    proof (rule ccontr)
      assume "length u \<noteq> length w"
      then consider "length u < length w" | "length w < length u" by linarith
      then show False
      proof cases
        case 1
        then have "w ! length u = CR" using nth [of "length u"] by (simp add: nth_append)
        then show False using assms(4) 1 nth_mem by metis
      next
        case 2
        then have "map tolower u ! length w = CR" using nth [of "length w"] by (simp add: nth_append)
        then show False using u 2 nth_mem [of "length w" "map tolower u"] by auto
      qed
    qed
    then show "map tolower u = w" using eq by simp
  next
    assume "map tolower u = w"
    moreover from this have "length u = length w" by auto
    ultimately show "take (length w + 2) ?l = w @ [CR, LF]" by simp
  qed
  finally show ?thesis .
qed

text \<open>The command of a request: its first word in lower case, without a \<^verbatim>\<open>p\<close> in front.\<close>

definition command_of :: "string list \<Rightarrow> string" where
  "command_of argv = map tolower (drop (starts_with_p (hd argv)) (hd argv))"

definition good_name :: "string \<Rightarrow> bool" where
  "good_name a \<longleftrightarrow> no_nul a \<and> CR \<notin> set a \<and> length a < 2 ^ 31"

lemma starts_with_p_line: "starts_with_p (a @ crlf @ t) = starts_with_p a"
  by (cases a) (simp_all add: starts_with_p_def peek_def crlf_def tolower_def)

lemma starts_with_p_le: "starts_with_p a \<le> length a"
  by (cases a) (simp_all add: starts_with_p_def peek_def tolower_def)

text \<open>What \<^verbatim>\<open>__redisAsyncCommand\<close> finds at the start of a request.\<close>

lemma request_start:
  fixes a :: string and as :: "string list"
  defines "cmd \<equiv> resp_request (a # as)"
    and "c0 \<equiv> length (request_head (a # as)) + length (dec (length a)) + 3"
    and "p \<equiv> length (request_head (a # as)) + length (resp_bulk a)"
  shows "drop c0 cmd = a @ crlf @ concat (map resp_bulk as)" and "p \<le> length cmd" and "c0 \<le> length cmd"
    and "peek cmd p = CHR ''$'' \<longleftrightarrow> as \<noteq> []" and "drop p cmd = concat (map resp_bulk as)"
proof -
  have cmd: "cmd = request_head (a # as) @ resp_bulk a @ concat (map resp_bulk as)"
    by (simp add: cmd_def resp_request_head)
  then have cmd': "cmd = (request_head (a # as) @ CHR ''$'' # dec (length a) @ crlf) @ a @ crlf @ concat (map resp_bulk as)"
    by (simp add: resp_bulk_def)
  have c0: "c0 = length (request_head (a # as) @ CHR ''$'' # dec (length a) @ crlf)"
    by (simp add: c0_def crlf_def)
  show "drop c0 cmd = a @ crlf @ concat (map resp_bulk as)" unfolding c0 by (subst cmd') simp
  show "p \<le> length cmd" by (simp add: cmd p_def)
  show "c0 \<le> length cmd" unfolding c0 by (subst cmd') simp
  show "peek cmd p = CHR ''$'' \<longleftrightarrow> as \<noteq> []"
    by (cases as) (simp_all add: cmd p_def peek_def resp_bulk_def nth_append)
  show "drop p cmd = concat (map resp_bulk as)" by (simp add: cmd p_def)
qed

section \<open>Appending to the output buffer\<close>

definition obuf_holds :: "'w redisAsyncContext \<Rightarrow> string \<Rightarrow> bool" where
  "obuf_holds ac x \<longleftrightarrow> (\<exists>s. c_obuf (ac_c ac) = Some s \<and> wf_sds s \<and> sds_val s = x)"

text \<open>What issuing a command never touches.\<close>

definition kept :: "'w redisAsyncContext \<Rightarrow> 'w redisAsyncContext \<Rightarrow> bool" where
  "kept ac ac' \<longleftrightarrow>
     c_reader (ac_c ac') = c_reader (ac_c ac) \<and> c_err (ac_c ac') = c_err (ac_c ac) \<and> c_fd (ac_c ac') = c_fd (ac_c ac) \<and>
     ac_err ac' = ac_err ac \<and> ac_hook ac' = ac_hook ac \<and> ac_onConnect ac' = ac_onConnect ac \<and>
     ac_onDisconnect ac' = ac_onDisconnect ac \<and> ac_live ac' = ac_live ac \<and> ac_heap ac' = ac_heap ac \<and>
     ac_world ac' = ac_world ac"

lemma kept_trans: "kept a b \<Longrightarrow> kept b c \<Longrightarrow> kept a c"
  by (simp add: kept_def)

lemma append_and_schedule_ok:
  assumes "obuf_holds ac x" and "\<not> mem_fails m"
  shows "\<exists>s t. append_and_schedule m cmd (length cmd) ac =
      (Ok True, ac\<lparr>ac_c := (ac_c ac)\<lparr>c_obuf := Some s\<rparr>, ac_trace := t\<rparr>) \<and> wf_sds s \<and> sds_val s = x @ cmd"
proof -
  obtain s where s: "c_obuf (ac_c ac) = Some s" "wf_sds s" "sds_val s = x" using assms(1) by (auto simp: obuf_holds_def)
  obtain s' where s': "sdscatlen m s cmd (length cmd) = Some s'"
    using sdscatlen_None assms(2) by (cases "sdscatlen m s cmd (length cmd)") blast+
  have "redisAppendCommand_priv m (ac_c ac) cmd (length cmd) = Ok (True, (ac_c ac)\<lparr>c_obuf := Some s'\<rparr>)"
    using s(1) s' by (simp add: redisAppendCommand_priv_def)
  then have "append_and_schedule m cmd (length cmd) ac = (Ok True, ac\<lparr>ac_c := (ac_c ac)\<lparr>c_obuf := Some s'\<rparr>,
      ac_trace := ac_trace ac @ (if ac_hook ac AddWrite then [AddWrite] else [])\<rparr>)"
    by (cases ac) (simp add: append_and_schedule_def bind_def get_def lift_def modify_def event_hook_def ret_def)
  moreover have "wf_sds s' \<and> sds_val s' = x @ cmd" using sdscatlen_spec [OF s' s(2)] s(3) by simp
  ultimately show ?thesis by blast
qed

section \<open>A plain command\<close>

definition plain :: "string list \<Rightarrow> bool" where
  "plain argv \<longleftrightarrow> argv \<noteq> [] \<and> good_name (hd argv) \<and> (command_of argv = ''subscribe'' \<longrightarrow> tl argv = []) \<and>
     command_of argv \<noteq> ''unsubscribe'' \<and> command_of argv \<noteq> ''monitor''"

text \<open>A command that is not about subscriptions appends its callback to one queue and itself to the buffer.\<close>

definition issued :: "which_list \<Rightarrow> nat option \<times> ptr \<Rightarrow> 'w redisAsyncContext \<Rightarrow> string \<Rightarrow> string \<Rightarrow> 'w redisAsyncContext \<Rightarrow> bool" where
  "issued q k ac x cmd ac' \<longleftrightarrow>
     obuf_holds ac' (x @ cmd) \<and> queues_ok ac' \<and> queue q ac' = queue q ac @ [k] \<and>
     queue (other q) ac' = queue (other q) ac \<and> c_flags (ac_c ac') = c_flags (ac_c ac) \<and>
     ac_channels ac' = ac_channels ac \<and> ac_patterns ac' = ac_patterns ac \<and> kept ac ac'"

lemma push_and_append:
  assumes "queues_ok ac" and "obuf_holds ac x" and "\<not> mem_fails m"
  shows "wp (bind (push_callback m q cb) (\<lambda>_. append_and_schedule m cmd (length cmd)))
     (\<lambda>r ac'. r \<and> issued q (content cb) ac x cmd ac') ac"
proof -
  have mem: "alloc_ok m callback_bytes" using assms(3) by (simp add: mem_fails_def)
  obtain l st where push: "push_callback m q cb ac = (Ok 0, (put_list q l ac)\<lparr>ac_store := st, ac_next := ac_next ac + 1\<rparr>)"
      "queues_ok ((put_list q l ac)\<lparr>ac_store := st, ac_next := ac_next ac + 1\<rparr>)"
      "queue q ((put_list q l ac)\<lparr>ac_store := st, ac_next := ac_next ac + 1\<rparr>) = queue q ac @ [content cb]"
      "queue (other q) ((put_list q l ac)\<lparr>ac_store := st, ac_next := ac_next ac + 1\<rparr>) = queue (other q) ac"
    using push_callback_queue [OF assms(1) mem] by blast
  let ?s = "(put_list q l ac)\<lparr>ac_store := st, ac_next := ac_next ac + 1\<rparr>"
  have f: "ac_c ?s = ac_c ac" "ac_channels ?s = ac_channels ac" "ac_patterns ?s = ac_patterns ac" "kept ac ?s"
    by (cases q; simp add: kept_def)+
  have "obuf_holds ?s x" using assms(2) f(1) by (simp only: obuf_holds_def)
  then obtain s t where app: "append_and_schedule m cmd (length cmd) ?s =
        (Ok True, ?s\<lparr>ac_c := (ac_c ?s)\<lparr>c_obuf := Some s\<rparr>, ac_trace := t\<rparr>)" "wf_sds s" "sds_val s = x @ cmd"
    using append_and_schedule_ok [OF _ assms(3)] by blast
  have "issued q (content cb) ac x cmd (?s\<lparr>ac_c := (ac_c ?s)\<lparr>c_obuf := Some s\<rparr>, ac_trace := t\<rparr>)"
    using push f app(2,3) by (simp add: issued_def obuf_holds_def kept_def)
  then show ?thesis
    unfolding wp_bind wp_step [where m = "push_callback m q cb" and s = ac, OF push(1)]
      wp_step [where m = "append_and_schedule m cmd (length cmd)" and s = ?s, OF app(1)] by simp
qed

text \<open>Everything the function reads of a request, with the positions left abstract.\<close>

definition request_view :: "string \<Rightarrow> string \<Rightarrow> string list \<Rightarrow> nat \<Rightarrow> nat \<Rightarrow> bool" where
  "request_view cmd a as c0 p \<longleftrightarrow>
     nextArgument cmd 0 = Ok (Some (c0, length a, p)) \<and> c0 \<le> length cmd \<and> p \<le> length cmd \<and>
     (peek cmd p = CHR ''$'' \<longleftrightarrow> as \<noteq> []) \<and> drop p cmd = concat (map resp_bulk as) \<and>
     starts_with_p (drop c0 cmd) = starts_with_p a \<and>
     (\<forall>w n. no_nul w \<and> CR \<notin> set w \<and> map tolower w = w \<and> n = length w + 2 \<longrightarrow>
        strncasecmp_eq (drop (c0 + starts_with_p a) cmd) (w @ crlf) n = (command_of (a # as) = w))"

lemma request_view:
  assumes "good_name a"
  shows "\<exists>c0 p. request_view (resp_request (a # as)) a as c0 p"
proof -
  let ?cmd = "resp_request (a # as)"
  let ?c0 = "length (request_head (a # as)) + length (dec (length a)) + 3"
  let ?p = "length (request_head (a # as)) + length (resp_bulk a)"
  note start = request_start [of a as]
  have first: "nextArgument ?cmd 0 = Ok (Some (?c0, length a, ?p))"
    using assms by (intro nextArgument_first) (simp add: good_name_def)
  have p: "starts_with_p (drop ?c0 ?cmd) = starts_with_p a" by (simp only: start(1) starts_with_p_line)
  have "drop (?c0 + starts_with_p a) ?cmd = drop (starts_with_p a) (drop ?c0 ?cmd)" by (simp add: add.commute)
  also have "\<dots> = drop (starts_with_p a) a @ crlf @ concat (map resp_bulk as)"
    using starts_with_p_le [of a] unfolding start(1) by simp
  finally have d: "drop (?c0 + starts_with_p a) ?cmd = drop (starts_with_p a) a @ crlf @ concat (map resp_bulk as)" .
  have "no_nul (drop (starts_with_p a) a)" "CR \<notin> set (drop (starts_with_p a) a)"
    using assms by (auto simp: good_name_def dest: in_set_dropD)
  then have "strncasecmp_eq (drop (?c0 + starts_with_p a) ?cmd) (w @ crlf) n = (command_of (a # as) = w)"
    if "no_nul w \<and> CR \<notin> set w \<and> map tolower w = w \<and> n = length w + 2" for w n
    using that strncasecmp_line [of "drop (starts_with_p a) a" w "concat (map resp_bulk as)"]
    unfolding d by (simp add: command_of_def)
  then have "request_view ?cmd a as ?c0 ?p"
    unfolding request_view_def using first start(2-5) p by blast
  then show ?thesis by blast
qed

lemma request_view_names:
  assumes "request_view cmd a as c0 p"
  shows "strncasecmp_eq (drop (c0 + starts_with_p a) cmd) (''subscribe'' @ crlf) 11 = (command_of (a # as) = ''subscribe'')"
    and "strncasecmp_eq (drop (c0 + starts_with_p a) cmd) (''unsubscribe'' @ crlf) 13 = (command_of (a # as) = ''unsubscribe'')"
    and "strncasecmp_eq (drop (c0 + starts_with_p a) cmd) (''monitor'' @ crlf) 9 = (command_of (a # as) = ''monitor'')"
proof -
  have eq: "strncasecmp_eq (drop (c0 + starts_with_p a) cmd) (w @ crlf) n = (command_of (a # as) = w)"
    if "no_nul w \<and> CR \<notin> set w \<and> map tolower w = w \<and> n = length w + 2" for w n
    using assms that unfolding request_view_def by blast
  show "strncasecmp_eq (drop (c0 + starts_with_p a) cmd) (''subscribe'' @ crlf) 11 = (command_of (a # as) = ''subscribe'')"
    and "strncasecmp_eq (drop (c0 + starts_with_p a) cmd) (''unsubscribe'' @ crlf) 13 = (command_of (a # as) = ''unsubscribe'')"
    and "strncasecmp_eq (drop (c0 + starts_with_p a) cmd) (''monitor'' @ crlf) 9 = (command_of (a # as) = ''monitor'')"
    by (rule eq, simp add: tolower_def)+
qed

lemma pbind_get: "pbind (ended (get f)) k s = k (f s) s"
  by (simp add: pbind_def ended_def get_def)

lemma pbind_lift: "pbind (ended (lift (Ok x))) k s = k x s"
  by (simp add: pbind_def ended_def lift_def)

text \<open>The function on a request, with its tests decided by the command.\<close>

lemma redisAsyncCommand_request:
  fixes fn :: "nat option" and priv :: ptr
  assumes v: "request_view cmd a as c0 p" and up: "\<not> flag (REDIS_DISCONNECTING OR REDIS_FREEING) ac"
  defines "cb \<equiv> \<lparr>cb_next = None, cb_fn = fn, cb_privdata = priv\<rparr>"
  shows "redisAsyncCommand_priv m fn priv cmd len ac =
    (if as \<noteq> [] \<and> command_of (a # as) = ''subscribe'' then
       pbind (ended (raise_flag REDIS_SUBSCRIBED)) (\<lambda>_.
       pbind (subscribe_loop m cmd (starts_with_p a = 1) cb p) (\<lambda>_. ended (append_and_schedule m cmd len))) ac
     else if command_of (a # as) = ''unsubscribe'' then
       (if \<not> flag REDIS_SUBSCRIBED ac then Some (Ok False, ac) else Some (append_and_schedule m cmd len ac))
     else if command_of (a # as) = ''monitor'' then
       Some (bind (raise_flag REDIS_MONITORING) (\<lambda>_.
         bind (push_callback m Replies cb) (\<lambda>_. append_and_schedule m cmd len)) ac)
     else
       Some (bind (push_callback m (if flag REDIS_SUBSCRIBED ac then Invalid else Replies) cb) (\<lambda>_.
         append_and_schedule m cmd len) ac))"
proof -
  have "nextArgument cmd 0 = Ok (Some (c0, length a, p))" "c0 \<le> length cmd" "p \<le> length cmd"
      "peek cmd p = CHR ''$'' \<longleftrightarrow> as \<noteq> []" "starts_with_p (drop c0 cmd) = starts_with_p a"
    using v by (simp_all add: request_view_def)
  then show ?thesis
    using up
    by (simp only: redisAsyncCommand_priv_def pbind_get pbind_lift Let_def if_False option.case prod.case
        not_le [symmetric] cb_def request_view_names [OF v])
       (simp add: pbind_get request_view_names [OF v] ended_def ret_def)
qed

lemma async_command_plain:
  assumes plain: "plain argv" and up: "\<not> flag (REDIS_DISCONNECTING OR REDIS_FREEING) ac"
    and ac: "queues_ok ac" "obuf_holds ac x" and m: "\<not> mem_fails m"
  shows "pwp (redisAsyncCommand_priv m fn priv (resp_request argv) (length (resp_request argv)))
     (\<lambda>r ac'. r \<and> issued (if flag REDIS_SUBSCRIBED ac then Invalid else Replies) (fn, priv) ac x (resp_request argv) ac') ac"
proof -
  obtain a as where argv: "argv = a # as" "good_name a" using plain by (cases argv) (auto simp: plain_def)
  obtain c0 p where v: "request_view (resp_request (a # as)) a as c0 p" using request_view [OF argv(2)] by blast
  let ?cb = "\<lparr>cb_next = None, cb_fn = fn, cb_privdata = priv\<rparr>"
  have "pwp (redisAsyncCommand_priv m fn priv cmd len) Q ac =
      wp (bind (push_callback m (if flag REDIS_SUBSCRIBED ac then Invalid else Replies) ?cb) (\<lambda>_.
         append_and_schedule m cmd len)) Q ac" if "cmd = resp_request argv" for cmd len Q
    using plain redisAsyncCommand_request [OF v up, of m fn priv len] that
    by (auto simp: argv(1) plain_def pwp_ended [symmetric] pwp_def ended_def simp del: pwp_ended)
  then show ?thesis
    using push_and_append [OF ac m, of "if flag REDIS_SUBSCRIBED ac then Invalid else Replies" ?cb "resp_request argv"]
    by (simp add: content_def)
qed

section \<open>Subscribing\<close>

definition sub_table :: "bool \<Rightarrow> 'w redisAsyncContext \<Rightarrow> (string, redisCallback) dict" where
  "sub_table pv = (if pv then ac_patterns else ac_channels)"

definition put_table :: "bool \<Rightarrow> (string, redisCallback) dict \<Rightarrow> 'w redisAsyncContext \<Rightarrow> 'w redisAsyncContext" where
  "put_table pv d ac = (if pv then ac\<lparr>ac_patterns := d\<rparr> else ac\<lparr>ac_channels := d\<rparr>)"

lemma put_table_simps [simp]:
  "sub_table pv (put_table pv d ac) = d" "put_table pv d' (put_table pv d ac) = put_table pv d' ac"
  "sub_table (\<not> pv) (put_table pv d ac) = sub_table (\<not> pv) ac"
  by (simp_all add: sub_table_def put_table_def)

lemma put_table_same [simp]: "put_table pv (sub_table pv ac) ac = ac"
  by (simp add: sub_table_def put_table_def)

lemma add_subscription_ok:
  assumes "dict_ok (sub_table pv ac)" and "ample m" and "dictSize (sub_table pv ac) < 2 ^ 30"
  shows "\<exists>d. add_subscription m pv cb name ac = (Ok (), put_table pv d ac) \<and> dict_ok d \<and>
     dict_map d = (dict_map (sub_table pv ac))(name \<mapsto> cb) \<and> dictSize d \<le> dictSize (sub_table pv ac) + 1"
proof -
  let ?d = "sub_table pv ac"
  obtain d where d: "dict_put m ?d name cb = Ok (dict_map ?d name = None, d)" "dict_ok d"
      "dict_map d = (dict_map ?d)(name \<mapsto> cb)"
    using table.replace [of ?d m name cb] assms by auto
  have "dictSize d \<le> dictSize ?d + 1"
    using table.count [of ?d m] table.count [of d m] d(2,3) assms(1,2) by (simp add: card_insert_if)
  moreover obtain b fs where "dictReplace m ?d name cb = Ok (b, d, fs)"
    using d(1) by (auto simp: dict_put_def)
  ultimately show ?thesis
    using d(2,3) by (auto simp: add_subscription_def bind_def get_def lift_def modify_def sub_table_def put_table_def)
qed

definition registered :: "string list \<Rightarrow> redisCallback \<Rightarrow> (string \<rightharpoonup> redisCallback) \<Rightarrow> string \<rightharpoonup> redisCallback" where
  "registered as cb f = (\<lambda>n. if n \<in> set as then Some cb else f n)"

lemma registered_simps: "registered [] cb f = f" "registered (a # as) cb f = registered as cb (f(a \<mapsto> cb))"
  by (auto simp: registered_def)

lemma subscribe_loop_adds:
  assumes "list_all (\<lambda>a. length a < 2 ^ 31) as" and m: "ample m" and mem: "mem = pre @ concat (map resp_bulk as)"
    and "p = length pre" and "dict_ok (sub_table pv ac)" and "dictSize (sub_table pv ac) + length as \<le> 2 ^ 30"
  shows "\<exists>d. subscribe_loop m mem pv cb p ac = Some (Ok (), put_table pv d ac) \<and> dict_ok d \<and>
     dict_map d = registered as cb (dict_map (sub_table pv ac))"
  using assms
proof (induction as arbitrary: pre p ac)
  case Nil
  then show ?case
    using nextArgument_end [of mem]
    by (intro exI [of _ "sub_table pv ac"]) (simp add: subscribe_loop.simps registered_simps)
next
  case (Cons a as)
  let ?q = "p + length (dec (length a)) + 3" and ?r = "p + length (resp_bulk a)"
  have nxt: "nextArgument mem p = Ok (Some (?q, length a, ?r))"
    using Cons.prems by (intro nextArgument_at [where pre = pre and t = "concat (map resp_bulk as)"]) auto
  have mem': "mem = (pre @ CHR ''$'' # dec (length a) @ crlf) @ a @ crlf @ concat (map resp_bulk as)"
    using Cons.prems(3) by (simp add: resp_bulk_def [of a])
  have q: "?q = length (pre @ CHR ''$'' # dec (length a) @ crlf)" using Cons.prems(4) by (simp add: crlf_def)
  have name: "take (length a) (drop ?q mem) = a" "?q + length a \<le> length mem"
    unfolding q by (subst mem', simp)+
  obtain d where d: "add_subscription m pv cb a ac = (Ok (), put_table pv d ac)" "dict_ok d"
      "dict_map d = (dict_map (sub_table pv ac))(a \<mapsto> cb)" "dictSize d \<le> dictSize (sub_table pv ac) + 1"
    using add_subscription_ok [of pv ac m cb a] Cons.prems by auto
  have alloc: "alloc_ok m n" for n using m by (simp add: ample_def)
  have step: "subscribe_loop m mem pv cb p ac = subscribe_loop m mem pv cb ?r (put_table pv d ac)"
    by (subst subscribe_loop.simps) (use nxt name d(1) alloc in \<open>simp add: not_less\<close>)
  have "dictSize d + length as \<le> 2 ^ 30" using Cons.prems(6) d(4) by simp
  then obtain d' where "subscribe_loop m mem pv cb ?r (put_table pv d ac) = Some (Ok (), put_table pv d' (put_table pv d ac))"
      "dict_ok d'" "dict_map d' = registered as cb (dict_map (sub_table pv (put_table pv d ac)))"
    using Cons.IH [of "pre @ resp_bulk a" ?r "put_table pv d ac"] Cons.prems d(2) by auto
  then show ?case using step d(3) by (intro exI [of _ d']) (simp add: registered_simps)
qed

lemma put_table_frame:
  "queue q (put_table pv d ac) = queue q ac" "queues_ok (put_table pv d ac) = queues_ok ac"
  "ac_c (put_table pv d ac) = ac_c ac" "ac_hook (put_table pv d ac) = ac_hook ac" "kept ac (put_table pv d ac)"
  by (simp_all add: put_table_def kept_def)

definition subscribed :: "bool \<Rightarrow> string list \<Rightarrow> redisCallback \<Rightarrow> 'w redisAsyncContext \<Rightarrow> string \<Rightarrow> string \<Rightarrow> 'w redisAsyncContext \<Rightarrow> bool" where
  "subscribed pv as cb ac x cmd ac' \<longleftrightarrow>
     flag REDIS_SUBSCRIBED ac' \<and> dict_ok (sub_table pv ac') \<and>
     dict_map (sub_table pv ac') = registered as cb (dict_map (sub_table pv ac)) \<and>
     sub_table (\<not> pv) ac' = sub_table (\<not> pv) ac \<and> (\<forall>q. queue q ac' = queue q ac) \<and>
     (queues_ok ac \<longrightarrow> queues_ok ac') \<and> obuf_holds ac' (x @ cmd) \<and> kept ac ac'"

lemma async_command_subscribe:
  assumes a: "good_name a" "command_of (a # as) = ''subscribe''" and as: "as \<noteq> []" "list_all (\<lambda>a. length a < 2 ^ 31) as"
    and up: "\<not> flag (REDIS_DISCONNECTING OR REDIS_FREEING) ac" and x: "obuf_holds ac x" and m: "ample m"
    and d: "dict_ok (sub_table (starts_with_p a = 1) ac)" "dictSize (sub_table (starts_with_p a = 1) ac) + length as \<le> 2 ^ 30"
  shows "\<exists>ac'. redisAsyncCommand_priv m fn priv (resp_request (a # as)) (length (resp_request (a # as))) ac = Some (Ok True, ac') \<and>
     subscribed (starts_with_p a = 1) as \<lparr>cb_next = None, cb_fn = fn, cb_privdata = priv\<rparr> ac x (resp_request (a # as)) ac'"
proof -
  let ?cmd = "resp_request (a # as)" and ?pv = "starts_with_p a = 1"
  let ?cb = "\<lparr>cb_next = None, cb_fn = fn, cb_privdata = priv\<rparr>"
  obtain c0 p where v: "request_view ?cmd a as c0 p" using request_view [OF a(1)] by blast
  let ?s = "ac\<lparr>ac_c := set_flag REDIS_SUBSCRIBED (ac_c ac)\<rparr>"
  have tab: "sub_table pv ?s = sub_table pv ac" for pv by (simp add: sub_table_def)
  have p: "p \<le> length ?cmd" "drop p ?cmd = concat (map resp_bulk as)" using v by (simp_all add: request_view_def)
  then have pre: "?cmd = take p ?cmd @ concat (map resp_bulk as)" "p = length (take p ?cmd)"
    by (metis append_take_drop_id, simp)
  obtain d where sub: "subscribe_loop m ?cmd ?pv ?cb p ?s = Some (Ok (), put_table ?pv d ?s)" "dict_ok d"
      "dict_map d = registered as ?cb (dict_map (sub_table ?pv ?s))"
    using subscribe_loop_adds [OF as(2) m pre, of ?pv ?s ?cb] d unfolding tab by blast
  let ?t = "put_table ?pv d ?s"
  have "obuf_holds ?t x" using x by (simp add: obuf_holds_def put_table_frame set_flag_def)
  moreover have "\<not> mem_fails m" using m by (simp add: ample_def mem_fails_def)
  ultimately obtain s t where app: "append_and_schedule m ?cmd (length ?cmd) ?t =
        (Ok True, ?t\<lparr>ac_c := (ac_c ?t)\<lparr>c_obuf := Some s\<rparr>, ac_trace := t\<rparr>)" "wf_sds s" "sds_val s = x @ ?cmd"
    using append_and_schedule_ok by blast
  let ?u = "?t\<lparr>ac_c := (ac_c ?t)\<lparr>c_obuf := Some s\<rparr>, ac_trace := t\<rparr>"
  have "redisAsyncCommand_priv m fn priv ?cmd (length ?cmd) ac = Some (Ok True, ?u)"
    unfolding redisAsyncCommand_request [OF v up] using a(2) as(1) sub(1) app(1)
    by (simp add: pbind_def ended_def raise_flag_def modify_def)
  moreover have "has_flag (set_flag REDIS_SUBSCRIBED (ac_c ac)) REDIS_SUBSCRIBED"
    by (simp add: has_flag_def set_flag_def flag_defs bit.conj_disj_distrib2)
  then have "subscribed ?pv as ?cb ac x ?cmd ?u"
    using sub(2,3) app(2,3) tab [of ?pv]
    by (cases ?pv) (simp_all add: subscribed_def flag_def put_table_def sub_table_def obuf_holds_def kept_def has_flag_def set_flag_def)
  ultimately show ?thesis by blast
qed

end
