(* ===== verification/ReaderIncremental.thy ===== *)
theory ReaderIncremental
  imports ReaderProperties
begin

text \<open>
  The reply parser is incremental: what it does with some input and then more of it is what it does with
  all the input at once. \<open>ahead x R R'\<close> says that two readers agree, except that \<open>R'\<close> has the bytes \<open>x\<close>
  behind the unread input of \<open>R\<close>; every step of \<open>R\<close> that does not run out of input is a step of \<open>R'\<close>, and
  where \<open>R\<close> stops for want of input, \<open>R'\<close> can be resumed.
\<close>

section \<open>Lines\<close>

definition crlf_at :: "string \<Rightarrow> nat \<Rightarrow> bool" where
  "crlf_at p i \<longleftrightarrow> p ! i = CR \<and> p ! (i + 1) = LF"

definition first_crlf :: "string \<Rightarrow> nat \<Rightarrow> nat \<Rightarrow> nat \<Rightarrow> bool" where
  "first_crlf p n pos i \<longleftrightarrow> pos \<le> i \<and> i < n \<and> crlf_at p i \<and> (\<forall>j. pos \<le> j \<and> j < i \<longrightarrow> \<not> crlf_at p j)"

lemma skip_to_cr_stops:
  "(\<forall>j. pos \<le> j \<and> j < skip_to_cr s n pos \<longrightarrow> s ! j \<noteq> CR) \<and>
   (pos \<le> n \<longrightarrow> skip_to_cr s n pos \<le> n) \<and> (skip_to_cr s n pos < n \<longrightarrow> s ! skip_to_cr s n pos = CR)"
proof (induction s n pos rule: skip_to_cr.induct)
  case (1 s n pos)
  then show ?case
    by (subst (1 2 3 4) skip_to_cr.simps) (auto simp: Suc_le_eq dest: le_neq_implies_less)
qed

lemma seek_from_first:
  assumes "\<not> crlf_at p n"
  shows "seek_from p n pos = Some i \<longleftrightarrow> first_crlf p n pos i"
  using assms
proof (induction p n pos rule: seek_from.induct)
  case (1 p n pos)
  let ?q = "skip_to_cr p n pos"
  show ?case
  proof (cases "pos < n")
    case False
    then show ?thesis by (subst seek_from.simps) (auto simp: first_crlf_def)
  next
    case True
    have q: "pos \<le> ?q" "\<forall>j. pos \<le> j \<and> j < ?q \<longrightarrow> p ! j \<noteq> CR" "?q \<le> n" "?q < n \<longrightarrow> p ! ?q = CR"
      using skip_to_cr_ge [of pos p n] skip_to_cr_stops [of pos p n] True by auto
    consider "p ! ?q \<noteq> CR" | "p ! ?q = CR" "p ! (?q + 1) = LF" | "p ! ?q = CR" "p ! (?q + 1) \<noteq> LF" by blast
    then show ?thesis
    proof cases
      case 1
      then have "?q = n" using q(3,4) by auto
      then have "\<not> first_crlf p n pos i" using q(2) by (auto simp: first_crlf_def crlf_at_def)
      then show ?thesis using True 1 by (subst seek_from.simps) (simp add: Let_def)
    next
      case 2
      then have "?q < n" using q(3) "1.prems" by (auto simp: crlf_at_def le_less)
      then have "first_crlf p n pos i \<longleftrightarrow> i = ?q"
        using 2 q(1,2) by (auto simp: first_crlf_def crlf_at_def) (metis linorder_neqE_nat)
      then show ?thesis using True 2 by (subst seek_from.simps) (auto simp: Let_def)
    next
      case 3
      have "seek_from p n (?q + 1) = Some i \<longleftrightarrow> first_crlf p n (?q + 1) i"
        using 1 True 3 by (simp add: Let_def)
      moreover have "first_crlf p n (?q + 1) i \<longleftrightarrow> first_crlf p n pos i"
        using q(1,2) 3 by (auto simp: first_crlf_def crlf_at_def Suc_le_eq) (metis not_less_eq linorder_neqE_nat)+
      ultimately show ?thesis using True 3 by (subst seek_from.simps) (simp add: Let_def)
    qed
  qed
qed

text \<open>Where the line ends does not depend on what follows the input.\<close>

lemma seekNewline_first:
  assumes "g \<noteq> []" and "hd g \<noteq> LF"
  shows "seekNewline (u @ g) (length u) = Some i \<longleftrightarrow> first_crlf (u @ g) (length u - 1) 0 i"
proof -
  have "\<not> crlf_at (u @ g) (length u - 1)" if "u \<noteq> []"
    using assms that by (auto simp: crlf_at_def nth_append hd_conv_nth)
  then show ?thesis
    using seek_from_first [of "u @ g" "length u - 1" 0 i]
    by (cases "u = []") (auto simp: seekNewline_def seek_from.simps first_crlf_def)
qed

lemma seekNewline_more:
  assumes "g \<noteq> []" "hd g \<noteq> LF" "g' \<noteq> []" "hd g' \<noteq> LF" and "seekNewline (u @ g) (length u) = Some i"
  shows "seekNewline (u @ x @ g') (length (u @ x)) = Some i" and "i + 1 < length u" and "u ! i = CR"
proof -
  have f: "first_crlf (u @ g) (length u - 1) 0 i" using seekNewline_first [OF assms(1,2)] assms(5) by blast
  then show i: "i + 1 < length u" by (simp add: first_crlf_def less_diff_conv)
  then show "u ! i = CR" using f by (simp add: first_crlf_def crlf_at_def nth_append)
  have "crlf_at (u @ g) j = crlf_at (u @ x @ g') j" if "j + 1 < length u" for j
    using that by (simp add: crlf_at_def nth_append)
  then have "first_crlf ((u @ x) @ g') (length (u @ x) - 1) 0 i"
    using f i by (auto simp: first_crlf_def)
  then show "seekNewline (u @ x @ g') (length (u @ x)) = Some i"
    using seekNewline_first [OF assms(3,4), of "u @ x" i] by simp
qed

lemma read_digits_line: "read_digits (a @ CR # t) v = read_digits (a @ CR # t') v"
  by (induction a arbitrary: v) auto

lemma readLongLong_line: "readLongLong (a @ CR # t) = readLongLong (a @ CR # t')"
proof (cases a)
  case Nil
  then show ?thesis by (simp add: readLongLong_def Let_def)
next
  case (Cons c b)
  then show ?thesis
    using read_digits_line [of b t 0 t'] read_digits_line [of a t 0 t'] by (simp add: readLongLong_def Let_def)
qed

section \<open>Readers that differ in their input\<close>

definition ahead :: "string \<Rightarrow> redisReader \<Rightarrow> redisReader \<Rightarrow> bool" where
  "ahead x R R' \<longleftrightarrow>
     buffer_ok R \<and> buffer_ok R' \<and> unread R' = unread R @ x \<and> r_err R' = r_err R \<and> r_rstack R' = r_rstack R \<and>
     r_ridx R' = r_ridx R \<and> r_reply R' = r_reply R \<and> r_privdata R' = r_privdata R \<and>
     length (r_rstack R) = 9 \<and> r_ridx R \<le> 8"

lemma ahead_task: "ahead x R R' \<Longrightarrow> cur_task R' = cur_task R \<and> parent_task R' t = parent_task R t"
  by (simp add: ahead_def cur_task_def parent_task_def)

lemma unread_pos: "unread (R\<lparr>r_pos := r_pos R + n\<rparr>) = drop n (unread R)"
  by (simp add: unread_def add.commute split: option.split)

lemma buffer_ok_pos: "buffer_ok R \<Longrightarrow> n \<le> length (unread R) \<Longrightarrow> buffer_ok (R\<lparr>r_pos := r_pos R + n\<rparr>)"
  by (auto simp: buffer_ok_def unread_def split: option.splits)

lemma ahead_pos:
  assumes "ahead x R R'" and "n \<le> length (unread R)"
  shows "ahead x (R\<lparr>r_pos := r_pos R + n\<rparr>) (R'\<lparr>r_pos := r_pos R' + n\<rparr>)"
  using assms buffer_ok_pos [of R n] buffer_ok_pos [of R' n] by (simp add: ahead_def unread_pos)

lemma unread_frame [simp]:
  "unread (R\<lparr>r_rstack := t\<rparr>) = unread R" "unread (R\<lparr>r_ridx := i\<rparr>) = unread R" "unread (R\<lparr>r_reply := p\<rparr>) = unread R"
  "buffer_ok (R\<lparr>r_rstack := t\<rparr>) = buffer_ok R" "buffer_ok (R\<lparr>r_ridx := i\<rparr>) = buffer_ok R"
  "buffer_ok (R\<lparr>r_reply := p\<rparr>) = buffer_ok R"
  by (simp_all add: unread_def buffer_ok_def split: option.split)

lemma ahead_frame:
  assumes "ahead x R R'"
  shows "ahead x (set_task k t R) (set_task k t R')" and "i \<le> 8 \<Longrightarrow> ahead x (R\<lparr>r_ridx := i\<rparr>) (R'\<lparr>r_ridx := i\<rparr>)"
    and "ahead x (R\<lparr>r_reply := p\<rparr>) (R'\<lparr>r_reply := p\<rparr>)"
  using assms by (simp_all add: ahead_def set_task_def)

lemma ahead_trans: "ahead x R R' \<Longrightarrow> ahead y R' R'' \<Longrightarrow> ahead (x @ y) R R''"
  by (simp add: ahead_def)

lemma ahead_sym: "ahead x R R' \<Longrightarrow> ahead x R R'' \<Longrightarrow> ahead [] R' R''"
  by (simp add: ahead_def)

lemma ahead_refl: "buffer_ok R \<Longrightarrow> length (r_rstack R) = 9 \<Longrightarrow> r_ridx R \<le> 8 \<Longrightarrow> ahead [] R R"
  by (simp add: ahead_def)

section \<open>Steps\<close>

text \<open>
  The result of a step of \<open>R'\<close>, from that of \<open>R\<close>: the same fault, the same success, the same error; or
  \<open>R\<close> has run out of input and is unchanged.
\<close>

definition follows :: "string \<Rightarrow> redisReader \<Rightarrow> 'h \<Rightarrow> (bool \<times> redisReader \<times> 'h) outcome \<Rightarrow>
    (bool \<times> redisReader \<times> 'h) outcome \<Rightarrow> bool" where
  "follows x R h res res' \<longleftrightarrow>
     (case res of
        Fault e \<Rightarrow> res' = Fault e
      | Ok (ok, R1, h1) \<Rightarrow>
          if ok then \<exists>R1'. res' = Ok (True, R1', h1) \<and> ahead x R1 R1'
          else (r_err R1 \<noteq> 0 \<and> (\<exists>R1'. res' = Ok (False, R1', h1) \<and> r_err R1' = r_err R1)) \<or> (R1 = R \<and> h1 = h))"

lemma follows_obind:
  "(\<And>y. m = Ok y \<Longrightarrow> follows x R h (f y) (f' y)) \<Longrightarrow> follows x R h (obind m f) (obind m f')"
  by (cases m) (simp_all add: follows_def)

lemma follows_pair:
  "(\<And>obj h1. follows x R h (f obj h1) (f' obj h1)) \<Longrightarrow>
     follows x R h (obind m (\<lambda>(obj, h1). f obj h1)) (obind m (\<lambda>(obj, h1). f' obj h1))"
  by (rule follows_obind) (simp split: prod.split)

lemma moveToNextTask_ahead:
  "ahead x R R' \<Longrightarrow>
     (case moveToNextTask R of
        Fault e \<Rightarrow> moveToNextTask R' = Fault e
      | Ok R1 \<Rightarrow> \<exists>R1'. moveToNextTask R' = Ok R1' \<and> ahead x R1 R1')"
proof (induction R arbitrary: R' rule: moveToNextTask.induct)
  case (1 R)
  have eq: "r_ridx R' = r_ridx R" "r_rstack R' = r_rstack R" "r_ridx R - 1 \<le> 8" using 1(2) by (simp_all add: ahead_def)
  show ?case
  proof (cases "r_ridx R \<le> 0")
    case True
    then show ?thesis
      using 1(2) eq ahead_frame(2) [OF 1(2), of "-1"] by (auto simp: moveToNextTask.simps [of R] moveToNextTask.simps [of R'])
  next
    case False
    let ?k = "nat (r_ridx R)"
    let ?cur = "r_rstack R ! ?k" and ?prv = "r_rstack R ! (?k - 1)"
    show ?thesis
    proof (cases "t_type ?prv = REDIS_REPLY_ARRAY \<and> t_idx ?cur = t_elements ?prv - 1")
      case True
      have move: "moveToNextTask R = moveToNextTask (R\<lparr>r_ridx := r_ridx R - 1\<rparr>)"
          "moveToNextTask R' = moveToNextTask (R'\<lparr>r_ridx := r_ridx R - 1\<rparr>)"
        using True False eq
        by (simp_all add: moveToNextTask.simps [of R] moveToNextTask.simps [of R'] Let_def)
      show ?thesis
        using 1(1) [OF _ _ refl refl refl _ _ ahead_frame(2) [OF 1(2) eq(3)]] True False
        unfolding move by simp
    next
      case no: False
      then show ?thesis
        using False eq ahead_frame(1) [OF 1(2)]
        by (auto simp: moveToNextTask.simps [of R] moveToNextTask.simps [of R'] Let_def)
    qed
  qed
qed

lemma redisReaderSetError_ahead:
  assumes "ahead x R R'" and "ty \<noteq> 0"
  shows "follows x R0 h0 (obind (redisReaderSetError fn R h ty str) (\<lambda>(r', h'). Ok (False, r', h')))
     (obind (redisReaderSetError fn R' h ty str) (\<lambda>(r', h'). Ok (False, r', h')))"
proof (cases "r_reply R = None \<or> Option.bind fn freeObject = None")
  case True
  then show ?thesis
    using assms by (auto simp: redisReaderSetError_def follows_def ahead_def Let_def split: option.splits)
next
  case False
  then obtain p f where pf: "r_reply R = Some p" "Option.bind fn freeObject = Some f" by auto
  then show ?thesis
    using assms
    by (cases "f (Some p) h") (auto simp: redisReaderSetError_def follows_def ahead_def Let_def split: option.splits)
qed

lemma item_done_ahead:
  assumes "ahead x R R'"
  shows "follows x R0 h0 (item_done fn R obj h) (item_done fn R' obj h)"
proof (cases "obj = None")
  case True
  then show ?thesis
    using redisReaderSetError_ahead [OF assms, where h = h and fn = fn and ty = REDIS_ERR_OOM] by (simp add: item_done_def redisReaderSetErrorOOM_def REDIS_ERR_OOM_def)
next
  case False
  let ?S = "if r_ridx R = 0 then R\<lparr>r_reply := obj\<rparr> else R"
  let ?S' = "if r_ridx R' = 0 then R'\<lparr>r_reply := obj\<rparr> else R'"
  have "ahead x ?S ?S'" using assms ahead_frame(3) [OF assms] by (simp add: ahead_def)
  from moveToNextTask_ahead [OF this] show ?thesis
    using False by (cases "moveToNextTask ?S") (auto simp: item_done_def follows_def Let_def)
qed

text \<open>What two readers see of the input they share.\<close>

definition same_line :: "string \<Rightarrow> nat \<Rightarrow> string \<Rightarrow> nat \<Rightarrow> bool" where
  "same_line p n p' n' \<longleftrightarrow> (\<forall>len. seekNewline p n = Some len \<longrightarrow>
     seekNewline p' n' = Some len \<and> len + 2 \<le> n \<and> readLongLong p' = readLongLong p)"

lemma ahead_input:
  assumes "ahead x R R'"
  obtains p p' where "read_ptr R = Ok p" and "read_ptr R' = Ok p'"
    and "r_len R - r_pos R = length (unread R)" and "r_len R' - r_pos R' = length (unread R @ x)"
    and "r_pos R \<le> r_len R" and "r_pos R' \<le> r_len R'"
    and "take (length (unread R)) p = unread R" and "take (length (unread R)) p' = unread R"
    and "same_line p (length (unread R)) p' (length (unread R @ x))"
proof -
  let ?u = "unread R"
  have ok: "buffer_ok R" "buffer_ok R'" and u': "unread R' = ?u @ x" using assms by (simp_all add: ahead_def)
  obtain g where g: "read_ptr R = Ok (?u @ NUL # g)" "r_len R - r_pos R = length ?u" "r_pos R \<le> r_len R"
    using buffer_input [OF ok(1)] .
  obtain g' where g': "read_ptr R' = Ok (unread R' @ NUL # g')" "r_len R' - r_pos R' = length (unread R')" "r_pos R' \<le> r_len R'"
    using buffer_input [OF ok(2)] .
  have line: "seekNewline (?u @ x @ NUL # g') (length (?u @ x)) = Some len \<and> len + 2 \<le> length ?u \<and>
      readLongLong (?u @ x @ NUL # g') = readLongLong (?u @ NUL # g)"
    if "seekNewline (?u @ NUL # g) (length ?u) = Some len" for len
  proof -
    have g: "NUL # g \<noteq> []" "hd (NUL # g) \<noteq> LF" for g by simp_all
    note more = seekNewline_more [OF g g that]
    have len: "len + 1 < length ?u" "?u ! len = CR" using more(2,3) by simp_all
    then have "?u = take len ?u @ CR # drop (Suc len) ?u" using id_take_nth_drop [of len ?u] by simp
    then have "readLongLong (?u @ t) = readLongLong (take len ?u @ CR # [])" for t
      using readLongLong_line [of "take len ?u" "drop (Suc len) ?u @ t" "[]"] by (metis append.assoc append_Cons)
    then show ?thesis using more(1) [of x g'] len(1) by simp
  qed
  show ?thesis
  proof (rule that [of "?u @ NUL # g" "?u @ x @ NUL # g'"])
    show "same_line (?u @ NUL # g) (length ?u) (?u @ x @ NUL # g') (length (?u @ x))"
      using line by (simp add: same_line_def del: length_append)
  qed (use g g' u' in simp_all)
qed

lemma readLine_ahead:
  assumes "ahead x R R'"
  shows "readLine R = Ok None \<or> (\<exists>p p' len. readLine R = Ok (Some (p, len, R\<lparr>r_pos := r_pos R + (len + 2)\<rparr>)) \<and>
     readLine R' = Ok (Some (p', len, R'\<lparr>r_pos := r_pos R' + (len + 2)\<rparr>)) \<and> take len p' = take len p \<and>
     readLongLong p' = readLongLong p \<and> ahead x (R\<lparr>r_pos := r_pos R + (len + 2)\<rparr>) (R'\<lparr>r_pos := r_pos R' + (len + 2)\<rparr>))"
proof -
  obtain p p' where p: "read_ptr R = Ok p" "read_ptr R' = Ok p'"
      "r_len R - r_pos R = length (unread R)" "r_len R' - r_pos R' = length (unread R @ x)"
      "take (length (unread R)) p = unread R" "take (length (unread R)) p' = unread R"
      "same_line p (length (unread R)) p' (length (unread R @ x))"
    by (rule ahead_input [OF assms])
  show ?thesis
  proof (cases "seekNewline p (length (unread R))")
    case None
    then show ?thesis using p(1,3) by (simp add: readLine_def)
  next
    case (Some len)
    have len: "seekNewline p' (length (unread R @ x)) = Some len" "len + 2 \<le> length (unread R)" "readLongLong p' = readLongLong p"
      using p(7) Some by (auto simp: same_line_def)
    have "take len q = take len (take (length (unread R)) q)" for q :: string using len(2) by (simp add: min_def)
    then have "take len p' = take len p" using p(5,6) by metis
    then show ?thesis
      using Some len p(1-4) ahead_pos [OF assms len(2)] by (simp add: readLine_def)
  qed
qed

lemma follows_stalled [simp]: "follows x R h (Ok (False, R, h)) res"
  by (simp add: follows_def)

lemma processLineItem_ahead:
  assumes "ahead x R R'"
  shows "follows x R h (processLineItem fn R h) (processLineItem fn R' h)"
proof -
  have t: "cur_task R' = cur_task R" "parent_task R' = parent_task R" using ahead_task [OF assms] by auto
  from readLine_ahead [OF assms] show ?thesis
  proof (elim disjE exE conjE)
    assume "readLine R = Ok None"
    then show ?thesis by (simp add: processLineItem_def)
  next
    fix p p' len
    assume l: "readLine R = Ok (Some (p, len, R\<lparr>r_pos := r_pos R + (len + 2)\<rparr>))"
        "readLine R' = Ok (Some (p', len, R'\<lparr>r_pos := r_pos R' + (len + 2)\<rparr>))" "take len p' = take len p"
        "readLongLong p' = readLongLong p"
        "ahead x (R\<lparr>r_pos := r_pos R + (len + 2)\<rparr>) (R'\<lparr>r_pos := r_pos R' + (len + 2)\<rparr>)"
    show ?thesis
      unfolding processLineItem_def Let_def t l(1,2) obind.simps option.case prod.case l(3,4)
      by (rule follows_pair, rule item_done_ahead [OF l(5)])
  qed
qed

lemma object_done_ahead:
  assumes "ahead x R R'" and "n \<le> length (unread R)"
  shows "follows x R0 h0 (if obj = None then item_done fn R obj h else item_done fn (R\<lparr>r_pos := r_pos R + n\<rparr>) obj h)
     (if obj = None then item_done fn R' obj h else item_done fn (R'\<lparr>r_pos := r_pos R' + n\<rparr>) obj h)"
  by (cases "obj = None")
     (simp_all only: if_True if_False simp_thms item_done_ahead [OF assms(1)] item_done_ahead [OF ahead_pos [OF assms]])

lemma processBulkItem_ahead:
  assumes "ahead x R R'"
  shows "follows x R h (processBulkItem fn R h) (processBulkItem fn R' h)"
proof -
  have t: "cur_task R' = cur_task R" "parent_task R' = parent_task R" using ahead_task [OF assms] by auto
  have nil: "create_nil fn R' h = create_nil fn R h" unfolding create_nil_def t ..
  obtain p p' where p: "read_ptr R = Ok p" "read_ptr R' = Ok p'"
      "r_len R - r_pos R = length (unread R)" "r_len R' - r_pos R' = length (unread R @ x)"
      "r_pos R \<le> r_len R" "r_pos R' \<le> r_len R'"
      "take (length (unread R)) p = unread R" "take (length (unread R)) p' = unread R"
      "same_line p (length (unread R)) p' (length (unread R @ x))"
    by (rule ahead_input [OF assms])
  show ?thesis
  proof (cases "seekNewline p (length (unread R))")
    case None
    then show ?thesis using p(1,3) by (simp add: processBulkItem_def)
  next
    case (Some s)
    have s: "seekNewline p' (length (unread R @ x)) = Some s" "s + 2 \<le> length (unread R)" "readLongLong p' = readLongLong p"
      using p(9) Some by (auto simp: same_line_def)
    have body: "take n (drop (s + 2) p') = take n (drop (s + 2) p)" if "s + 2 + (n + 2) \<le> length (unread R)" for n
    proof -
      have "take n (drop (s + 2) q) = drop (s + 2) (take (s + 2 + n) (take (length (unread R)) q))" for q :: string
        using that by (simp add: min_def take_drop add.commute)
      then show ?thesis using p(7,8) by metis
    qed
    have fits: "(r_pos R + n \<le> r_len R) = (n \<le> length (unread R))" "(r_pos R' + n \<le> r_len R') = (n \<le> length (unread R @ x))" for n
      using p(3-6) by linarith+
    show ?thesis
      unfolding processBulkItem_def Let_def t nil p(1-4) obind.simps Some s(1,3) option.case fits
      apply (rule follows_obind)
      subgoal for len
        apply (cases "sint len < 0")
        subgoal
          by (simp only: if_True, rule follows_pair, rule object_done_ahead [OF assms s(2)])
        subgoal
          apply (cases "s + 2 + (nat (sint len) + 2) \<le> length (unread R)")
          subgoal premises fit
          proof -
            have fit': "s + 2 + (nat (sint len) + 2) \<le> length (unread R @ x)" using fit(3) by simp
            show ?thesis
              unfolding if_not_P [OF fit(2)] if_P [OF fit(3)] if_P [OF fit'] body [OF fit(3)]
              by (rule follows_pair, rule object_done_ahead [OF assms fit(3)])
          qed
          subgoal by simp
          done
        done
      done
  qed
qed

lemma push_task_ahead:
  assumes "ahead x R R'" and "r_ridx R \<noteq> 8"
  shows "ahead x (push_task R n obj) (push_task R' n obj)"
proof -
  have eq: "r_ridx R' = r_ridx R" "r_rstack R' = r_rstack R" "r_privdata R' = r_privdata R" "r_ridx R + 1 \<le> 8"
    using assms by (auto simp: ahead_def)
  show ?thesis
    unfolding push_task_def Let_def eq(1,2,3) by (intro ahead_frame(1) ahead_frame(2) [OF assms(1) eq(4)])
qed

lemma multi_done_ahead:
  assumes "ahead x R R'" and "r_ridx R \<noteq> 8"
  shows "follows x R0 h0 (multi_done fn R n obj h) (multi_done fn R' n obj h)"
proof (cases "obj = None")
  case True
  then show ?thesis
    using redisReaderSetError_ahead [OF assms(1), where h = h and fn = fn and ty = REDIS_ERR_OOM]
    by (simp add: multi_done_def redisReaderSetErrorOOM_def REDIS_ERR_OOM_def)
next
  case False
  have eq: "r_ridx R' = r_ridx R" using assms(1) by (simp add: ahead_def)
  show ?thesis
  proof (cases "n \<noteq> -1 \<and> 0 < sint n")
    case True
    then show ?thesis
      using False eq push_task_ahead [OF assms] ahead_frame(3) [OF push_task_ahead [OF assms]]
      by (auto simp: multi_done_def follows_def)
  next
    case no: False
    then show ?thesis
      using False eq moveToNextTask_ahead [OF assms(1)] ahead_frame(3)
      by (cases "moveToNextTask R") (auto simp: multi_done_def follows_def)
  qed
qed

lemma processMultiBulkItem_ahead:
  assumes "ahead x R R'"
  shows "follows x R h (processMultiBulkItem fn R h) (processMultiBulkItem fn R' h)"
proof (cases "r_ridx R = 8")
  case True
  have "r_ridx R' = 8" using True assms by (simp add: ahead_def)
  then show ?thesis
    unfolding processMultiBulkItem_def if_P [OF True] by (simp only: simp_thms if_True) (rule redisReaderSetError_ahead [OF assms], simp add: REDIS_ERR_PROTOCOL_def)
next
  case False
  have no: "r_ridx R' \<noteq> 8" using False assms by (simp add: ahead_def)
  from readLine_ahead [OF assms] show ?thesis
  proof (elim disjE exE conjE)
    assume "readLine R = Ok None"
    then show ?thesis using False by (simp add: processMultiBulkItem_def)
  next
    fix p p' len
    let ?R1 = "R\<lparr>r_pos := r_pos R + (len + 2)\<rparr>" and ?R1' = "R'\<lparr>r_pos := r_pos R' + (len + 2)\<rparr>"
    assume l: "readLine R = Ok (Some (p, len, ?R1))" "readLine R' = Ok (Some (p', len, ?R1'))"
        "readLongLong p' = readLongLong p" "ahead x ?R1 ?R1'"
    have t: "cur_task ?R1' = cur_task ?R1" "parent_task ?R1' = parent_task ?R1" using ahead_task [OF l(4)] by auto
    have ne: "r_ridx ?R1 \<noteq> 8" using False by simp
    show ?thesis
      unfolding processMultiBulkItem_def if_not_P [OF False] if_not_P [OF no] l(1,2) obind.simps option.case prod.case l(3) create_nil_def t
      by (rule follows_obind, rule follows_pair, rule multi_done_ahead [OF l(4) ne])
  qed
qed

lemma processTyped_ahead:
  assumes "ahead x R R'"
  shows "follows x R h (processTyped fn R h) (processTyped fn R' h)"
  unfolding processTyped_def Let_def ahead_task [OF assms, THEN conjunct1]
  using processLineItem_ahead [OF assms, where fn = fn and h = h] processBulkItem_ahead [OF assms, where fn = fn and h = h]
    processMultiBulkItem_ahead [OF assms, where fn = fn and h = h]
  by (simp add: follows_def)

text \<open>
  A whole item. When the input ends inside it, the reader may have read the type byte; \<open>R'\<close> then
  does what a reader that goes on from there does.
\<close>

lemma processItem_typed_already: "0 \<le> t_type (cur_task R) \<Longrightarrow> processItem fn R h = processTyped fn R h"
  by (simp add: processItem_def)

lemma readBytes_ahead:
  assumes "ahead x R R'"
  shows "unread R = [] \<and> readBytes R 1 = Ok None \<or>
     (\<exists>p p'. readBytes R 1 = Ok (Some (p, R\<lparr>r_pos := r_pos R + 1\<rparr>)) \<and>
        readBytes R' 1 = Ok (Some (p', R'\<lparr>r_pos := r_pos R' + 1\<rparr>)) \<and> hd p' = hd p \<and>
        ahead x (R\<lparr>r_pos := r_pos R + 1\<rparr>) (R'\<lparr>r_pos := r_pos R' + 1\<rparr>))"
proof -
  obtain p p' where p: "read_ptr R = Ok p" "read_ptr R' = Ok p'"
      "r_len R - r_pos R = length (unread R)" "r_len R' - r_pos R' = length (unread R @ x)"
      "take (length (unread R)) p = unread R" "take (length (unread R)) p' = unread R"
    by (rule ahead_input [OF assms])
  show ?thesis
  proof (cases "unread R = []")
    case True
    then show ?thesis using p(3) by (simp add: readBytes_def)
  next
    case False
    then have one: "1 \<le> length (unread R)" by (cases "unread R") auto
    then have "hd q = hd (take (length (unread R)) q)" for q :: string by (cases q) (auto simp: Suc_le_eq)
    then have "hd p' = hd p" using p(5,6) by metis
    then show ?thesis using p(1-4) one ahead_pos [OF assms one] by (simp add: readBytes_def)
  qed
qed

definition resumes :: "'h fns \<Rightarrow> string \<Rightarrow> redisReader \<Rightarrow> 'h \<Rightarrow> redisReader \<Rightarrow> bool" where
  "resumes fn x R h R' \<longleftrightarrow>
     (case processItem fn R h of
        Fault e \<Rightarrow> processItem fn R' h = Fault e
      | Ok (True, R1, h1) \<Rightarrow> \<exists>R1'. processItem fn R' h = Ok (True, R1', h1) \<and> ahead x R1 R1'
      | Ok (False, R1, h1) \<Rightarrow>
          (r_err R1 \<noteq> 0 \<and> (\<exists>R1'. processItem fn R' h = Ok (False, R1', h1) \<and> r_err R1' = r_err R1)) \<or>
          (h1 = h \<and> 0 \<le> r_ridx R1 \<and> (\<exists>R1'. ahead x R1 R1' \<and> processItem fn R' h = processItem fn R1' h)))"

lemma follows_resumes:
  assumes "follows x R0 h (processItem fn R h) (processItem fn R' h)" and "0 \<le> r_ridx R0" and "ahead x R0 R0'"
    and "processItem fn R' h = processItem fn R0' h"
  shows "resumes fn x R h R'"
  using assms by (auto simp: resumes_def follows_def split: outcome.split bool.split)

lemma processItem_ahead:
  assumes "ahead x R R'" and "0 \<le> r_ridx R"
  shows "resumes fn x R h R'"
proof (cases "t_type (cur_task R) < 0")
  case False
  then have "processItem fn R h = processTyped fn R h" "processItem fn R' h = processTyped fn R' h"
    using ahead_task [OF assms(1)] by (simp_all add: processItem_def)
  then have "follows x R h (processItem fn R h) (processItem fn R' h)" using processTyped_ahead [OF assms(1)] by simp
  then show ?thesis using assms by (auto intro: follows_resumes)
next
  case True
  have task: "t_type (cur_task R') < 0" using True ahead_task [OF assms(1)] by simp
  from readBytes_ahead [OF assms(1)] show ?thesis
  proof (elim disjE exE conjE)
    assume "readBytes R 1 = Ok None"
    then have "processItem fn R h = Ok (False, R, h)" using True by (simp add: processItem_def)
    then show ?thesis using assms by (auto simp: resumes_def)
  next
    fix p p'
    let ?S = "R\<lparr>r_pos := r_pos R + 1\<rparr>" and ?S' = "R'\<lparr>r_pos := r_pos R' + 1\<rparr>"
    assume b: "readBytes R 1 = Ok (Some (p, ?S))" "readBytes R' 1 = Ok (Some (p', ?S'))" "hd p' = hd p" "ahead x ?S ?S'"
    show ?thesis
    proof (cases "type_of_byte (hd p)")
      case None
      have "follows x R h (processItem fn R h) (processItem fn R' h)"
        unfolding processItem_def if_P [OF True] if_P [OF task] b(1,2,3) obind.simps option.case prod.case None
          redisReaderSetErrorProtocolByte_def
        by (rule redisReaderSetError_ahead [OF b(4)]) (simp add: REDIS_ERR_PROTOCOL_def)
      then show ?thesis using assms by (auto intro: follows_resumes)
    next
      case (Some ty)
      let ?k = "nat (r_ridx R)"
      let ?T = "set_task ?k ((cur_task R)\<lparr>t_type := ty\<rparr>) ?S" and ?T' = "set_task ?k ((cur_task R)\<lparr>t_type := ty\<rparr>) ?S'"
      have k: "?k < length (r_rstack R)" "r_ridx R' = r_ridx R" "r_rstack R' = r_rstack R" using assms by (auto simp: ahead_def)
      have T: "ahead x ?T ?T'" using ahead_frame(1) [OF b(4)] .
      have run: "processItem fn R h = processTyped fn ?T h" "processItem fn R' h = processTyped fn ?T' h"
        using True task b(1-3) Some k(2,3) by (simp_all add: processItem_def cur_task_def)
      have "0 \<le> t_type (cur_task ?T')"
        using Some k by (auto simp: cur_task_def set_task_def type_of_byte_def reply_types split: if_splits)
      then have "processItem fn R' h = processItem fn ?T' h" using run(2) processItem_typed_already by metis
      moreover have "follows x ?T h (processItem fn R h) (processItem fn R' h)" using run processTyped_ahead [OF T] by simp
      ultimately show ?thesis using T assms(2) by (auto intro: follows_resumes)
    qed
  qed
qed

text \<open>The loop over items.\<close>

lemma process_loop_ahead:
  "ahead x R R' \<Longrightarrow>
     (case process_loop fn R h of
        Fault e \<Rightarrow> process_loop fn R' h = Fault e
      | Ok (R1, h1) \<Rightarrow>
          (r_err R1 \<noteq> 0 \<and> (\<exists>R1'. process_loop fn R' h = Ok (R1', h1) \<and> r_err R1' = r_err R1)) \<or>
          (\<exists>R1'. ahead x R1 R1' \<and> process_loop fn R' h = process_loop fn R1' h1))"
proof (induction fn R h arbitrary: R' rule: process_loop.induct)
  case (1 fn R h)
  have idx: "r_ridx R' = r_ridx R" using 1(2) by (simp add: ahead_def)
  show ?case
  proof (cases "r_ridx R < 0")
    case True
    then show ?thesis using 1(2) by (auto simp: process_loop.simps [of fn R])
  next
    case False
    then have go: "0 \<le> r_ridx R" "\<not> r_ridx R' < 0" using idx by simp_all
    have cong: "process_loop fn R' h = process_loop fn S h" if "processItem fn R' h = processItem fn S h" "0 \<le> r_ridx S" for S
      using that go(2) by (simp add: process_loop.simps [of fn R'] process_loop.simps [of fn S])
    note item = processItem_ahead [OF 1(2) go(1), of fn h, unfolded resumes_def]
    show ?thesis
    proof (cases "processItem fn R h")
      case (Fault e)
      then show ?thesis using item False go(2) by (simp add: process_loop.simps [of fn R] process_loop.simps [of fn R'])
    next
      case (Ok res)
      then obtain ok R1 h1 where res: "processItem fn R h = Ok (ok, R1, h1)" by (cases res) auto
      show ?thesis
      proof (cases ok)
        case True
        then obtain R1' where R1': "processItem fn R' h = Ok (True, R1', h1)" "ahead x R1 R1'" using item res by auto
        have go_on: "process_loop fn R h = process_loop fn R1 h1" "process_loop fn R' h = process_loop fn R1' h1"
          using res R1'(1) True False go(2) by (simp_all add: process_loop.simps [of fn R] process_loop.simps [of fn R'])
        show ?thesis unfolding go_on by (rule 1(1) [OF False res refl refl True R1'(2)])
      next
        case no: False
        then have stop: "process_loop fn R h = Ok (R1, h1)" using res False by (simp add: process_loop.simps [of fn R])
        have "processItem fn R h = Ok (False, R1, h1)" using res no by simp
        then have "(r_err R1 \<noteq> 0 \<and> (\<exists>R1'. processItem fn R' h = Ok (False, R1', h1) \<and> r_err R1' = r_err R1)) \<or>
          (h1 = h \<and> 0 \<le> r_ridx R1 \<and> (\<exists>R1'. ahead x R1 R1' \<and> processItem fn R' h = processItem fn R1' h))"
          using item by simp
        then show ?thesis
        proof (elim disjE conjE exE)
          fix R1' assume "r_err R1 \<noteq> 0" "processItem fn R' h = Ok (False, R1', h1)" "r_err R1' = r_err R1"
          then show ?thesis using stop go(2) by (simp add: process_loop.simps [of fn R'])
        next
          fix R1' assume s: "h1 = h" "0 \<le> r_ridx R1" "ahead x R1 R1'" "processItem fn R' h = processItem fn R1' h"
          have "0 \<le> r_ridx R1'" using s(2,3) by (simp add: ahead_def)
          from cong [OF s(4) this] show ?thesis using s stop by auto
        qed
      qed
    qed
  qed
qed

text \<open>An error of the reader stays.\<close>

lemma setError_err: "redisReaderSetError fn R h ty str = Ok (R1, h1) \<Longrightarrow> r_err R1 = ty"
  by (auto simp: redisReaderSetError_def Let_def split: option.splits)

lemma error_kinds [simp]: "0 < REDIS_ERR_OOM" "0 < REDIS_ERR_PROTOCOL"
  by (simp_all add: REDIS_ERR_OOM_def REDIS_ERR_PROTOCOL_def)

lemma setErrorOOM_err: "redisReaderSetErrorOOM fn R h = Ok (R1, h1) \<Longrightarrow> 0 < r_err R1"
  unfolding redisReaderSetErrorOOM_def by (drule setError_err) simp

lemma setErrorByte_err: "redisReaderSetErrorProtocolByte fn R h c = Ok (R1, h1) \<Longrightarrow> 0 < r_err R1"
  unfolding redisReaderSetErrorProtocolByte_def by (drule setError_err) simp

lemma moveToNextTask_err: "moveToNextTask R = Ok R1 \<Longrightarrow> r_err R1 = r_err R"
  by (simp add: moveToNextTask_keeps)

lemma item_done_err: "item_done fn R obj h = Ok (b, R1, h1) \<Longrightarrow> 0 < r_err R \<Longrightarrow> 0 < r_err R1"
  by (cases "obj = None"; cases "redisReaderSetErrorOOM fn R h";
      cases "moveToNextTask (if r_ridx R = 0 then R\<lparr>r_reply := obj\<rparr> else R)")
     (auto simp: item_done_def dest: setErrorOOM_err moveToNextTask_err)

lemma multi_done_err: "multi_done fn R n obj h = Ok (b, R1, h1) \<Longrightarrow> 0 < r_err R \<Longrightarrow> 0 < r_err R1"
  by (cases "obj = None"; cases "redisReaderSetErrorOOM fn R h"; cases "moveToNextTask R")
     (auto simp: multi_done_def push_task_def set_task_def Let_def dest: setErrorOOM_err moveToNextTask_err split: if_split_asm)

lemma readLine_err: "readLine R = Ok (Some (p, n, R1)) \<Longrightarrow> r_err R1 = r_err R"
  by (auto simp: readLine_def split: option.split_asm)

lemma processTyped_err:
  assumes "processTyped fn R h = Ok (b, R1, h1)" and "0 < r_err R"
  shows "0 < r_err R1"
proof -
  have line: "0 < r_err R1" if "processLineItem fn R h = Ok (b, R1, h1)"
    using that assms(2)
    by (clarsimp simp: processLineItem_def Let_def)
       (auto split: option.split_asm prod.split_asm dest!: item_done_err readLine_err)
  have bulk: "0 < r_err R1" if "processBulkItem fn R h = Ok (b, R1, h1)"
    using that assms(2)
    by (clarsimp simp: processBulkItem_def Let_def)
       (auto split: option.split_asm prod.split_asm if_split_asm dest!: item_done_err)
  have multi: "0 < r_err R1" if "processMultiBulkItem fn R h = Ok (b, R1, h1)"
    using that assms(2)
    by (clarsimp simp: processMultiBulkItem_def split: if_split_asm)
       (auto split: option.split_asm dest!: multi_done_err readLine_err setError_err)
  show ?thesis
    using assms(1) line bulk multi by (auto simp: processTyped_def Let_def split: if_split_asm)
qed

lemma processItem_err:
  assumes "processItem fn R h = Ok (b, R1, h1)" and "0 < r_err R"
  shows "0 < r_err R1"
  using assms
  by (clarsimp simp: processItem_def readBytes_def split: if_split_asm)
     (auto split: option.split_asm if_split_asm dest!: processTyped_err setErrorByte_err)

lemma process_loop_err: "process_loop fn R h = Ok (R1, h1) \<Longrightarrow> 0 < r_err R \<Longrightarrow> 0 < r_err R1"
proof (induction fn R h rule: process_loop.induct)
  case (1 fn R h)
  show ?case
    using 1(1) 1(2,3) processItem_err [of fn R h]
    by (auto simp: process_loop.simps [of fn R] split: if_split_asm outcome.split_asm)
qed

section \<open>A reader inside a reply\<close>

text \<open>
  \<open>awaits h0 r x R h\<close>: the reply \<open>r\<close>, started in the heap \<open>h0\<close>, lacks the bytes \<open>x\<close>; whatever follows
  them, once they are there the loop reads off exactly \<open>r\<close>.
\<close>

definition awaits :: "rheap \<Rightarrow> redisReply \<Rightarrow> string \<Rightarrow> redisReader \<Rightarrow> rheap \<Rightarrow> bool" where
  "awaits h0 r x R h \<longleftrightarrow>
     r_err R = 0 \<and> 0 \<le> r_ridx R \<and> r_ridx R \<le> 8 \<and> length (r_rstack R) = 9 \<and> buffer_ok R \<and>
     (\<forall>rest R'. ahead (x @ rest) R R' \<longrightarrow>
        (\<exists>R1 h1. process_loop dF R' h = Ok (R1, h1) \<and> read_off h0 r rest R1 h1))"

lemma awaits_ahead: "awaits h0 r x R h \<Longrightarrow> ahead [] R R1 \<Longrightarrow> awaits h0 r x R1 h"
  unfolding awaits_def by (fastforce simp: ahead_def)

lemma awaits_more: "awaits h0 r (y @ x) R h \<Longrightarrow> ahead y R R1 \<Longrightarrow> awaits h0 r x R1 h"
  unfolding awaits_def using ahead_trans [of y R R1] by (fastforce simp: ahead_def)

lemma awaits_started:
  assumes "started R v" and "v @ x = encode_reply r" and "allocates h" "reply_ok r" "reply_depth r \<le> 8"
  shows "awaits h r x R h"
proof -
  have "\<exists>R1 h1. process_loop dF R' h = Ok (R1, h1) \<and> read_off h r rest R1 h1" if "ahead (x @ rest) R R'" for rest R'
  proof (rule loop_reads [OF _ assms(3-5)])
    have "unread R' = (v @ x) @ rest" using that assms(1) by (simp add: ahead_def started_def)
    then show "started R' (encode_reply r @ rest)" using that assms(1,2) by (simp add: started_def ahead_def)
  qed
  then show ?thesis using assms(1) by (simp add: awaits_def started_def)
qed

lemma ahead_exists:
  assumes "buffer_ok R" and "length (r_rstack R) = 9" and "r_ridx R \<le> 8" and "r_err R = 0"
  shows "\<exists>R'. ahead x R R'"
proof -
  have "\<not> mem_fails demo_mem" by (rule demo_mem_ok)
  from feed_unread [OF assms(1,4) this, of None "()" x] show ?thesis
    using assms by (auto simp: ahead_def)
qed

lemma process_loop_same:
  assumes "ahead [] R R'" and "process_loop fn R h = Ok (R1, h1)" and "r_err R1 = 0" and "r_ridx R1 = -1"
  shows "\<exists>R1'. process_loop fn R' h = Ok (R1', h1) \<and> ahead [] R1 R1'"
proof -
  obtain R1' where R1': "ahead [] R1 R1'" "process_loop fn R' h = process_loop fn R1' h1"
    using process_loop_ahead [OF assms(1), of fn h] assms(2,3) by auto
  then have "r_ridx R1' = -1" using assms(4) by (simp add: ahead_def)
  then show ?thesis using R1' by (simp add: process_loop.simps [of fn R1'])
qed

lemma read_off_ahead: "read_off h0 r rest R h \<Longrightarrow> ahead [] R R' \<Longrightarrow> read_off h0 r rest R' h"
  by (simp add: read_off_def ahead_def)

text \<open>Without the rest of the reply, the loop stops inside it.\<close>

lemma awaits_stops:
  assumes R: "awaits h0 r x R h" and x: "x \<noteq> []"
  shows "\<exists>R1 h1. process_loop dF R h = Ok (R1, h1) \<and> awaits h0 r x R1 h1"
proof -
  have ok: "buffer_ok R" "length (r_rstack R) = 9" "r_ridx R \<le> 8" "r_err R = 0" "0 \<le> r_ridx R"
    using R by (simp_all add: awaits_def)
  have fin: "\<exists>S1 k. process_loop dF R' h = Ok (S1, k) \<and> read_off h0 r rest S1 k" if "ahead (x @ rest) R R'" for rest R'
    using R that by (simp add: awaits_def)
  obtain R' where R': "ahead (x @ []) R R'" using ahead_exists [OF ok(1-4)] by blast
  obtain S1 k where S1: "process_loop dF R' h = Ok (S1, k)" "read_off h0 r [] S1 k" using fin [OF R'] by blast
  have S1': "r_err S1 = 0" "r_ridx S1 = -1" "unread S1 = []" using S1(2) by (simp_all add: read_off_def)
  have "\<exists>R1 h1. process_loop dF R h = Ok (R1, h1)"
    using process_loop_ahead [OF R', of dF h] S1(1) by (cases "process_loop dF R h") auto
  then obtain R1 h1 where R1: "process_loop dF R h = Ok (R1, h1)" by blast
  have follow: "\<exists>T1. ahead (x @ rest) R1 T1 \<and> process_loop dF T h = process_loop dF T1 h1" if T: "ahead (x @ rest) R T" for rest T
  proof -
    obtain S2 k2 where "process_loop dF T h = Ok (S2, k2)" "read_off h0 r rest S2 k2" using fin [OF T] by blast
    then show ?thesis
      using process_loop_ahead [OF T, of dF h] R1 by (auto simp: read_off_def)
  qed
  obtain T1 where T1: "ahead (x @ []) R1 T1" "process_loop dF R' h = process_loop dF T1 h1"
    using follow [OF R'] by blast
  have idx: "0 \<le> r_ridx R1"
  proof (rule ccontr)
    assume "\<not> 0 \<le> r_ridx R1"
    then have "process_loop dF T1 h1 = Ok (T1, h1)" using T1(1) by (simp add: process_loop.simps [of dF T1] ahead_def)
    then have "T1 = S1" using T1(2) S1(1) by simp
    then show False using S1'(3) T1(1) x by (simp add: ahead_def)
  qed
  have err: "r_err R1 = 0"
  proof (rule ccontr)
    assume "r_err R1 \<noteq> 0"
    then have "r_err T1 \<noteq> 0" using T1(1) by (simp add: ahead_def)
    then show False
      using process_loop_err [of dF T1 h1] S1 S1'(1) T1(2) by auto
  qed
  have "\<exists>S2 k2. process_loop dF T h1 = Ok (S2, k2) \<and> read_off h0 r rest S2 k2" if T: "ahead (x @ rest) R1 T" for rest T
  proof -
    obtain R'' where R'': "ahead (x @ rest) R R''" using ahead_exists [OF ok(1-4)] by blast
    obtain T2 where T2: "ahead (x @ rest) R1 T2" "process_loop dF R'' h = process_loop dF T2 h1"
      using follow [OF R''] by blast
    obtain S2 k2 where S2: "process_loop dF T2 h1 = Ok (S2, k2)" "read_off h0 r rest S2 k2"
      using fin [OF R''] T2(2) by auto
    obtain S3 where "process_loop dF T h1 = Ok (S3, k2)" "ahead [] S2 S3"
      using process_loop_same [OF ahead_sym [OF T2(1) T] S2(1)] S2(2) by (auto simp: read_off_def)
    then show ?thesis using read_off_ahead [OF S2(2)] by blast
  qed
  then have "awaits h0 r x R1 h1" using idx err T1(1) by (simp add: awaits_def ahead_def)
  then show ?thesis using R1 by blast
qed

section \<open>Asking for replies as the input comes\<close>

text \<open>A reader that has \<open>v\<close> bytes of the first of the replies \<open>rs\<close>; the bytes \<open>z\<close> are still to come.\<close>

definition pending :: "rheap \<Rightarrow> redisReply \<Rightarrow> string \<Rightarrow> redisReader \<Rightarrow> rheap \<Rightarrow> bool" where
  "pending h0 r x R h \<longleftrightarrow>
     r_err R = 0 \<and> -1 \<le> r_ridx R \<and> buffer_ok R \<and> awaits h0 r x (start_task R) h"

definition between :: "rheap \<Rightarrow> redisReader \<Rightarrow> rheap \<Rightarrow> redisReply list \<Rightarrow> nat \<Rightarrow> string \<Rightarrow> bool" where
  "between h0 R h rs v z \<longleftrightarrow>
     (case rs of
        [] \<Rightarrow> z = [] \<and> h = h0 \<and> r_err R = 0 \<and> -1 \<le> r_ridx R \<and> buffer_ok R \<and> started (start_task R) []
      | r # rs' \<Rightarrow> \<exists>x. x \<noteq> [] \<and> z = x @ concat (map encode_reply rs') \<and>
          length (encode_reply r) = v + length x \<and> pending h0 r x R h)"

lemma start_task_started: "0 \<le> r_ridx R \<Longrightarrow> start_task R = R"
  by (simp add: start_task_def)

lemma start_task_frame:
  "r_err (start_task R) = r_err R" "buffer_ok (start_task R) = buffer_ok R" "unread (start_task R) = unread R"
  by (auto simp: start_task_def set_task_def buffer_ok_def unread_def split: option.splits)

lemma ahead_cut_buffer: "buffer_ok R \<Longrightarrow> length (r_rstack R) = 9 \<Longrightarrow> r_ridx R \<le> 8 \<Longrightarrow> ahead [] R (cut_buffer R)"
  using cut_buffer_unread [of R] by (simp add: ahead_def)

lemma ahead_start_task:
  assumes "buffer_ok R" "buffer_ok R'" "unread R' = unread R @ x" "r_err R' = r_err R" "r_rstack R' = r_rstack R"
    "r_ridx R' = r_ridx R" "r_reply R' = r_reply R" "r_privdata R' = r_privdata R"
    and "length (r_rstack (start_task R)) = 9" "r_ridx (start_task R) \<le> 8"
  shows "ahead x (start_task R) (start_task R')"
  using assms start_task_frame [of R] start_task_frame [of R']
  by (auto simp: ahead_def start_task_def set_task_def)

lemma idle_pending:
  assumes "idle R v" and "v @ x = encode_reply r" and "allocates h" "reply_ok r" "reply_depth r \<le> 8"
  shows "pending h r x R h"
  using awaits_started [OF start_task_idle [OF assms(1)] assms(2-5)] assms(1) by (simp add: pending_def idle_unread)

lemma get_pending:
  assumes R: "pending h0 r x R h" and x: "x \<noteq> []"
  shows "\<exists>R1 h1. redisReaderGetReply dF R h = Ok (True, None, R1, h1) \<and> pending h0 r x R1 h1"
proof (cases "r_len R = 0")
  case True
  then show ?thesis using R by (auto simp: redisReaderGetReply_def pending_def)
next
  case False
  obtain R1 h1 where R1: "process_loop dF (start_task R) h = Ok (R1, h1)" "awaits h0 r x R1 h1"
    using awaits_stops [OF R [unfolded pending_def, THEN conjunct2, THEN conjunct2, THEN conjunct2] x] by blast
  have f: "r_err R1 = 0" "0 \<le> r_ridx R1" "r_ridx R1 \<le> 8" "length (r_rstack R1) = 9" "buffer_ok R1"
    using R1(2) by (simp_all add: awaits_def)
  have "redisReaderGetReply dF R h = Ok (True, None, cut_buffer R1, h1)"
    using R False R1(1) f by (simp add: redisReaderGetReply_def pending_def Let_def)
  moreover have "pending h0 r x (cut_buffer R1) h1"
    using awaits_ahead [OF R1(2) ahead_cut_buffer [OF f(5,4,3)]] f cut_buffer_unread [of R1]
    by (simp add: pending_def start_task_started)
  ultimately show ?thesis by blast
qed

text \<open>Feeding such a reader.\<close>

lemma feed_pending:
  assumes R: "pending h0 r x R h" and m: "\<not> mem_fails m"
  shows "\<exists>R1. redisReaderFeed m dF R k (Some y) (length y) = Ok (True, R1, k) \<and> r_err R1 = 0 \<and> -1 \<le> r_ridx R1 \<and>
     buffer_ok R1 \<and> unread R1 = unread R @ y \<and> ahead y (start_task R) (start_task R1)"
proof -
  have f: "buffer_ok R" "r_err R = 0" using R by (simp_all add: pending_def)
  obtain R1 where R1: "redisReaderFeed m dF R k (Some y) (length y) = Ok (True, R1, k)" "buffer_ok R1"
      "unread R1 = unread R @ y" "r_err R1 = 0" "r_ridx R1 = r_ridx R" "r_rstack R1 = r_rstack R"
      "r_reply R1 = r_reply R" "r_privdata R1 = r_privdata R"
    using feed_unread [OF f m, of dF k y] by blast
  have "ahead y (start_task R) (start_task R1)"
    by (rule ahead_start_task [OF f(1) R1(2,3)]) (use R1 R f in \<open>auto simp: pending_def awaits_def\<close>)
  then show ?thesis using R1 R by (auto simp: pending_def)
qed

lemma feed_part:
  assumes R: "pending h0 r (y @ x) R h" and m: "\<not> mem_fails m"
  shows "\<exists>R1. redisReaderFeed m dF R k (Some y) (length y) = Ok (True, R1, k) \<and> pending h0 r x R1 h"
proof -
  obtain R1 where R1: "redisReaderFeed m dF R k (Some y) (length y) = Ok (True, R1, k)" "r_err R1 = 0" "-1 \<le> r_ridx R1"
      "buffer_ok R1" "ahead y (start_task R) (start_task R1)"
    using feed_pending [OF R m, of k y] by blast
  moreover have "awaits h0 r x (start_task R1) h" using R R1(5) awaits_more by (auto simp: pending_def)
  ultimately show ?thesis by (auto simp: pending_def)
qed

lemma feed_rest:
  assumes R: "pending h0 r x R h" and m: "\<not> mem_fails m" and x: "x \<noteq> []"
  shows "\<exists>R1 R2 h2. redisReaderFeed m dF R k (Some (x @ rest)) (length (x @ rest)) = Ok (True, R1, k) \<and>
     redisReaderGetReply dF R1 h = Ok (True, Some (fresh h0), R2, h2) \<and> idle R2 rest \<and> allocates h2 \<and>
     fresh h0 < fresh h2 \<and> (\<forall>a < fresh h0. cells h2 a = cells h0 a) \<and>
     holds (cells h2) (fresh h0) (fresh h2) (fresh h0) r"
proof -
  obtain R1 where R1: "redisReaderFeed m dF R k (Some (x @ rest)) (length (x @ rest)) = Ok (True, R1, k)" "r_err R1 = 0"
      "buffer_ok R1" "unread R1 = unread R @ x @ rest" "ahead (x @ rest) (start_task R) (start_task R1)"
    using feed_pending [OF R m, of k "x @ rest"] by blast
  obtain S h2 where S: "process_loop dF (start_task R1) h = Ok (S, h2)" "read_off h0 r rest S h2"
    using R R1(5) unfolding pending_def awaits_def by blast
  have "r_len R1 \<noteq> 0" using R1(3,4) x unread_len [of R1] by simp
  from getReply_done [OF R1(2) this S] S(2) R1(1) show ?thesis by (auto simp: read_off_def)
qed

lemma get_empty:
  assumes "buffer_ok R" and "started (start_task R) []" and "r_err R = 0" and "-1 \<le> r_ridx R"
  shows "\<exists>R1. redisReaderGetReply fn R h = Ok (True, None, R1, h) \<and> buffer_ok R1 \<and> started (start_task R1) [] \<and>
     r_err R1 = 0 \<and> -1 \<le> r_ridx R1"
proof (cases "r_len R = 0")
  case True
  then show ?thesis using assms by (simp add: redisReaderGetReply_def)
next
  case False
  let ?S = "start_task R"
  have S: "r_ridx ?S = 0" "r_err ?S = 0" "buffer_ok ?S" "unread ?S = []" "t_type (cur_task ?S) < 0"
    using assms(2) by (simp_all add: started_def cur_task_def)
  obtain g where "r_len ?S - r_pos ?S = length (unread ?S)" using buffer_input [OF S(3)] by blast
  then have "processItem fn ?S h = Ok (False, ?S, h)" using S by (simp add: processItem_def readBytes_def)
  then have "process_loop fn ?S h = Ok (?S, h)" using S(1) by (simp add: process_loop.simps)
  then have "redisReaderGetReply fn R h = Ok (True, None, cut_buffer ?S, h)"
    using False assms(3) S(1,2) by (simp add: redisReaderGetReply_def Let_def)
  moreover have "started (start_task (cut_buffer ?S)) []"
    using assms(2) cut_buffer_unread [OF S(3)] by (simp add: started_def start_task_started)
  ultimately show ?thesis using S cut_buffer_unread [OF S(3)] by simp
qed

text \<open>How many of the replies \<open>rs\<close> the first \<open>n\<close> bytes of their encodings complete.\<close>

fun arrived :: "redisReply list \<Rightarrow> nat \<Rightarrow> nat" where
  "arrived [] n = 0"
| "arrived (r # rs) n =
     (if length (encode_reply r) \<le> n then Suc (arrived rs (n - length (encode_reply r))) else 0)"

text \<open>A caller that asks until there is no reply; \<open>n\<close> bounds the number of its calls.\<close>

fun drain :: "nat \<Rightarrow> 'h fns \<Rightarrow> redisReader \<Rightarrow> 'h \<Rightarrow> (ptr list \<times> redisReader \<times> 'h) outcome" where
  "drain 0 fn R h = Fault OutOfBounds"
| "drain (Suc n) fn R h =
     obind (redisReaderGetReply fn R h) (\<lambda>(_, p, R1, h1).
       if p = None then Ok ([], R1, h1)
       else obind (drain n fn R1 h1) (\<lambda>(ps, R2, h2). Ok (p # ps, R2, h2)))"

text \<open>A caller that does so after each piece of input.\<close>

fun serve :: "cmem \<Rightarrow> 'h fns \<Rightarrow> redisReader \<Rightarrow> 'h \<Rightarrow> string list \<Rightarrow> (ptr list list \<times> redisReader \<times> 'h) outcome" where
  "serve m fn R h [] = Ok ([], R, h)"
| "serve m fn R h (x # xs) =
     obind (redisReaderFeed m fn R h (Some x) (length x)) (\<lambda>(_, R1, h1).
     obind (drain (length x + 1) fn R1 h1) (\<lambda>(ps, R2, h2).
     obind (serve m fn R2 h2 xs) (\<lambda>(pss, R3, h3). Ok (ps # pss, R3, h3))))"

definition acceptable :: "redisReply \<Rightarrow> bool" where
  "acceptable r \<longleftrightarrow> reply_ok r \<and> reply_depth r \<le> 8"

text \<open>
  What a caller has after some calls: the replies \<open>ps\<close> of \<open>rs\<close> built between the heaps \<open>h0\<close> and \<open>h1\<close>, and
  a reader that waits for the others.
\<close>

definition delivered ::
    "rheap \<Rightarrow> redisReply list \<Rightarrow> nat \<Rightarrow> string \<Rightarrow> ptr list \<times> redisReader \<times> rheap \<Rightarrow> bool" where
  "delivered h0 rs n z res \<longleftrightarrow>
     (case res of (ps, R2, h2) \<Rightarrow> \<exists>h1 v.
        between h1 R2 h2 (drop (length ps) rs) v z \<and> length ps \<le> length rs \<and>
        holds_all (cells h1) (fresh h0) (fresh h1) ps (take (length ps) rs) \<and> fresh h0 \<le> fresh h1 \<and>
        (\<forall>a < fresh h0. cells h1 a = cells h0 a) \<and>
        (\<forall>k. arrived rs (n + k) = length ps + arrived (drop (length ps) rs) (v + k)))"

lemma delivered_none:
  "between h0 R h rs v z \<Longrightarrow> delivered h0 rs v z ([], R, h)"
  by (auto simp: delivered_def intro!: exI [of _ h0] exI [of _ v])

lemma delivered_Cons:
  assumes "delivered h1 rs n z (ps, R2, h2)" and "length (encode_reply r) \<le> v" and "n = v - length (encode_reply r)"
    and "fresh h0 < fresh h1" and "\<forall>a < fresh h0. cells h1 a = cells h0 a"
    and "holds (cells h1) (fresh h0) (fresh h1) (fresh h0) r"
  shows "delivered h0 (r # rs) v z (Some (fresh h0) # ps, R2, h2)"
proof -
  obtain h' w where d: "between h' R2 h2 (drop (length ps) rs) w z" "length ps \<le> length rs"
      "holds_all (cells h') (fresh h1) (fresh h') ps (take (length ps) rs)" "fresh h1 \<le> fresh h'"
      "\<forall>a < fresh h1. cells h' a = cells h1 a"
      "\<forall>k. arrived rs (n + k) = length ps + arrived (drop (length ps) rs) (w + k)"
    using assms(1) by (auto simp: delivered_def)
  have "holds (cells h') (fresh h0) (fresh h1) (fresh h0) r"
    using holds_cong(1) [OF assms(6)] d(5) by simp
  then have "holds_all (cells h') (fresh h0) (fresh h') (Some (fresh h0) # ps) (r # take (length ps) rs)"
    using d(3,4) assms(4) by auto
  moreover have "v + k - length (encode_reply r) = n + k" for k using assms(2,3) by simp
  ultimately show ?thesis
    using d assms(2,4,5) by (auto simp: delivered_def intro!: exI [of _ h'] exI [of _ w])
qed

lemma append_longer:
  assumes "x @ y = u @ z"
  shows "length x \<le> length u \<Longrightarrow> \<exists>u'. u = x @ u' \<and> y = u' @ z"
    and "\<not> length x \<le> length u \<Longrightarrow> \<exists>x'. x = u @ x' \<and> z = x' @ y \<and> x' \<noteq> []"
  using assms by (auto simp: append_eq_append_conv2)

lemma drain_idle:
  "idle R u \<Longrightarrow> allocates h \<Longrightarrow> list_all acceptable rs \<Longrightarrow> concat (map encode_reply rs) = u @ z \<Longrightarrow> length u < n \<Longrightarrow>
     \<exists>res. drain n dF R h = Ok res \<and> delivered h rs (length u) z res"
proof (induction rs arbitrary: R u h n)
  case Nil
  then obtain n' where n: "n = Suc n'" by (cases n) auto
  have e: "u = []" "z = []" using Nil(4) by simp_all
  obtain R1 where R1: "redisReaderGetReply dF R h = Ok (True, None, R1, h)" "buffer_ok R1"
      "started (start_task R1) []" "r_err R1 = 0" "-1 \<le> r_ridx R1"
    using get_empty [of R dF h] start_task_idle [of R "[]"] Nil(1) e by (auto simp: idle_unread)
  have "between h R1 h [] 0 []" using R1 by (simp add: between_def)
  then show ?case using R1(1) n e delivered_none by fastforce
next
  case (Cons r rs)
  then obtain n' where n: "n = Suc n'" by (cases n) auto
  let ?x = "encode_reply r" and ?y = "concat (map encode_reply rs)"
  have ok: "acceptable r" "list_all acceptable rs" "?x @ ?y = u @ z" using Cons.prems by simp_all
  show ?case
  proof (cases "length ?x \<le> length u")
    case True
    then obtain u' where u': "u = ?x @ u'" "?y = u' @ z" using append_longer(1) [OF ok(3)] by blast
    obtain R1 h1 where 1: "redisReaderGetReply dF R h = Ok (True, Some (fresh h), R1, h1)" "idle R1 u'" "allocates h1"
        "fresh h < fresh h1" "\<forall>a < fresh h. cells h1 a = cells h a" "holds (cells h1) (fresh h) (fresh h1) (fresh h) r"
      using getReply_reads [of R r u' h] Cons.prems(1,2) ok(1) u'(1) by (auto simp: acceptable_def)
    have len: "length u' < n'" using Cons.prems(5) u'(1) n encode_reply_nonempty [of r] by (cases ?x) auto
    then obtain ps R2 h2 where 2: "drain n' dF R1 h1 = Ok (ps, R2, h2)" "delivered h1 rs (length u') z (ps, R2, h2)"
      using Cons.IH [OF 1(2,3) ok(2) u'(2) len] by (metis prod_cases3)
    have "delivered h (r # rs) (length u) z (Some (fresh h) # ps, R2, h2)"
      by (rule delivered_Cons [OF 2(2) True _ 1(4-6)]) (simp add: u'(1))
    then show ?thesis using n 1(1) 2(1) by simp
  next
    case False
    then obtain x where x: "?x = u @ x" "z = x @ ?y" "x \<noteq> []" using append_longer(2) [OF ok(3)] by blast
    have "pending h r x R h"
      by (rule idle_pending [OF Cons.prems(1) x(1) [symmetric] Cons.prems(2)]) (use ok(1) in \<open>simp_all add: acceptable_def\<close>)
    from get_pending [OF this x(3)] obtain R1 h1 where R1: "redisReaderGetReply dF R h = Ok (True, None, R1, h1)" "pending h r x R1 h1"
      by blast
    have "between h R1 h1 (r # rs) (length u) z" using R1(2) x by (auto simp: between_def)
    then show ?thesis using R1(1) n delivered_none by fastforce
  qed
qed

text \<open>One piece.\<close>

lemma serve_piece:
  assumes R: "between h0 R h rs v (y @ z)" and m: "\<not> mem_fails m" and rs: "list_all acceptable rs"
  shows "\<exists>R1 res. redisReaderFeed m dF R h (Some y) (length y) = Ok (True, R1, h) \<and>
     drain (length y + 1) dF R1 h = Ok res \<and> delivered h0 rs (v + length y) z res"
proof (cases rs)
  case Nil
  then have e: "y = []" "z = []" "h = h0" "r_err R = 0" "-1 \<le> r_ridx R" "buffer_ok R" "started (start_task R) []"
    using R by (simp_all add: between_def)
  obtain R1 where R1: "redisReaderGetReply dF R h = Ok (True, None, R1, h)" "buffer_ok R1"
      "started (start_task R1) []" "r_err R1 = 0" "-1 \<le> r_ridx R1"
    using get_empty [where fn = dF and h = h, OF e(6,7,4,5)] by blast
  have "between h0 R1 h [] v []" using R1 e by (simp add: between_def)
  then have "delivered h0 [] v [] ([], R1, h)" by (rule delivered_none)
  moreover have "redisReaderFeed m dF R h (Some y) (length y) = Ok (True, R, h)"
    using e(1,4) by (simp add: redisReaderFeed_def)
  moreover have "drain (length y + 1) dF R h = Ok ([], R1, h)" using R1(1) by simp
  ultimately show ?thesis
    unfolding e(1,2) Nil by (intro exI [of _ R] exI [of _ "([], R1, h)"]) (simp del: drain.simps)
next
  case (Cons r rs')
  let ?z = "concat (map encode_reply rs')"
  obtain x where x: "x \<noteq> []" "y @ z = x @ ?z" "length (encode_reply r) = v + length x" "pending h0 r x R h"
    using R Cons by (auto simp: between_def)
  show ?thesis
  proof (cases "length x \<le> length y")
    case True
    then obtain y' where y': "y = x @ y'" "?z = y' @ z" using append_longer(1) [OF x(2) [symmetric]] by blast
    obtain R1 R2 h2 where 1: "redisReaderFeed m dF R h (Some y) (length y) = Ok (True, R1, h)"
        "redisReaderGetReply dF R1 h = Ok (True, Some (fresh h0), R2, h2)" "idle R2 y'" "allocates h2"
        "fresh h0 < fresh h2" "\<forall>a < fresh h0. cells h2 a = cells h0 a"
        "holds (cells h2) (fresh h0) (fresh h2) (fresh h0) r"
      using feed_rest [OF x(4) m x(1), of h y'] y'(1) by auto
    have "length y' < length y" using y'(1) x(1) by (cases x) auto
    moreover have "list_all acceptable rs'" using rs Cons by simp
    ultimately obtain ps R3 h3 where 2: "drain (length y) dF R2 h2 = Ok (ps, R3, h3)" "delivered h2 rs' (length y') z (ps, R3, h3)"
      using drain_idle [OF 1(3,4) _ y'(2)] by (metis prod_cases3)
    have "delivered h0 (r # rs') (v + length y) z (Some (fresh h0) # ps, R3, h3)"
      by (rule delivered_Cons [OF 2(2) _ _ 1(5-7)]) (use x(3) y'(1) in simp_all)
    moreover have "drain (length y + 1) dF R1 h = Ok (Some (fresh h0) # ps, R3, h3)" using 1(2) 2(1) by simp
    ultimately show ?thesis using 1(1) Cons by blast
  next
    case False
    then obtain x' where x': "x = y @ x'" "z = x' @ ?z" "x' \<noteq> []" using append_longer(2) [OF x(2) [symmetric]] by blast
    obtain R1 where R1: "redisReaderFeed m dF R h (Some y) (length y) = Ok (True, R1, h)" "pending h0 r x' R1 h"
      using feed_part [OF _ m, of h0 r y x' R h h] x(4) x'(1) by blast
    obtain R2 h2 where R2: "redisReaderGetReply dF R1 h = Ok (True, None, R2, h2)" "pending h0 r x' R2 h2"
      using get_pending [OF R1(2) x'(3)] by blast
    have "between h0 R2 h2 (r # rs') (v + length y) z" using R2(2) x' x(3) by (auto simp: between_def)
    then have "delivered h0 (r # rs') (v + length y) z ([], R2, h2)" by (rule delivered_none)
    moreover have "drain (length y + 1) dF R1 h = Ok ([], R2, h2)" using R2(1) by simp
    ultimately show ?thesis using R1(1) Cons by blast
  qed
qed

lemma holds_all_append:
  assumes "holds_all c lo mid es rs" and "holds_all c mid hi es' rs'" and "lo \<le> mid" and "mid \<le> hi"
  shows "holds_all c lo hi (es @ es') (rs @ rs')"
  using assms
proof (induction es arbitrary: lo rs)
  case Nil
  then have "rs = []" by (cases rs) auto
  then show ?case using Nil holds_weaken(2) [OF Nil.prems(2)] by simp
next
  case (Cons e es)
  then obtain p r rs1 where c: "e = Some p" "rs = r # rs1" by (cases rs; cases e) auto
  then obtain k where k: "lo \<le> k" "k \<le> mid" "holds c lo k p r" "holds_all c k mid es rs1" using Cons.prems(1) by auto
  show ?case using Cons.IH [OF k(4) Cons.prems(2) k(2) Cons.prems(4)] k Cons.prems(4) c by (auto intro!: bexI [of _ k])
qed

lemma serve_all:
  "between h0 R h rs v (concat pieces) \<Longrightarrow> \<not> mem_fails m \<Longrightarrow> list_all acceptable rs \<Longrightarrow>
     \<exists>pss R2 h2. serve m dF R h pieces = Ok (pss, R2, h2) \<and> length pss = length pieces \<and> fresh h0 \<le> fresh h2 \<and>
       holds_all (cells h2) (fresh h0) (fresh h2) (concat pss) rs \<and> (\<forall>a < fresh h0. cells h2 a = cells h0 a) \<and>
       (\<forall>k \<le> length pieces. length (concat (take k pss)) = arrived rs (v + length (concat (take k pieces))))"
proof (induction pieces arbitrary: h0 R h rs v)
  case Nil
  then have "rs = []" "h = h0" by (auto simp: between_def split: list.split_asm)
  then show ?case by simp
next
  case (Cons y ys)
  obtain R1 ps R2 h2 where 1: "redisReaderFeed m dF R h (Some y) (length y) = Ok (True, R1, h)"
      "drain (length y + 1) dF R1 h = Ok (ps, R2, h2)" "delivered h0 rs (v + length y) (concat ys) (ps, R2, h2)"
    using serve_piece [of h0 R h rs v y "concat ys" m] Cons.prems by (metis concat.simps(2) prod_cases3)
  obtain h1 w where d: "between h1 R2 h2 (drop (length ps) rs) w (concat ys)" "length ps \<le> length rs"
      "holds_all (cells h1) (fresh h0) (fresh h1) ps (take (length ps) rs)" "fresh h0 \<le> fresh h1"
      "\<forall>a < fresh h0. cells h1 a = cells h0 a"
      "\<And>k. arrived rs (v + length y + k) = length ps + arrived (drop (length ps) rs) (w + k)"
    using 1(3) by (auto simp: delivered_def)
  have rs: "list_all acceptable (drop (length ps) rs)" using Cons.prems(3) by (auto simp: list_all_iff dest: in_set_dropD)
  obtain pss R3 h3 where 2: "serve m dF R2 h2 ys = Ok (pss, R3, h3)" "length pss = length ys" "fresh h1 \<le> fresh h3"
      "holds_all (cells h3) (fresh h1) (fresh h3) (concat pss) (drop (length ps) rs)"
      "\<forall>a < fresh h1. cells h3 a = cells h1 a"
      "\<forall>k \<le> length ys. length (concat (take k pss)) = arrived (drop (length ps) rs) (w + length (concat (take k ys)))"
    using Cons.IH [OF d(1) Cons.prems(2) rs] by blast
  have "holds_all (cells h3) (fresh h0) (fresh h1) ps (take (length ps) rs)"
    using holds_cong(2) [OF d(3)] 2(5) by simp
  from holds_all_append [OF this 2(4) d(4) 2(3)]
  have all: "holds_all (cells h3) (fresh h0) (fresh h3) (concat (ps # pss)) rs" by simp
  have start: "arrived rs v = 0"
    using Cons.prems(1) by (auto simp: between_def split: list.split_asm)
  have count: "length (concat (take k (ps # pss))) = arrived rs (v + length (concat (take k (y # ys))))"
    if "k \<le> length (y # ys)" for k
    using that 2(6) start d(6) by (cases k) (simp_all add: add.assoc)
  show ?case using 1(1,2) 2 d(4,5) all count by (auto simp del: drain.simps)
qed

lemma acceptable_all: "list_all (\<lambda>r. reply_ok r \<and> reply_depth r \<le> 8) rs = list_all acceptable rs"
  by (simp add: list_all_iff acceptable_def)

text \<open>C4.
  Replies are delivered as their bytes come in. A client that feeds the pieces of a stream of replies,
  cut anywhere, and after each piece asks for replies until there is none, gets exactly these replies in
  their order; and after every piece it has got as many as the bytes received so far complete, so that no
  reply waits for input that it does not need.
\<close>

theorem redisReader_incremental:
  assumes "redisReaderCreateWithFunctions m = Some R" and "\<not> mem_fails m" and "allocates h"
    and "list_all (\<lambda>r. reply_ok r \<and> reply_depth r \<le> 8) rs"
    and "concat pieces = concat (map encode_reply rs)"
  shows "\<exists>pss R2 h2. serve m defaultFunctions R h pieces = Ok (pss, R2, h2) \<and> length pss = length pieces \<and>
     holds_all (cells h2) (fresh h) (fresh h2) (concat pss) rs \<and>
     (\<forall>k \<le> length pieces. length (concat (take k pss)) = arrived rs (length (concat (take k pieces))))"
proof -
  have idle: "idle R []" by (rule idle_create [OF assms(1)])
  have "between h R h rs 0 (concat pieces)"
  proof (cases rs)
    case Nil
    then show ?thesis using idle start_task_idle [OF idle] assms(5) by (simp add: between_def idle_unread)
  next
    case (Cons r rs')
    then have "pending h r (encode_reply r) R h" using idle_pending [OF idle _ assms(3)] assms(4) by simp
    then show ?thesis using Cons assms(5) encode_reply_nonempty [of r] by (auto simp: between_def)
  qed
  from serve_all [OF this assms(2)] assms(4) show ?thesis by (fastforce simp: acceptable_all)
qed

theorem redisReader_incremental_witness:
  "\<exists>R pss R2 h2. redisReaderCreateWithFunctions demo_mem = Some R \<and>
     serve demo_mem defaultFunctions R empty_heap
       [''*2'' @ [CR], [LF] @ ''+OK'' @ crlf @ ''$3'' @ crlf @ ''a'', ''bc'' @ crlf @ '':-7'', crlf] = Ok (pss, R2, h2) \<and>
     holds_all (cells h2) 0 (fresh h2) (concat pss)
       [Reply_Array [Reply_Status ''OK'', Reply_String ''abc''], Reply_Integer (-7)] \<and>
     length (concat (take 2 pss)) = 0 \<and> length (concat (take 3 pss)) = 1"
proof -
  let ?rs = "[Reply_Array [Reply_Status ''OK'', Reply_String ''abc''], Reply_Integer (-7)]"
  let ?ps = "[''*2'' @ [CR], [LF] @ ''+OK'' @ crlf @ ''$3'' @ crlf @ ''a'', ''bc'' @ crlf @ '':-7'', crlf]"
  have enc: "concat ?ps = concat (map encode_reply ?rs)"
    by (simp add: crlf_def show_long_def show_int_def dec_one_digit digit_char_Suc)
  obtain R where R: "redisReaderCreateWithFunctions demo_mem = Some R"
    by (simp add: redisReaderCreateWithFunctions_def sdsempty_def sdsnewlen_def demo_mem_def Let_def)
  have ok: "list_all (\<lambda>r. reply_ok r \<and> reply_depth r \<le> 8) ?rs" by simp
  obtain pss R2 h2 where s: "serve demo_mem defaultFunctions R empty_heap ?ps = Ok (pss, R2, h2)"
      "holds_all (cells h2) (fresh empty_heap) (fresh h2) (concat pss) ?rs"
      "\<forall>k \<le> length ?ps. length (concat (take k pss)) = arrived ?rs (length (concat (take k ?ps)))"
    using redisReader_incremental [OF R demo_mem_ok empty_heap_allocates ok enc] by blast
  have "length (concat (take 2 pss)) = 0" "length (concat (take 3 pss)) = 1"
    using s(3) [rule_format, of 2] s(3) [rule_format, of 3]
    by (simp_all add: crlf_def show_long_def show_int_def dec_one_digit digit_char_Suc)
  moreover have "holds_all (cells h2) 0 (fresh h2) (concat pss) ?rs" using s(2) by (simp add: empty_heap_def)
  ultimately show ?thesis using R s(1) by blast
qed

end
