(* ===== verification/AsyncReplies.thy ===== *)
theory AsyncReplies
  imports AsyncRun ReaderIncremental
begin

unbundle bit_operations_syntax

text \<open>
  Replies meet callbacks: \<^verbatim>\<open>redisProcessCallbacks\<close> takes the replies that have arrived off the reader, one
  after the other, runs the first waiting callback on each and frees it.
\<close>

section \<open>A connected context that serves replies\<close>

definition listening :: "int \<Rightarrow> redisContext \<Rightarrow> bool" where
  "listening fd c \<longleftrightarrow>
     c_err c = 0 \<and> c_fd c = fd \<and> has_flag c REDIS_CONNECTED \<and> \<not> has_flag c REDIS_BLOCK \<and>
     \<not> has_flag c REDIS_MONITORING \<and> \<not> has_flag c REDIS_DISCONNECTING \<and> \<not> has_flag c REDIS_FREEING"

definition steady :: "int \<Rightarrow> redisContext \<Rightarrow> bool" where
  "steady fd c \<longleftrightarrow> listening fd c \<and> \<not> has_flag c REDIS_SUBSCRIBED"

lemma listening_reader [simp]: "listening fd (c\<lparr>c_reader := r\<rparr>) = listening fd c"
  by (simp add: listening_def has_flag_def)

lemma steady_reader [simp]: "steady fd (c\<lparr>c_reader := r\<rparr>) = steady fd c"
  by (simp add: steady_def has_flag_def)

lemma has_flag_clear: "f AND g = 0 \<Longrightarrow> has_flag (clear_flag f c) g = has_flag c g"
proof -
  assume d: "f AND g = 0"
  have "(c_flags c AND NOT f) AND g = c_flags c AND g"
  proof (rule bit_word_eqI)
    fix n assume "n < LENGTH(32)"
    have "\<not> (bit f n \<and> bit g n)" using d by (metis bit_0_eq bit_and_iff bot_apply bot_bool_def)
    then show "bit ((c_flags c AND NOT f) AND g) n = bit (c_flags c AND g) n"
      using \<open>n < LENGTH(32)\<close> by (auto simp: bit_simps)
  qed
  then show ?thesis by (simp add: has_flag_def clear_flag_def)
qed

lemma cleared_flag: "\<not> has_flag (clear_flag f c) f"
  by (simp add: has_flag_def clear_flag_def word_bw_assocs)

lemma listening_clear:
  assumes "f \<in> {REDIS_IN_CALLBACK, REDIS_SUBSCRIBED}"
  shows "listening fd (clear_flag f c) = listening fd c"
proof -
  have "has_flag (clear_flag f c) g = has_flag c g"
    if "g \<in> {REDIS_CONNECTED, REDIS_BLOCK, REDIS_MONITORING, REDIS_DISCONNECTING, REDIS_FREEING}" for g
    by (rule has_flag_clear) (use that assms in \<open>auto simp: flag_defs\<close>)
  moreover have "c_err (clear_flag f c) = c_err c" "c_fd (clear_flag f c) = c_fd c"
    by (simp_all add: clear_flag_def)
  ultimately show ?thesis by (simp add: listening_def)
qed

lemma subscribed_callback [simp]:
  "has_flag (clear_flag REDIS_IN_CALLBACK c) REDIS_SUBSCRIBED = has_flag c REDIS_SUBSCRIBED"
  by (rule has_flag_clear) (simp add: flag_defs)

lemma listening_callback [simp]: "listening fd (clear_flag REDIS_IN_CALLBACK c) = listening fd c"
  by (rule listening_clear) simp

lemma steady_callback [simp]: "steady fd (clear_flag REDIS_IN_CALLBACK c) = steady fd c"
  by (simp add: steady_def)

text \<open>What serving replies does not change.\<close>

definition unaffected :: "'w redisAsyncContext \<Rightarrow> 'w redisAsyncContext \<Rightarrow> bool" where
  "unaffected ac ac' \<longleftrightarrow>
     c_obuf (ac_c ac') = c_obuf (ac_c ac) \<and> ac_err ac' = ac_err ac \<and> ac_hook ac' = ac_hook ac \<and>
     ac_onConnect ac' = ac_onConnect ac \<and> ac_onDisconnect ac' = ac_onDisconnect ac \<and>
     ac_channels ac' = ac_channels ac \<and> ac_patterns ac' = ac_patterns ac \<and> ac_live ac' = ac_live ac \<and>
     queue Invalid ac' = queue Invalid ac"

lemma unaffected_trans: "unaffected a b \<Longrightarrow> unaffected b c \<Longrightarrow> unaffected a c"
  by (simp add: unaffected_def)

lemma async_get_reply_nonblocking:
  assumes "\<not> has_flag (ac_c ac) REDIS_BLOCK" and "c_reader (ac_c ac) = Some R"
    and "redisReaderGetReply defaultFunctions R (ac_heap ac) = Ok (True, p, R1, h1)"
  shows "async_get_reply m sys ac = Some (Ok (True, p), ac\<lparr>ac_c := (ac_c ac)\<lparr>c_reader := Some R1\<rparr>, ac_heap := h1\<rparr>)"
  using assms
  by (simp add: async_get_reply_def redisGetReply_def redisGetReplyFromReader_def has_flag_def)

lemma async_get_reply_listening:
  assumes "listening fd (ac_c ac)" and "c_reader (ac_c ac) = Some R"
    and "redisReaderGetReply defaultFunctions R (ac_heap ac) = Ok (True, p, R1, h1)"
  shows "async_get_reply m sys ac = Some (Ok (True, p), ac\<lparr>ac_c := (ac_c ac)\<lparr>c_reader := Some R1\<rparr>, ac_heap := h1\<rparr>)"
  by (rule async_get_reply_nonblocking [OF _ assms(2,3)]) (use assms(1) in \<open>simp add: listening_def\<close>)

section \<open>One round\<close>

lemma round_none:
  assumes "listening fd (ac_c ac)" and "c_reader (ac_c ac) = Some R"
    and "redisReaderGetReply defaultFunctions R (ac_heap ac) = Ok (True, None, R1, h1)"
  shows "process_round m sys user cb ac =
     Some (Ok None, ac\<lparr>ac_c := (ac_c ac)\<lparr>c_reader := Some R1\<rparr>, ac_heap := h1\<rparr>)"
  using async_get_reply_listening [OF assms, of m sys] assms(1)
  by (simp add: process_round_def pbind_def ended_def get_def ret_def flag_def listening_def has_flag_def)

definition took :: "(nat \<Rightarrow> redisReply option \<Rightarrow> ptr \<Rightarrow> 'w \<Rightarrow> 'w) \<Rightarrow> redisReply \<Rightarrow> nat option \<times> ptr \<Rightarrow> redisReader \<Rightarrow> rheap \<Rightarrow>
    int \<Rightarrow> 'w redisAsyncContext \<Rightarrow> 'w redisAsyncContext \<Rightarrow> bool" where
  "took act r k R1 h1 fd ac ac' \<longleftrightarrow>
     queues_ok ac' \<and> steady fd (ac_c ac') \<and> c_reader (ac_c ac') = Some R1 \<and>
     ac_world ac' = run_one act (Some r) k (ac_world ac) \<and> (\<exists>c'. ac_heap ac' = h1\<lparr>cells := c'\<rparr>) \<and> unaffected ac ac'"

lemma free_reply_ok:
  assumes "holds (cells (ac_heap ac)) lo (fresh (ac_heap ac)) p r" and "reply_ok r"
  shows "\<exists>c'. free_reply p ac = (Ok (), ac\<lparr>ac_heap := (ac_heap ac)\<lparr>cells := c'\<rparr>\<rparr>)"
proof -
  have "frees lo (fresh (ac_heap ac)) (ac_heap ac) (free_obj (fresh (ac_heap ac)) (Some p) (ac_heap ac))"
    using free_holds(1) [OF assms] by simp
  then show ?thesis by (auto simp: frees_def free_reply_def freeReplyObject_def)
qed

lemma round_reply:
  assumes u: "sees user act" and s: "steady fd (ac_c ac)" and R: "c_reader (ac_c ac) = Some R"
    and g: "redisReaderGetReply defaultFunctions R (ac_heap ac) = Ok (True, Some p, R1, h1)"
    and h: "holds (cells h1) lo (fresh h1) p r" "reply_ok r" and q: "queues_ok ac" "queue Replies ac = k # ks"
  shows "\<exists>cb1 ac'. process_round m sys user cb ac = Some (Ok (Some cb1), ac') \<and> queue Replies ac' = ks \<and>
     took act r k R1 h1 fd ac ac'"
proof -
  let ?a = "ac\<lparr>ac_c := (ac_c ac)\<lparr>c_reader := Some R1\<rparr>, ac_heap := h1\<rparr>"
  have get: "async_get_reply m sys ac = Some (Ok (True, Some p), ?a)" by (rule async_get_reply_listening [where fd = fd, OF _ R g]) (use s in \<open>simp add: steady_def\<close>)
  have "queues_ok ?a" "queue Replies ?a = k # ks" using q by simp_all
  then obtain cb1 l st where sh: "shift_callback Replies ?a = (Ok (Some cb1), (put_list Replies l ?a)\<lparr>ac_store := st\<rparr>)"
      "content cb1 = k" "queues_ok ((put_list Replies l ?a)\<lparr>ac_store := st\<rparr>)"
      "queue Replies ((put_list Replies l ?a)\<lparr>ac_store := st\<rparr>) = ks"
      "queue (other Replies) ((put_list Replies l ?a)\<lparr>ac_store := st\<rparr>) = queue (other Replies) ?a"
    using shift_callback_queue by blast
  let ?b = "(put_list Replies l ?a)\<lparr>ac_store := st\<rparr>"
  let ?c = "after_call act (Some r) cb1 ?b"
  have hb: "ac_heap ?b = h1" "ac_c ?b = (ac_c ac)\<lparr>c_reader := Some R1\<rparr>" "ac_world ?b = ac_world ac" by simp_all
  have "holds (cells (ac_heap ?c)) lo (fresh (ac_heap ?c)) p r" using h(1) hb(1) by simp
  then obtain c' where fr: "free_reply p ?c = (Ok (), ?c\<lparr>ac_heap := (ac_heap ?c)\<lparr>cells := c'\<rparr>\<rparr>)"
    using free_reply_ok h(2) by blast
  let ?d = "?c\<lparr>ac_heap := (ac_heap ?c)\<lparr>cells := c'\<rparr>\<rparr>"
  have rc: "redisReply_callback m p cb ?a = (Ok (Some cb1), ?b)"
    using sh(1) by (simp add: redisReply_callback_def bind_def ret_def)
  have run: "redisRunCallback user cb1 (Some p) ?b = (Ok (), ?c)"
    by (rule redisRunCallback_reply [OF u]) (use h(1) hb(1) in simp)
  have sd: "steady fd (ac_c ?c)" "c_reader (ac_c ?c) = Some R1" "c_obuf (ac_c ?c) = c_obuf (ac_c ac)"
    using s hb(2) by (simp_all add: after_call_def) (simp_all add: clear_flag_def)
  then have nofree: "\<not> flag REDIS_FREEING ?d" by (simp add: steady_def listening_def flag_def)
  have "process_round m sys user cb ac = Some (Ok (Some cb1), ?d)"
  proof (cases "cb_fn cb1")
    case None
    then have "?c = ?b" by (simp add: after_call_def)
    then show ?thesis
      using get rc fr None by (simp add: process_round_def pbind_def ended_def bind_def ret_def)
  next
    case (Some f)
    then show ?thesis
      using get rc run fr nofree by (simp add: process_round_def pbind_def ended_def bind_def ret_def get_def)
  qed
  moreover have inv: "queue Invalid ?d = queue Invalid ac" using sh(5) by simp
  have "ac_err ?d = ac_err ac" "ac_hook ?d = ac_hook ac" "ac_onConnect ?d = ac_onConnect ac"
      "ac_onDisconnect ?d = ac_onDisconnect ac" "ac_channels ?d = ac_channels ac" "ac_patterns ?d = ac_patterns ac"
      "ac_live ?d = ac_live ac"
    by (simp_all add: after_call_def)
  then have "unaffected ac ?d" using sd(3) inv by (simp add: unaffected_def)
  then have "took act r k R1 h1 fd ac ?d"
    using sd sh(2,3) hb by (auto simp: took_def)
  moreover have "queue Replies ?d = ks" using sh(4) by simp
  ultimately show ?thesis by blast
qed

section \<open>The loop over the replies that have arrived\<close>

text \<open>
  From a state with the callbacks \<open>ks\<close> and the replies \<open>rs\<close> to come, of which \<open>n\<close> bytes have arrived: as
  many callbacks have run on their replies, in order, as replies are complete, and the reader waits for
  the others.
\<close>

definition answers :: "(nat \<Rightarrow> redisReply option \<Rightarrow> ptr \<Rightarrow> 'w \<Rightarrow> 'w) \<Rightarrow> (nat option \<times> ptr) list \<Rightarrow> redisReply list \<Rightarrow> 'w \<Rightarrow> 'w" where
  "answers act ks rs = fold (\<lambda>(k, r). run_one act (Some r) k) (zip ks rs)"

definition waits :: "int \<Rightarrow> (nat option \<times> ptr) list \<Rightarrow> redisReply list \<Rightarrow> nat \<Rightarrow> string \<Rightarrow> 'w redisAsyncContext \<Rightarrow> bool" where
  "waits fd ks rs v z ac \<longleftrightarrow>
     steady fd (ac_c ac) \<and> queues_ok ac \<and> queue Replies ac = ks \<and>
     (\<exists>R h0. c_reader (ac_c ac) = Some R \<and> between h0 R (ac_heap ac) rs v z)"

definition answered ::
    "(nat \<Rightarrow> redisReply option \<Rightarrow> ptr \<Rightarrow> 'w \<Rightarrow> 'w) \<Rightarrow> int \<Rightarrow> (nat option \<times> ptr) list \<Rightarrow> redisReply list \<Rightarrow> nat \<Rightarrow> string \<Rightarrow>
     'w redisAsyncContext \<Rightarrow> 'w redisAsyncContext \<Rightarrow> bool" where
  "answered act fd ks rs n z ac ac' \<longleftrightarrow>
     (\<exists>k v. k \<le> length rs \<and> waits fd (drop k ks) (drop k rs) v z ac' \<and>
        ac_world ac' = answers act (take k ks) (take k rs) (ac_world ac) \<and> unaffected ac ac' \<and>
        (\<forall>j. arrived rs (n + j) = k + arrived (drop k rs) (v + j)))"

lemma answered_none:
  assumes "waits fd ks rs v z ac'" and "ac_world ac' = ac_world ac" and "unaffected ac ac'"
  shows "answered act fd ks rs v z ac ac'"
  unfolding answered_def using assms by (intro exI [of _ 0] exI [of _ v]) (simp add: answers_def)

lemma answered_Cons:
  assumes "answered act fd ks rs n z ac1 ac'" and "ac_world ac1 = run_one act (Some r) k (ac_world ac)" and "unaffected ac ac1"
    and "length (encode_reply r) \<le> v" and "n = v - length (encode_reply r)"
  shows "answered act fd (k # ks) (r # rs) v z ac ac'"
proof -
  obtain i w where i: "i \<le> length rs" "waits fd (drop i ks) (drop i rs) w z ac'"
      "ac_world ac' = answers act (take i ks) (take i rs) (ac_world ac1)" "unaffected ac1 ac'"
      "\<forall>j. arrived rs (n + j) = i + arrived (drop i rs) (w + j)"
    using assms(1) by (auto simp: answered_def)
  have "arrived (r # rs) (v + j) = Suc i + arrived (drop i rs) (w + j)" for j
  proof -
    have "v + j - length (encode_reply r) = n + j" using assms(4,5) by simp
    then show ?thesis using i(5) assms(4) by simp
  qed
  moreover have "ac_world ac' = answers act (take (Suc i) (k # ks)) (take (Suc i) (r # rs)) (ac_world ac)"
    using i(3) assms(2) by (simp add: answers_def)
  ultimately show ?thesis
    using i(1,2) unaffected_trans [OF assms(3) i(4)] unfolding answered_def
    by (intro exI [of _ "Suc i"] exI [of _ w]) simp
qed

lemma loop_none:
  assumes "steady fd (ac_c ac)" and "c_reader (ac_c ac) = Some R" and "queues_ok ac" and "queue Replies ac = ks"
    and "redisReaderGetReply defaultFunctions R (ac_heap ac) = Ok (True, None, R1, h1)" and "between h0 R1 h1 rs v z"
  shows "\<exists>ac'. process_loop_async m sys user cb ac = Some (Ok (), ac') \<and> answered act fd ks rs v z ac ac'"
proof -
  let ?a = "ac\<lparr>ac_c := (ac_c ac)\<lparr>c_reader := Some R1\<rparr>, ac_heap := h1\<rparr>"
  have "process_loop_async m sys user cb ac = Some (Ok (), ?a)"
    using round_none [where fd = fd, OF _ assms(2,5)] assms(1) by (subst process_loop_async.simps) (simp add: steady_def)
  moreover have "waits fd ks rs v z ?a" using assms by (auto simp: waits_def)
  then have "answered act fd ks rs v z ac ?a" by (rule answered_none) (simp_all add: unaffected_def)
  ultimately show ?thesis by blast
qed

lemma loop_reply:
  assumes u: "sees user act" and ac: "steady fd (ac_c ac)" "c_reader (ac_c ac) = Some R"
      "queues_ok ac" "queue Replies ac = k # ks"
    and g: "redisReaderGetReply defaultFunctions R (ac_heap ac) = Ok (True, Some p, R1, h1)"
    and h: "holds (cells h1) lo (fresh h1) p r" "reply_ok r"
    and len: "length (encode_reply r) \<le> v" "n = v - length (encode_reply r)"
    and rest: "\<And>cb1 ac1. steady fd (ac_c ac1) \<Longrightarrow> c_reader (ac_c ac1) = Some R1 \<Longrightarrow> queues_ok ac1 \<Longrightarrow> queue Replies ac1 = ks \<Longrightarrow>
      \<exists>c'. ac_heap ac1 = h1\<lparr>cells := c'\<rparr> \<Longrightarrow>
      \<exists>ac'. process_loop_async m sys user cb1 ac1 = Some (Ok (), ac') \<and> answered act fd ks rs n z ac1 ac'"
  shows "\<exists>ac'. process_loop_async m sys user cb ac = Some (Ok (), ac') \<and> answered act fd (k # ks) (r # rs) v z ac ac'"
proof -
  obtain cb1 ac1 where 1: "process_round m sys user cb ac = Some (Ok (Some cb1), ac1)" "queue Replies ac1 = ks"
      "took act r k R1 h1 fd ac ac1"
    using round_reply [OF u ac(1,2) g h ac(3,4)] by blast
  obtain ac' where 2: "process_loop_async m sys user cb1 ac1 = Some (Ok (), ac')" "answered act fd ks rs n z ac1 ac'"
    using rest [of ac1 cb1] 1(2,3) by (auto simp: took_def)
  have "process_loop_async m sys user cb ac = Some (Ok (), ac')"
    using 1(1) 2(1) by (subst process_loop_async.simps) simp
  moreover have "answered act fd (k # ks) (r # rs) v z ac ac'"
    by (rule answered_Cons [OF 2(2) _ _ len]) (use 1(3) in \<open>simp_all add: took_def\<close>)
  ultimately show ?thesis by blast
qed

lemma loop_idle:
  assumes u: "sees user act"
  shows "idle R x \<Longrightarrow> allocates (ac_heap ac) \<Longrightarrow> list_all acceptable rs \<Longrightarrow> concat (map encode_reply rs) = x @ z \<Longrightarrow>
     length rs \<le> length ks \<Longrightarrow> steady fd (ac_c ac) \<Longrightarrow> c_reader (ac_c ac) = Some R \<Longrightarrow> queues_ok ac \<Longrightarrow>
     queue Replies ac = ks \<Longrightarrow>
     \<exists>ac'. process_loop_async m sys user cb ac = Some (Ok (), ac') \<and> answered act fd ks rs (length x) z ac ac'"
proof (induction rs arbitrary: R x ac ks cb)
  case Nil
  have e: "x = []" "z = []" using Nil(4) by simp_all
  obtain R1 where R1: "redisReaderGetReply dF R (ac_heap ac) = Ok (True, None, R1, ac_heap ac)" "buffer_ok R1"
      "started (start_task R1) []" "r_err R1 = 0" "-1 \<le> r_ridx R1"
    using get_empty [where fn = dF and h = "ac_heap ac" and R = R] start_task_idle [of R "[]"] Nil(1) e
    by (auto simp: idle_unread)
  have "between (ac_heap ac) R1 (ac_heap ac) [] 0 []" using R1 by (simp add: between_def)
  from loop_none [OF Nil(6-9) R1(1) this] show ?case by (simp only: e list.size(3))
next
  case (Cons r rs)
  let ?x = "encode_reply r" and ?y = "concat (map encode_reply rs)"
  have ok: "acceptable r" "list_all acceptable rs" "?x @ ?y = x @ z" using Cons.prems by simp_all
  obtain k ks' where ks: "ks = k # ks'" "length rs \<le> length ks'" using Cons.prems(5) by (cases ks) auto
  show ?case
  proof (cases "length ?x \<le> length x")
    case True
    then obtain x' where x': "x = ?x @ x'" "?y = x' @ z" using append_longer(1) [OF ok(3)] by blast
    obtain R1 h1 where 1: "redisReaderGetReply dF R (ac_heap ac) = Ok (True, Some (fresh (ac_heap ac)), R1, h1)" "idle R1 x'"
        "allocates h1" "holds (cells h1) (fresh (ac_heap ac)) (fresh h1) (fresh (ac_heap ac)) r"
      using getReply_reads [of R r x' "ac_heap ac"] Cons.prems(1,2) ok(1) x'(1) by (auto simp: acceptable_def)
    have r: "reply_ok r" using ok(1) by (simp add: acceptable_def)
    have len: "length x' = length x - length ?x" using x'(1) by simp
    show ?thesis
      unfolding ks(1)
    proof (rule loop_reply [OF u Cons.prems(6-8) _ 1(1,4) r True len])
      show "queue Replies ac = k # ks'" using Cons.prems(9) ks(1) by simp
      fix cb1 and ac1 :: "'a redisAsyncContext"
      assume a: "steady fd (ac_c ac1)" "c_reader (ac_c ac1) = Some R1" "queues_ok ac1" "queue Replies ac1 = ks'"
        "\<exists>c'. ac_heap ac1 = h1\<lparr>cells := c'\<rparr>"
      have "allocates (ac_heap ac1)" using a(5) 1(3) by (auto simp: allocates_def)
      from Cons.IH [OF 1(2) this ok(2) x'(2) ks(2) a(1-4)]
      show "\<exists>ac'. process_loop_async m sys user cb1 ac1 = Some (Ok (), ac') \<and> answered act fd ks' rs (length x') z ac1 ac'" .
    qed
  next
    case False
    then obtain x' where x': "?x = x @ x'" "z = x' @ ?y" "x' \<noteq> []" using append_longer(2) [OF ok(3)] by blast
    have "pending (ac_heap ac) r x' R (ac_heap ac)"
      by (rule idle_pending [OF Cons.prems(1) x'(1) [symmetric] Cons.prems(2)]) (use ok(1) in \<open>simp_all add: acceptable_def\<close>)
    from get_pending [OF this x'(3)] obtain R1 h1 where
      R1: "redisReaderGetReply dF R (ac_heap ac) = Ok (True, None, R1, h1)" "pending (ac_heap ac) r x' R1 h1" by blast
    have "between (ac_heap ac) R1 h1 (r # rs) (length x) z" using R1(2) x' by (auto simp: between_def)
    from loop_none [OF Cons.prems(6-9) R1(1) this] show ?thesis .
  qed
qed

text \<open>The loop after more input has been fed.\<close>

lemma loop_fed:
  assumes u: "sees user act" and R: "between h0 R h rs v (y @ z)" and m: "\<not> mem_fails m"
    and rs: "list_all acceptable rs" and ks: "length rs \<le> length ks"
  shows "\<exists>R1. redisReaderFeed m dF R h (Some y) (length y) = Ok (True, R1, h) \<and>
     (\<forall>ac cb. steady fd (ac_c ac) \<longrightarrow> c_reader (ac_c ac) = Some R1 \<longrightarrow> queues_ok ac \<longrightarrow> queue Replies ac = ks \<longrightarrow>
        ac_heap ac = h \<longrightarrow>
        (\<exists>ac'. process_loop_async m sys user cb ac = Some (Ok (), ac') \<and> answered act fd ks rs (v + length y) z ac ac'))"
proof (cases rs)
  case Nil
  then have e: "y = []" "z = []" "h = h0" "r_err R = 0" "-1 \<le> r_ridx R" "buffer_ok R" "started (start_task R) []"
    using R by (simp_all add: between_def)
  obtain R1 where R1: "redisReaderGetReply dF R h = Ok (True, None, R1, h)" "buffer_ok R1"
      "started (start_task R1) []" "r_err R1 = 0" "-1 \<le> r_ridx R1"
    using get_empty [where fn = dF and h = h, OF e(6,7,4,5)] by blast
  have b: "between h0 R1 h [] v []" using R1 e by (simp add: between_def)
  have "redisReaderFeed m dF R h (Some y) (length y) = Ok (True, R, h)"
    using e(1,4) by (simp add: redisReaderFeed_def)
  moreover have "\<exists>ac'. process_loop_async m sys user cb ac = Some (Ok (), ac') \<and> answered act fd ks rs (v + length y) z ac ac'"
    if "steady fd (ac_c ac)" "c_reader (ac_c ac) = Some R" "queues_ok ac" "queue Replies ac = ks" "ac_heap ac = h" for ac cb
    using loop_none [OF that(1-4) _ b, of m sys user cb act] R1(1) that(5) e(1,2) Nil by simp
  ultimately show ?thesis by blast
next
  case (Cons r rs')
  let ?z = "concat (map encode_reply rs')"
  obtain x where x: "x \<noteq> []" "y @ z = x @ ?z" "length (encode_reply r) = v + length x" "pending h0 r x R h"
    using R Cons by (auto simp: between_def)
  obtain k ks' where k: "ks = k # ks'" "length rs' \<le> length ks'" using ks Cons by (cases ks) auto
  have acc: "list_all acceptable rs'" "reply_ok r" using rs Cons by (simp_all add: acceptable_def)
  show ?thesis
  proof (cases "length x \<le> length y")
    case True
    then obtain y' where y': "y = x @ y'" "?z = y' @ z" using append_longer(1) [OF x(2) [symmetric]] by blast
    obtain R1 R2 h2 where 1: "redisReaderFeed m dF R h (Some y) (length y) = Ok (True, R1, h)"
        "redisReaderGetReply dF R1 h = Ok (True, Some (fresh h0), R2, h2)" "idle R2 y'" "allocates h2"
        "holds (cells h2) (fresh h0) (fresh h2) (fresh h0) r"
      using feed_rest [OF x(4) m x(1), of h y'] y'(1) by auto
    have len: "length (encode_reply r) \<le> v + length y" "length y' = v + length y - length (encode_reply r)"
      using x(3) y'(1) by simp_all
    have "\<exists>ac'. process_loop_async m sys user cb ac = Some (Ok (), ac') \<and> answered act fd ks rs (v + length y) z ac ac'"
      if a: "steady fd (ac_c ac)" "c_reader (ac_c ac) = Some R1" "queues_ok ac" "queue Replies ac = ks" "ac_heap ac = h" for ac cb
      unfolding k(1) Cons
    proof (rule loop_reply [OF u a(1-3) _ _ 1(5) acc(2) len])
      show "queue Replies ac = k # ks'" using a(4) k(1) by simp
      show "redisReaderGetReply dF R1 (ac_heap ac) = Ok (True, Some (fresh h0), R2, h2)" using 1(2) a(5) by simp
      fix cb1 and ac1 :: "'a redisAsyncContext"
      assume b: "steady fd (ac_c ac1)" "c_reader (ac_c ac1) = Some R2" "queues_ok ac1" "queue Replies ac1 = ks'"
        "\<exists>c'. ac_heap ac1 = h2\<lparr>cells := c'\<rparr>"
      have "allocates (ac_heap ac1)" using b(5) 1(4) by (auto simp: allocates_def)
      from loop_idle [OF u 1(3) this acc(1) y'(2) k(2) b(1-4)]
      show "\<exists>ac'. process_loop_async m sys user cb1 ac1 = Some (Ok (), ac') \<and> answered act fd ks' rs' (length y') z ac1 ac'" .
    qed
    then show ?thesis using 1(1) by blast
  next
    case False
    then obtain x' where x': "x = y @ x'" "z = x' @ ?z" "x' \<noteq> []" using append_longer(2) [OF x(2) [symmetric]] by blast
    obtain R1 where R1: "redisReaderFeed m dF R h (Some y) (length y) = Ok (True, R1, h)" "pending h0 r x' R1 h"
      using feed_part [OF _ m, of h0 r y x' R h h] x(4) x'(1) by blast
    obtain R2 h2 where R2: "redisReaderGetReply dF R1 h = Ok (True, None, R2, h2)" "pending h0 r x' R2 h2"
      using get_pending [OF R1(2) x'(3)] by blast
    have b: "between h0 R2 h2 rs (v + length y) z" using R2(2) x' x(3) Cons by (auto simp: between_def)
    have "\<exists>ac'. process_loop_async m sys user cb ac = Some (Ok (), ac') \<and> answered act fd ks rs (v + length y) z ac ac'"
      if "steady fd (ac_c ac)" "c_reader (ac_c ac) = Some R1" "queues_ok ac" "queue Replies ac = ks" "ac_heap ac = h" for ac cb
      using loop_none [OF that(1-4) _ b, of m sys user cb act] R2(1) that(5) by simp
    then show ?thesis using R1(1) by blast
  qed
qed

section \<open>The read handler\<close>

text \<open>
  What is relied on of \<^verbatim>\<open>read\<close>: the world carries the pieces the peer's bytes come in, and a call
  returns the next one.
\<close>

definition reads_stream :: "(string list \<times> 'u) system \<Rightarrow> int \<Rightarrow> bool" where
  "reads_stream sys fd \<longleftrightarrow>
     (\<forall>y ys u. y \<noteq> [] \<and> length y \<le> 1024 * 16 \<longrightarrow> sys_read sys fd (1024 * 16) (y # ys, u) = (ReadBytes y, (ys, u)))"

text \<open>Callbacks that do not touch the network.\<close>

definition on_user :: "(nat \<Rightarrow> redisReply option \<Rightarrow> ptr \<Rightarrow> 'u \<Rightarrow> 'u) \<Rightarrow> nat \<Rightarrow> redisReply option \<Rightarrow> ptr \<Rightarrow>
    string list \<times> 'u \<Rightarrow> string list \<times> 'u" where
  "on_user act f r priv w = (fst w, act f r priv (snd w))"

lemma answers_on_user: "answers (on_user act) ks rs w = (fst w, answers act ks rs (snd w))"
proof -
  have "fold (\<lambda>(k, r). run_one (on_user act) (Some r) k) l w = (fst w, fold (\<lambda>(k, r). run_one act (Some r) k) l (snd w))" for l w
    by (induction l arbitrary: w) (auto simp: run_one_def on_user_def split: option.split)
  then show ?thesis by (simp add: answers_def)
qed

lemma handle_read_steady:
  assumes "steady fd (ac_c ac)"
    and "redisBufferRead m sys (ac_c ac, ac_heap ac, ac_world ac) = Ok (True, c1, h1, w1)"
  shows "redisAsyncHandleRead m sys user ac =
     redisProcessCallbacks m sys user
       (ac\<lparr>ac_c := c1, ac_heap := h1, ac_world := w1, ac_trace := ac_trace ac @ (if ac_hook ac AddRead then [AddRead] else [])\<rparr>)"
  using assms
  by (simp add: redisAsyncHandleRead_def ensure_connected_def pbind_def ended_def get_def ret_def flag_def steady_def listening_def
      event_hook_def modify_def)

lemma handle_read:
  assumes u: "sees user (on_user act)" and sys: "reads_stream sys fd" and m: "\<not> mem_fails m"
    and rs: "list_all acceptable rs" "length rs \<le> length ks" and y: "y \<noteq> []" "length y \<le> 1024 * 16"
    and ac: "waits fd ks rs v (y @ z) ac" and w: "ac_world ac = (y # ys, x)"
  shows "\<exists>ac'. redisAsyncHandleRead m sys user ac = Some (Ok (), ac') \<and>
     answered (on_user act) fd ks rs (v + length y) z (ac\<lparr>ac_world := (ys, x)\<rparr>) ac'"
proof -
  obtain R h0 where R: "c_reader (ac_c ac) = Some R" "between h0 R (ac_heap ac) rs v (y @ z)" "steady fd (ac_c ac)"
      "queues_ok ac" "queue Replies ac = ks"
    using ac by (auto simp: waits_def)
  obtain R1 where R1: "redisReaderFeed m dF R (ac_heap ac) (Some y) (length y) = Ok (True, R1, ac_heap ac)"
      "\<forall>ac1 cb. steady fd (ac_c ac1) \<longrightarrow> c_reader (ac_c ac1) = Some R1 \<longrightarrow> queues_ok ac1 \<longrightarrow> queue Replies ac1 = ks \<longrightarrow>
        ac_heap ac1 = ac_heap ac \<longrightarrow>
        (\<exists>ac'. process_loop_async m sys user cb ac1 = Some (Ok (), ac') \<and> answered (on_user act) fd ks rs (v + length y) z ac1 ac')"
    using loop_fed [OF u R(2) m rs, of fd sys] by blast
  let ?c = "(ac_c ac)\<lparr>c_reader := Some R1\<rparr>"
  let ?t = "ac_trace ac @ (if ac_hook ac AddRead then [AddRead] else [])"
  let ?a = "ac\<lparr>ac_c := ?c, ac_heap := ac_heap ac, ac_world := (ys, x), ac_trace := ?t\<rparr>"
  have "redisBufferRead m sys (ac_c ac, ac_heap ac, ac_world ac) = Ok (True, ?c, ac_heap ac, (ys, x))"
    using R(1,3) R1(1) sys y w by (simp add: redisBufferRead_def reads_stream_def steady_def listening_def)
  from handle_read_steady [OF R(3) this] have run: "redisAsyncHandleRead m sys user ac = redisProcessCallbacks m sys user ?a" .
  obtain ac' where ac': "redisProcessCallbacks m sys user ?a = Some (Ok (), ac')" "answered (on_user act) fd ks rs (v + length y) z ?a ac'"
    using R1(2) [rule_format, of ?a "\<lparr>cb_next = None, cb_fn = None, cb_privdata = None\<rparr>"] R
    by (auto simp: redisProcessCallbacks_def)
  have "unaffected (ac\<lparr>ac_world := (ys, x)\<rparr>) ?a" by (simp add: unaffected_def)
  then have "unaffected ?a s \<Longrightarrow> unaffected (ac\<lparr>ac_world := (ys, x)\<rparr>) s" for s using unaffected_trans by blast
  then have "answered (on_user act) fd ks rs (v + length y) z (ac\<lparr>ac_world := (ys, x)\<rparr>) ac'"
    using ac'(2) by (auto simp: answered_def)
  then show ?thesis using run ac'(1) by auto
qed

end
