(* ===== verification/AsyncSession.thy ===== *)
theory AsyncSession
  imports AsyncCommands AsyncReplies SdsTextProperties
begin

unbundle bit_operations_syntax

text \<open>
  A session of the asynchronous client: a new context, commands that queue up while it connects, and the
  read events that bring the replies.
\<close>

section \<open>A new context\<close>

definition unconnected :: "int \<Rightarrow> rheap \<Rightarrow> 'w \<Rightarrow> 'w redisAsyncContext \<Rightarrow> bool" where
  "unconnected fd h w ac \<longleftrightarrow>
     c_err (ac_c ac) = 0 \<and> c_fd (ac_c ac) = fd \<and> c_flags (ac_c ac) = 0 \<and> obuf_holds ac [] \<and>
     (\<exists>R. c_reader (ac_c ac) = Some R \<and> idle R []) \<and> queues_ok ac \<and> (\<forall>q. queue q ac = []) \<and>
     ac_heap ac = h \<and> ac_world ac = w \<and> ac_live ac \<and>
     ac_channels ac = dictInit callbackDict \<and> ac_patterns ac = dictInit callbackDict"

lemma memcmp_0: "length a = length b \<Longrightarrow> memcmp a b (length b) = 0 \<longleftrightarrow> a = b"
  by (induction a b rule: list_induct2) (auto simp: byte_inject)

lemma callbackDict_plain: "plain_keys (dictInit callbackDict)"
  by (auto simp: plain_keys_def callbackDict_def dictInit_def dictCompareHashKeys_def dictSetHashKey_def
      dictSetHashVal_def callbackKeyCompare_def callbackValDup_def Let_def memcmp_0)

lemma redisAsyncInitialize_unconnected:
  assumes "redisContextInit m = Some c" and "redisAsyncInitialize m (c\<lparr>c_fd := fd\<rparr>) h w = Ok (Some ac)"
  shows "unconnected fd h w ac"
proof -
  obtain s R where c: "c = \<lparr>c_err = 0, c_errstr = [], c_fd = 0, c_flags = 0, c_obuf = Some s, c_reader = Some R\<rparr>"
      "sdsempty m = Some s" "redisReaderCreateWithFunctions m = Some R"
    using assms(1) by (auto simp: redisContextInit_def redisReaderCreate_def Let_def split: if_split_asm)
  have d: "d = dictInit callbackDict" if "dictCreate m callbackDict = Ok d" for d :: "(string, redisCallback) dict"
    using that by (simp add: dictCreate_def split: if_split_asm)
  obtain d1 d2 :: "(string, redisCallback) dict" where ac: "ac = \<lparr>ac_c = clear_flag REDIS_CONNECTED (c\<lparr>c_fd := fd\<rparr>), ac_err = 0, ac_errstr = [],
        ac_hook = (\<lambda>e. False), ac_onConnect = False, ac_onDisconnect = False,
        ac_replies = \<lparr>cb_head = None, cb_tail = None\<rparr>, ac_invalid = \<lparr>cb_head = None, cb_tail = None\<rparr>,
        ac_channels = d1, ac_patterns = d2, ac_live = True,
        ac_heap = h, ac_store = Map.empty, ac_next = 0, ac_trace = [], ac_world = w\<rparr>"
      "dictCreate m callbackDict = Ok d1" "dictCreate m callbackDict = Ok d2"
    using assms(2) by (auto simp: redisAsyncInitialize_def split: if_split_asm)
  have "lists_at Replies ac [] []" by (simp add: ac(1) lists_at_def cells_of_def)
  then have q: "queues_ok ac" by (auto simp: queues_ok_def)
  have "queue q ac = []" for q by (cases q) (simp_all add: queue_def ac(1))
  moreover have "wf_sds s \<and> sds_val s = []" using sdsempty_spec [OF c(2)] by simp
  ultimately show ?thesis
    using idle_create [OF c(3)] q d [OF ac(2)] d [OF ac(3)]
    by (simp add: unconnected_def ac(1) c(1) clear_flag_def obuf_holds_def)
qed

section \<open>Commands queue up\<close>

text \<open>The commands a client issues, each with its callback, one after the other.\<close>

type_synonym command = "nat option \<times> ptr \<times> string list"

fun issue_all :: "cmem \<Rightarrow> command list \<Rightarrow> ('w redisAsyncContext, bool list) pop" where
  "issue_all m [] = ended (ret [])"
| "issue_all m ((fn, priv, argv) # cs) =
     pbind (redisAsyncCommandArgv m fn priv (length argv) argv (Some (map length argv))) (\<lambda>r.
     pbind (issue_all m cs) (\<lambda>rs. ended (ret (r # rs))))"

definition callback_of :: "command \<Rightarrow> nat option \<times> ptr" where
  "callback_of c = (fst c, fst (snd c))"

definition ordinary :: "command \<Rightarrow> bool" where
  "ordinary c \<longleftrightarrow> (let argv = snd (snd c) in
     plain argv \<and> length argv < 2 ^ 31 \<and> (\<forall>a \<in> set argv. length a < 2 ^ 64))"

lemma argv_with_lengths:
  "map (arg_bytes argv (Some (map length argv))) [0 ..< length argv] = argv"
  by (rule nth_equalityI) (simp_all add: arg_bytes_def)

lemma redisAsyncCommandArgv_priv:
  assumes "length argv < 2 ^ 31" and "\<forall>a \<in> set argv. length a < 2 ^ 64" and "\<not> mem_fails m"
  shows "redisAsyncCommandArgv m fn priv (length argv) argv (Some (map length argv)) ac =
     redisAsyncCommand_priv m fn priv (resp_request argv) (length (resp_request argv)) ac"
proof -
  obtain s where s: "redisFormatSdsCommandArgv m (length argv) argv (Some (map length argv)) =
        Ok (int (length (resp_request argv)), Some s)" "sds_val s = resp_request argv"
    using redisFormatSdsCommandArgv_request [of "length argv" argv "Some (map length argv)" m] assms
    unfolding argv_with_lengths by (auto simp: arg_length_def)
  then show ?thesis by (simp add: redisAsyncCommandArgv_def pbind_def ended_def lift_def)
qed

definition requests :: "command list \<Rightarrow> string" where
  "requests cs = concat (map (\<lambda>c. resp_request (snd (snd c))) cs)"

lemma issue_all_queues:
  assumes m: "\<not> mem_fails m"
  shows "list_all ordinary cs \<Longrightarrow> queues_ok ac \<Longrightarrow> obuf_holds ac x \<Longrightarrow>
     \<not> flag (REDIS_DISCONNECTING OR REDIS_FREEING) ac \<Longrightarrow> \<not> flag REDIS_SUBSCRIBED ac \<Longrightarrow>
     \<exists>ac'. issue_all m cs ac = Some (Ok (map (\<lambda>_. True) cs), ac') \<and> queues_ok ac' \<and> obuf_holds ac' (x @ requests cs) \<and>
       queue Replies ac' = queue Replies ac @ map callback_of cs \<and> queue Invalid ac' = queue Invalid ac \<and>
       c_flags (ac_c ac') = c_flags (ac_c ac) \<and> ac_channels ac' = ac_channels ac \<and> ac_patterns ac' = ac_patterns ac \<and>
       kept ac ac'"
proof (induction cs arbitrary: ac x)
  case Nil
  then show ?case by (simp add: ended_def ret_def requests_def kept_def)
next
  case (Cons c cs)
  obtain fn priv argv where c: "c = (fn, priv, argv)" by (cases c) auto
  have ord: "length argv < 2 ^ 31" "\<forall>a \<in> set argv. length a < 2 ^ 64" "plain argv" using Cons.prems(1) c by (simp_all add: ordinary_def Let_def)
  obtain ac1 where 1: "redisAsyncCommand_priv m fn priv (resp_request argv) (length (resp_request argv)) ac = Some (Ok True, ac1)"
      "issued Replies (fn, priv) ac x (resp_request argv) ac1"
    using async_command_plain [OF ord(3) Cons.prems(4,2,3) m, of fn priv] Cons.prems(5) by (auto simp: pwp_def)
  have f: "c_flags (ac_c ac1) = c_flags (ac_c ac)" using 1(2) by (simp add: issued_def)
  have fl: "flag g ac1 = flag g ac" for g using f by (simp add: flag_def has_flag_def)
  have i: "queues_ok ac1" "obuf_holds ac1 (x @ resp_request argv)" "queue Replies ac1 = queue Replies ac @ [(fn, priv)]"
      "queue Invalid ac1 = queue Invalid ac" "ac_channels ac1 = ac_channels ac" "ac_patterns ac1 = ac_patterns ac" "kept ac ac1"
    using 1(2) by (simp_all add: issued_def)
  obtain ac2 where 2: "issue_all m cs ac1 = Some (Ok (map (\<lambda>_. True) cs), ac2)" "queues_ok ac2"
      "obuf_holds ac2 ((x @ resp_request argv) @ requests cs)" "queue Replies ac2 = queue Replies ac1 @ map callback_of cs"
      "queue Invalid ac2 = queue Invalid ac1" "c_flags (ac_c ac2) = c_flags (ac_c ac1)" "ac_channels ac2 = ac_channels ac1"
      "ac_patterns ac2 = ac_patterns ac1" "kept ac1 ac2"
    using Cons.IH [of ac1, OF _ i(1,2)] Cons.prems(1,4,5) unfolding fl by auto
  have "issue_all m (c # cs) ac = Some (Ok (map (\<lambda>_. True) (c # cs)), ac2)"
    using 1(1) 2(1) redisAsyncCommandArgv_priv [OF ord(1,2) m, of fn priv ac]
    by (simp add: c pbind_def ended_def ret_def)
  then show ?case
    using 2 i f kept_trans [OF i(7) 2(9)] by (simp add: requests_def c callback_of_def)
qed

section \<open>Read events\<close>

fun handle_reads :: "nat \<Rightarrow> cmem \<Rightarrow> 'w system \<Rightarrow> 'w user \<Rightarrow> ('w redisAsyncContext, unit) pop" where
  "handle_reads 0 m sys user = ended (ret ())"
| "handle_reads (Suc n) m sys user =
     pbind (redisAsyncHandleRead m sys user) (\<lambda>_. handle_reads n m sys user)"

lemma handle_reads_all:
  assumes u: "sees user (on_user act)" and sys: "reads_stream sys fd" and m: "\<not> mem_fails m"
  shows "list_all acceptable rs \<Longrightarrow> length rs \<le> length ks \<Longrightarrow> list_all (\<lambda>y. y \<noteq> [] \<and> length y \<le> 1024 * 16) ys \<Longrightarrow>
     waits fd ks rs v (concat ys @ z) ac \<Longrightarrow> ac_world ac = (ys @ zs, x) \<Longrightarrow>
     \<exists>ac' n. handle_reads (length ys) m sys user ac = Some (Ok (), ac') \<and> n = arrived rs (v + length (concat ys)) \<and>
       ac_world ac' = (zs, answers act (take n ks) (take n rs) x) \<and> queues_ok ac' \<and> queue Replies ac' = drop n ks \<and>
       unaffected ac ac'"
proof (induction ys arbitrary: ks rs v ac x)
  case Nil
  then have "arrived rs v = 0" by (cases rs) (auto simp: waits_def between_def)
  then show ?case using Nil by (simp add: ended_def ret_def answers_def waits_def unaffected_def)
next
  case (Cons y ys)
  have y: "y \<noteq> []" "length y \<le> 1024 * 16" and ys: "list_all (\<lambda>y. y \<noteq> [] \<and> length y \<le> 1024 * 16) ys"
    using Cons.prems(3) by simp_all
  have "waits fd ks rs v (y @ (concat ys @ z)) ac" "ac_world ac = (y # (ys @ zs), x)" using Cons.prems(4,5) by simp_all
  from handle_read [OF u sys m Cons.prems(1,2) y this]
  obtain ac1 where 1: "redisAsyncHandleRead m sys user ac = Some (Ok (), ac1)"
      "answered (on_user act) fd ks rs (v + length y) (concat ys @ z) (ac\<lparr>ac_world := (ys @ zs, x)\<rparr>) ac1" by blast
  then obtain k w where k: "k \<le> length rs" "waits fd (drop k ks) (drop k rs) w (concat ys @ z) ac1"
      "ac_world ac1 = (ys @ zs, answers act (take k ks) (take k rs) x)" "unaffected (ac\<lparr>ac_world := (ys @ zs, x)\<rparr>) ac1"
      "\<And>j. arrived rs (v + length y + j) = k + arrived (drop k rs) (w + j)"
    by (auto simp: answered_def answers_on_user)
  have rs: "list_all acceptable (drop k rs)" "length (drop k rs) \<le> length (drop k ks)"
    using Cons.prems(1,2) by (auto simp: list_all_iff dest: in_set_dropD)
  obtain ac2 n where 2: "handle_reads (length ys) m sys user ac1 = Some (Ok (), ac2)"
      "n = arrived (drop k rs) (w + length (concat ys))"
      "ac_world ac2 = (zs, answers act (take n (drop k ks)) (take n (drop k rs)) (answers act (take k ks) (take k rs) x))"
      "queues_ok ac2" "queue Replies ac2 = drop n (drop k ks)" "unaffected ac1 ac2"
    using Cons.IH [OF rs ys k(2,3)] by blast
  have len: "length (take k ks) = length (take k rs)" using k(1) Cons.prems(2) by simp
  have "answers act (take n (drop k ks)) (take n (drop k rs)) (answers act (take k ks) (take k rs) x) =
      answers act (take (k + n) ks) (take (k + n) rs) x"
    using len by (simp add: answers_def take_add)
  moreover have "unaffected ac ac2"
    using unaffected_trans [OF k(4) 2(6)] by (simp add: unaffected_def)
  moreover have "k + n = arrived rs (v + length (concat (y # ys)))"
    using k(5) [of "length (concat ys)"] 2(2) by (simp add: add.assoc)
  ultimately show ?case
    using 1(1) 2 by (intro exI [of _ ac2] exI [of _ "k + n"]) (simp add: pbind_def add.commute)
qed

lemma arrived_all: "arrived rs (length (concat (map encode_reply rs))) = length rs"
  by (induction rs) auto

lemma arrived_le: "arrived rs n \<le> length rs"
  by (induction rs arbitrary: n) auto

text \<open>An idle reader waits for any replies.\<close>

lemma idle_waits:
  assumes "steady fd (ac_c ac)" and "queues_ok ac" and "queue Replies ac = ks"
    and "c_reader (ac_c ac) = Some R" and "idle R []" and "allocates (ac_heap ac)" and "list_all acceptable rs"
  shows "waits fd ks rs 0 (concat (map encode_reply rs)) ac"
proof -
  have "between (ac_heap ac) R (ac_heap ac) rs 0 (concat (map encode_reply rs))"
  proof (cases rs)
    case Nil
    then show ?thesis using assms(5) start_task_idle [OF assms(5)] by (simp add: between_def idle_unread)
  next
    case (Cons r rs')
    then have "pending (ac_heap ac) r (encode_reply r) R (ac_heap ac)"
      using idle_pending [OF assms(5) _ assms(6)] assms(7) by (simp add: acceptable_def)
    then show ?thesis using Cons encode_reply_nonempty [of r] by (auto simp: between_def)
  qed
  then show ?thesis using assms by (auto simp: waits_def)
qed

text \<open>The first event of a context whose connection has been made.\<close>

lemma handle_read_connects:
  assumes "\<not> flag REDIS_CONNECTED ac" and "sys_sockerror sys (c_fd (ac_c ac)) (ac_world ac) = (SockStatus None, ac_world ac)"
  shows "redisAsyncHandleRead m sys user ac = redisAsyncHandleRead m sys user
     (ac\<lparr>ac_c := set_flag REDIS_CONNECTED (ac_c ac),
         ac_trace := ac_trace ac @ (if ac_onConnect ac then [Connected True] else [])\<rparr>)"
proof -
  let ?b = "ac\<lparr>ac_c := set_flag REDIS_CONNECTED (ac_c ac),
         ac_trace := ac_trace ac @ (if ac_onConnect ac then [Connected True] else [])\<rparr>"
  have c: "has_flag (set_flag REDIS_CONNECTED c) REDIS_CONNECTED" for c
    by (simp add: has_flag_def set_flag_def flag_defs bit.conj_disj_distrib2)
  have "redisAsyncHandleConnect m sys user ac = Some (Ok True, ?b)"
    using assms(2)
    by (cases ac) (simp add: redisAsyncHandleConnect_def redisCheckSocketError_def ended_def bind_def ret_def
        raise_flag_def modify_def)
  then have "ensure_connected m sys user ac = Some (Ok True, ?b)"
    using assms(1) c by (simp add: ensure_connected_def pbind_def ended_def get_def flag_def)
  moreover have "ensure_connected m sys user ?b = Some (Ok True, ?b)"
    using c by (simp add: ensure_connected_def pbind_def ended_def get_def ret_def flag_def)
  ultimately show ?thesis by (simp add: redisAsyncHandleRead_def pbind_def)
qed

end
