(* ===== verification/PubSub.thy ===== *)
theory PubSub
  imports AsyncSession
begin

unbundle bit_operations_syntax

text \<open>
  Messages on a subscribed context: what \<^verbatim>\<open>redisProcessCallbacks\<close> does with each is a step on the two maps
  of subscriptions, the callback kept from the round before, the flag and the world.
\<close>

section \<open>The abstract dispatcher\<close>

record 'w pubsub =
  ps_channels :: "string \<rightharpoonup> redisCallback"
  ps_patterns :: "string \<rightharpoonup> redisCallback"
  ps_last :: redisCallback
  ps_on :: bool
  ps_world :: 'w

type_synonym 'w action = "nat \<Rightarrow> redisReply option \<Rightarrow> ptr \<Rightarrow> 'w \<Rightarrow> 'w"

text \<open>
  A message has a type, a name and more: an unsubscription the number of subscriptions left. A name
  with no subscription leaves the callback of the round before in place.
\<close>

definition is_pattern :: "string \<Rightarrow> bool" where
  "is_pattern ty \<longleftrightarrow> starts_with_p ty = 1"

definition unsubscribes :: "string \<Rightarrow> bool" where
  "unsubscribes ty \<longleftrightarrow> strcasecmp_eq (drop (starts_with_p ty) ty) ''unsubscribe''"

fun message :: "redisReply \<Rightarrow> bool" where
  "message (Reply_Array (Reply_String ty # Reply_String name # rest)) \<longleftrightarrow>
     unsubscribes ty \<longrightarrow> (\<exists>n rest'. rest = Reply_Integer n # rest')"
| "message _ \<longleftrightarrow> False"

definition subscriptions :: "string \<Rightarrow> 'w pubsub \<Rightarrow> string \<rightharpoonup> redisCallback" where
  "subscriptions ty ps = (if is_pattern ty then ps_patterns ps else ps_channels ps)"

definition without :: "string \<Rightarrow> string \<Rightarrow> 'w pubsub \<Rightarrow> 'w pubsub" where
  "without ty name ps =
     (if is_pattern ty then ps\<lparr>ps_patterns := (ps_patterns ps)(name := None)\<rparr>
      else ps\<lparr>ps_channels := (ps_channels ps)(name := None)\<rparr>)"

fun select :: "redisReply \<Rightarrow> 'w pubsub \<Rightarrow> 'w pubsub" where
  "select (Reply_Array (Reply_String ty # Reply_String name # rest)) ps =
     (case subscriptions ty ps name of
        None \<Rightarrow> ps
      | Some cb \<Rightarrow>
          if unsubscribes ty then
            (without ty name ps)\<lparr>ps_last := cb,
               ps_on := ps_on ps \<and> hd rest \<noteq> Reply_Integer 0\<rparr>
          else ps\<lparr>ps_last := cb\<rparr>)"
| "select _ ps = ps"

definition dispatch :: "'w action \<Rightarrow> redisReply \<Rightarrow> 'w pubsub \<Rightarrow> 'w pubsub" where
  "dispatch act r ps =
     (let ps' = select r ps in ps'\<lparr>ps_world := run_one act (Some r) (content (ps_last ps')) (ps_world ps')\<rparr>)"

section \<open>Messages in the heap\<close>

lemma message_cases:
  assumes "message r"
  obtains ty name rest where "r = Reply_Array (Reply_String ty # Reply_String name # rest)"
    and "unsubscribes ty \<Longrightarrow> \<exists>n rest'. rest = Reply_Integer n # rest'"
  using assms by (cases r rule: message.cases) auto

lemma holds_all_Cons:
  assumes "holds_all c lo hi es (r # rs)"
  obtains p es' mid where "es = Some p # es'" and "holds c lo mid p r" and "holds_all c mid hi es' rs"
  using assms by (cases es; cases "hd es") auto

definition string_cell :: "string \<Rightarrow> robj" where
  "string_cell s = \<lparr>ob_type = REDIS_REPLY_STRING, ob_integer = 0, ob_str = Some s, ob_elements = 0, ob_element = None\<rparr>"

definition integer_cell :: "clong \<Rightarrow> robj" where
  "integer_cell n = \<lparr>ob_type = REDIS_REPLY_INTEGER, ob_integer = n, ob_str = None, ob_elements = 0, ob_element = None\<rparr>"

text \<open>What the code reads of a message.\<close>

lemma message_in_heap:
  assumes h: "holds (cells h) lo hi p (Reply_Array (Reply_String ty # Reply_String name # rest))"
    and ok: "reply_ok (Reply_Array (Reply_String ty # Reply_String name # rest))"
  shows "\<exists>ob. cells h p = Some ob \<and> ob_type ob = REDIS_REPLY_ARRAY \<and> \<not> unat (ob_elements ob) < 2 \<and>
     string_element h ob 0 = Ok ty \<and> string_element h ob 1 = Ok name \<and>
     (\<forall>n rest'. rest = Reply_Integer n # rest' \<longrightarrow> reply_element h ob 2 = Ok (integer_cell n))"
proof -
  let ?rs = "Reply_String ty # Reply_String name # rest"
  obtain ob es where ob: "cells h p = Some ob" "ob_type ob = REDIS_REPLY_ARRAY" "ob_elements ob = of_nat (length ?rs)"
      "ob_element ob = Some es" "holds_all (cells h) (p + 1) hi es ?rs"
    using h by (auto split: option.splits)
  obtain p0 es1 m1 where e0: "es = Some p0 # es1" "holds (cells h) (p + 1) m1 p0 (Reply_String ty)" "holds_all (cells h) m1 hi es1 (Reply_String name # rest)"
    using holds_all_Cons [OF ob(5)] .
  obtain p1 es2 m2 where e1: "es1 = Some p1 # es2" "holds (cells h) m1 m2 p1 (Reply_String name)" "holds_all (cells h) m2 hi es2 rest"
    using holds_all_Cons [OF e0(3)] .
  have "length ?rs < 2 ^ 31" using ok by simp
  then have "unat (ob_elements ob) = length ?rs" unfolding ob(3) by (simp only: unat_of_nat) simp
  then have n: "\<not> unat (ob_elements ob) < 2" by simp
  have s: "string_element h ob 0 = Ok ty" "string_element h ob 1 = Ok name"
    using ob(4) e0(1,2) e1(1,2) by (auto simp: string_element_def reply_element_def)
  have i: "reply_element h ob 2 = Ok (integer_cell n)" if r: "rest = Reply_Integer n # rest'" for n rest'
  proof -
    obtain p2 es3 m3 where "es2 = Some p2 # es3" "holds (cells h) m2 m3 p2 (Reply_Integer n)"
      using holds_all_Cons [OF e1(3) [unfolded r]] by metis
    then show ?thesis using ob(4) e0(1) e1(1) by (auto simp: reply_element_def integer_cell_def)
  qed
  show ?thesis using ob(1,2) n s i by blast
qed

section \<open>Finding the callback\<close>

text \<open>A subscribed context and its abstraction.\<close>

definition abstracts :: "int \<Rightarrow> 'w redisAsyncContext \<Rightarrow> redisCallback \<Rightarrow> 'w pubsub \<Rightarrow> bool" where
  "abstracts fd ac cb ps \<longleftrightarrow>
     listening fd (ac_c ac) \<and> queues_ok ac \<and> queue Replies ac = [] \<and>
     dict_ok (ac_channels ac) \<and> dict_ok (ac_patterns ac) \<and>
     ps_channels ps = dict_map (ac_channels ac) \<and> ps_patterns ps = dict_map (ac_patterns ac) \<and>
     ps_last ps = cb \<and> ps_on ps = flag REDIS_SUBSCRIBED ac \<and> ps_world ps = ac_world ac"

lemma table_of:
  assumes "abstracts fd ac cb ps"
  shows "dict_ok (if is_pattern ty then ac_patterns ac else ac_channels ac)"
    and "dict_map (if is_pattern ty then ac_patterns ac else ac_channels ac) = subscriptions ty ps"
  using assms by (simp_all add: abstracts_def subscriptions_def)

lemma getSubscribeCallback:
  assumes a: "abstracts fd ac cb ps" and m: "ample m"
    and r: "r = Reply_Array (Reply_String ty # Reply_String name # rest)"
    and un: "unsubscribes ty \<Longrightarrow> \<exists>n rest'. rest = Reply_Integer n # rest'"
    and h: "holds (cells (ac_heap ac)) lo hi p r" "reply_ok r"
  shows "wp (redisGetSubscribeCallback m p cb) (\<lambda>cb' ac'. abstracts fd ac' cb' (select r ps) \<and> ac_heap ac' = ac_heap ac \<and>
     c_reader (ac_c ac') = c_reader (ac_c ac)) ac"
proof -
  let ?d = "if is_pattern ty then ac_patterns ac else ac_channels ac"
  obtain ob where ob: "cells (ac_heap ac) p = Some ob" "ob_type ob = REDIS_REPLY_ARRAY" "\<not> unat (ob_elements ob) < 2"
      "string_element (ac_heap ac) ob 0 = Ok ty" "string_element (ac_heap ac) ob 1 = Ok name"
      "\<forall>n rest'. rest = Reply_Integer n # rest' \<longrightarrow> reply_element (ac_heap ac) ob 2 = Ok (integer_cell n)"
    using message_in_heap [OF h [unfolded r]] by blast
  have mem: "alloc_ok m n" for n using m by (simp add: ample_def)
  have pv: "(starts_with_p ty = 1) = is_pattern ty" by (simp add: is_pattern_def)
  have find: "dictFind ?d name = Ok (map_option (Pair name) (subscriptions ty ps name))"
    using table_of [OF a, of ty] by (simp add: dictFind_ok)
  show ?thesis
  proof (cases "subscriptions ty ps name")
    case None
    then have "redisGetSubscribeCallback m p cb ac = (Ok cb, ac)"
      using ob(1-5) mem find pv
      by (simp add: redisGetSubscribeCallback_def bind_def lift_def ret_def Let_def)
    then show ?thesis using a r None by (simp add: wp_def)
  next
    case (Some cb')
    show ?thesis
    proof (cases "unsubscribes ty")
      case False
      then have "redisGetSubscribeCallback m p cb ac = (Ok cb', ac)"
        using ob(1-5) mem find pv Some
        by (simp add: redisGetSubscribeCallback_def bind_def lift_def ret_def Let_def unsubscribes_def)
      then show ?thesis using a r Some False by (simp add: wp_def abstracts_def)
    next
      case True
      then obtain n rest' where n: "rest = Reply_Integer n # rest'" using un by blast
      obtain d fs where d: "dictDelete ?d name = Ok (True, d, fs)" "dict_ok d" "dict_map d = (dict_map ?d)(name := None)"
        using dictDelete_ok [OF table_of(1) [OF a, of ty], of name] Some table_of(2) [OF a, of ty] by auto
      let ?b = "if is_pattern ty then ac\<lparr>ac_patterns := d\<rparr> else ac\<lparr>ac_channels := d\<rparr>"
      let ?c = "if n = 0 then ?b\<lparr>ac_c := clear_flag REDIS_SUBSCRIBED (ac_c ?b)\<rparr> else ?b"
      have "redisGetSubscribeCallback m p cb ac = (Ok cb', ?c)"
        using ob(1-5) ob(6) [rule_format, OF n] mem find pv Some d(1) True
        by (cases "is_pattern ty")
           (simp_all add: redisGetSubscribeCallback_def bind_def lift_def ret_def Let_def unsubscribes_def modify_def
             lower_flag_def integer_cell_def)
      moreover have "abstracts fd ?c cb' (select r ps)"
        using a d(2,3) Some True listening_clear [of REDIS_SUBSCRIBED fd "ac_c ac"] cleared_flag
        by (cases "is_pattern ty") (auto simp: abstracts_def r n without_def subscriptions_def flag_def)
      moreover have "ac_heap ?c = ac_heap ac" "c_reader (ac_c ?c) = c_reader (ac_c ac)"
        by (simp_all add: clear_flag_def)
      ultimately show ?thesis by (simp add: wp_def)
    qed
  qed
qed

section \<open>One message, and all of them\<close>

lemma round_message:
  assumes u: "sees user act" and a: "abstracts fd ac cb ps" and on: "ps_on ps" and m: "ample m"
    and R: "c_reader (ac_c ac) = Some R"
    and g: "redisReaderGetReply defaultFunctions R (ac_heap ac) = Ok (True, Some p, R1, h1)"
    and h: "holds (cells h1) lo (fresh h1) p r" "reply_ok r" "message r"
  shows "\<exists>cb1 ac'. process_round m sys user cb ac = Some (Ok (Some cb1), ac') \<and> abstracts fd ac' cb1 (dispatch act r ps) \<and>
     c_reader (ac_c ac') = Some R1 \<and> (\<exists>c'. ac_heap ac' = h1\<lparr>cells := c'\<rparr>)"
proof -
  obtain ty name rest where r: "r = Reply_Array (Reply_String ty # Reply_String name # rest)"
      "unsubscribes ty \<Longrightarrow> \<exists>n rest'. rest = Reply_Integer n # rest'"
    using message_cases [OF h(3)] by metis
  let ?a = "ac\<lparr>ac_c := (ac_c ac)\<lparr>c_reader := Some R1\<rparr>, ac_heap := h1\<rparr>"
  have get: "async_get_reply m sys ac = Some (Ok (True, Some p), ?a)"
    by (rule async_get_reply_listening [where fd = fd, OF _ R g]) (use a in \<open>simp add: abstracts_def\<close>)
  have aa: "abstracts fd ?a cb ps" using a by (simp add: abstracts_def flag_def has_flag_def)
  have ha: "holds (cells (ac_heap ?a)) lo (fresh h1) p r" using h(1) by simp
  obtain cb1 b where b: "redisGetSubscribeCallback m p cb ?a = (Ok cb1, b)" "abstracts fd b cb1 (select r ps)"
      "ac_heap b = h1" "c_reader (ac_c b) = Some R1"
    using getSubscribeCallback [OF aa m r ha h(2)] by (auto simp: wp_def split: prod.split_asm outcome.split_asm)
  have empty: "shift_callback Replies ?a = (Ok None, ?a)"
    by (rule shift_callback_empty) (use aa in \<open>simp_all add: abstracts_def\<close>)
  have cell: "\<exists>ob. cells h1 p = Some ob \<and> ob_type ob \<noteq> REDIS_REPLY_ERROR"
    using h(1) r(1) by (auto simp: reply_types split: option.splits)
  have "flag REDIS_SUBSCRIBED ?a" using aa on by (simp add: abstracts_def)
  then have cb: "redisReply_callback m p cb ?a = (Ok (Some cb1), b)"
    using empty cell b(1) by (auto simp: redisReply_callback_def bind_def get_def ret_def)
  let ?c = "after_call act (Some r) cb1 b"
  have run: "redisRunCallback user cb1 (Some p) b = (Ok (), ?c)"
    by (rule redisRunCallback_reply [OF u]) (use h(1) b(3) in simp)
  have "holds (cells (ac_heap ?c)) lo (fresh (ac_heap ?c)) p r" using h(1) b(3) by simp
  then obtain c' where fr: "free_reply p ?c = (Ok (), ?c\<lparr>ac_heap := (ac_heap ?c)\<lparr>cells := c'\<rparr>\<rparr>)"
    using free_reply_ok h(2) by blast
  let ?d = "?c\<lparr>ac_heap := (ac_heap ?c)\<lparr>cells := c'\<rparr>\<rparr>"
  have "listening fd (ac_c ?c)" using b(2) by (simp add: abstracts_def after_call_def)
  then have nofree: "\<not> flag REDIS_FREEING ?d" by (simp add: listening_def flag_def)
  have "process_round m sys user cb ac = Some (Ok (Some cb1), ?d)"
  proof (cases "cb_fn cb1")
    case None
    then have "?c = b" by (simp add: after_call_def)
    then show ?thesis
      using get cb fr None by (simp add: process_round_def pbind_def ended_def bind_def ret_def)
  next
    case (Some f)
    then show ?thesis
      using get cb run fr nofree by (simp add: process_round_def pbind_def ended_def bind_def ret_def get_def)
  qed
  moreover have "ps_last (select r ps) = cb1" using b(2) by (simp add: abstracts_def)
  then have "abstracts fd ?d cb1 (dispatch act r ps)"
    using b(2) by (auto simp: abstracts_def dispatch_def Let_def flag_def after_call_def run_one_def content_def)
  moreover have "c_reader (ac_c ?d) = Some R1" using b(4) by (simp add: after_call_def clear_flag_def)
  ultimately show ?thesis using b(3) by auto
qed

text \<open>The context is subscribed when each message arrives.\<close>

fun subscribed_for :: "'w action \<Rightarrow> redisReply list \<Rightarrow> 'w pubsub \<Rightarrow> bool" where
  "subscribed_for act [] ps \<longleftrightarrow> True"
| "subscribed_for act (r # rs) ps \<longleftrightarrow> ps_on ps \<and> subscribed_for act rs (dispatch act r ps)"

lemma loop_messages:
  assumes u: "sees user act" and m: "ample m"
  shows "idle R (concat (map encode_reply rs)) \<Longrightarrow> allocates (ac_heap ac) \<Longrightarrow> list_all acceptable rs \<Longrightarrow> list_all message rs \<Longrightarrow>
     subscribed_for act rs ps \<Longrightarrow> abstracts fd ac cb ps \<Longrightarrow> c_reader (ac_c ac) = Some R \<Longrightarrow>
     \<exists>ac' cb'. process_loop_async m sys user cb ac = Some (Ok (), ac') \<and> abstracts fd ac' cb' (fold (dispatch act) rs ps)"
proof (induction rs arbitrary: R ac cb ps)
  case Nil
  obtain R1 where R1: "redisReaderGetReply dF R (ac_heap ac) = Ok (True, None, R1, ac_heap ac)"
    using get_empty [where fn = dF and h = "ac_heap ac" and R = R] start_task_idle [of R "[]"] Nil(1)
    by (auto simp: idle_unread)
  have "listening fd (ac_c ac)" using Nil(6) by (simp add: abstracts_def)
  from round_none [OF this Nil(7) R1]
  have "process_loop_async m sys user cb ac = Some (Ok (), ac\<lparr>ac_c := (ac_c ac)\<lparr>c_reader := Some R1\<rparr>, ac_heap := ac_heap ac\<rparr>)"
    by (subst process_loop_async.simps) simp
  moreover have "abstracts fd (ac\<lparr>ac_c := (ac_c ac)\<lparr>c_reader := Some R1\<rparr>, ac_heap := ac_heap ac\<rparr>) cb ps"
    using Nil(6) by (simp add: abstracts_def flag_def has_flag_def)
  ultimately show ?case by auto
next
  case (Cons r rs)
  have ok: "reply_ok r" "reply_depth r \<le> 8" "list_all acceptable rs" "message r" "list_all message rs" "ps_on ps"
      "subscribed_for act rs (dispatch act r ps)"
    using Cons.prems by (simp_all add: acceptable_def [of r])
  obtain R1 h1 where 1: "redisReaderGetReply dF R (ac_heap ac) = Ok (True, Some (fresh (ac_heap ac)), R1, h1)"
      "idle R1 (concat (map encode_reply rs))" "allocates h1" "holds (cells h1) (fresh (ac_heap ac)) (fresh h1) (fresh (ac_heap ac)) r"
    using getReply_reads [of R r "concat (map encode_reply rs)" "ac_heap ac"] Cons.prems(1,2) ok(1,2) by auto
  obtain cb1 ac1 where 2: "process_round m sys user cb ac = Some (Ok (Some cb1), ac1)" "abstracts fd ac1 cb1 (dispatch act r ps)"
      "c_reader (ac_c ac1) = Some R1" "\<exists>c'. ac_heap ac1 = h1\<lparr>cells := c'\<rparr>"
    using round_message [OF u Cons.prems(6) ok(6) m Cons.prems(7) 1(1,4) ok(1,4)] by blast
  have "allocates (ac_heap ac1)" using 2(4) 1(3) by (auto simp: allocates_def)
  from Cons.IH [OF 1(2) this ok(3,5,7) 2(2,3)] 2(1) show ?case
    by (subst process_loop_async.simps) simp
qed

end
