(* ===== verification/AsyncProperties.thy ===== *)
theory AsyncProperties
  imports AsyncSession
begin

unbundle bit_operations_syntax

text \<open>
  The properties of the asynchronous client: commands and replies meet in order, replies are answered as
  soon as they are complete, and every pending callback runs once, in order, when a context is freed.
\<close>

section \<open>Freeing a context\<close>

lemma redisReaderFree_idle: "r_reply R = None \<Longrightarrow> redisReaderFree defaultFunctions R h = Ok h"
  by (simp add: redisReaderFree_def)

text \<open>What freeing keeps up to its end, and its last steps.\<close>

definition freeing :: "'w redisAsyncContext \<Rightarrow> 'w \<Rightarrow> 'w redisAsyncContext \<Rightarrow> bool" where
  "freeing ac w s \<longleftrightarrow> same_setup (ac\<lparr>ac_channels := ac_channels s\<rparr>) s \<and> ac_world s = w"

lemma freeing_table:
  assumes "sees user act" and "dict_ok (ac_channels ac)" and "dict_ok (ac_patterns ac)" and "ample m"
    and "freeing ac w s"
  shows "ac_channels s = ac_channels ac \<Longrightarrow> pwp (run_table m user ac_channels) (\<lambda>_. freeing ac
       (fold (\<lambda>e. run_one act None (content (snd e))) (concat (d_table (ac_channels ac))) w)) s"
    and "pwp (run_table m user ac_patterns) (\<lambda>_. freeing ac
       (fold (\<lambda>e. run_one act None (content (snd e))) (concat (d_table (ac_patterns ac))) w)) s"
proof -
  have s: "ac_patterns s = ac_patterns ac" using assms(5) by (simp add: freeing_def same_setup_def)
  show "pwp (run_table m user ac_patterns) (\<lambda>_. freeing ac
       (fold (\<lambda>e. run_one act None (content (snd e))) (concat (d_table (ac_patterns ac))) w)) s"
    by (rule pwp_mono [OF run_table_all [OF assms(1)]])
       (use assms s in \<open>auto simp: freeing_def same_setup_def\<close>)
  assume c: "ac_channels s = ac_channels ac"
  show "pwp (run_table m user ac_channels) (\<lambda>_. freeing ac
       (fold (\<lambda>e. run_one act None (content (snd e))) (concat (d_table (ac_channels ac))) w)) s"
    by (rule pwp_mono [OF run_table_all [OF assms(1)]])
       (use assms c in \<open>auto simp: freeing_def same_setup_def\<close>)
qed

lemma freeing_pending:
  assumes "sees user act" and "queues_ok ac"
  shows "pwp (pbind (run_pending user Replies) (\<lambda>_. run_pending user Invalid))
     (\<lambda>_ s. freeing ac (fold (run_one act None) (queue Replies ac @ queue Invalid ac) (ac_world ac)) s \<and>
        ac_channels s = ac_channels ac) ac"
  unfolding pwp_pbind
  apply (rule pwp_mono [OF run_pending_all [OF assms refl]])
  apply (rule pwp_mono [OF run_pending_all [OF assms(1) _ refl]])
  apply (auto simp: freeing_def same_setup_def)
  done

text \<open>The last steps: the event library's cleanup, the disconnect callback, the connection.\<close>

definition closing :: "'w system \<Rightarrow> 'w redisAsyncContext \<Rightarrow> 'w \<Rightarrow> 'w redisAsyncContext \<Rightarrow> bool" where
  "closing sys ac w ac' \<longleftrightarrow>
     \<not> ac_live ac' \<and> ac_heap ac' = ac_heap ac \<and>
     ac_world ac' = (if c_fd (ac_c ac) > 0 then sys_close sys (c_fd (ac_c ac)) w else w) \<and>
     ac_trace ac' = ac_trace ac @ (if ac_hook ac Cleanup then [Cleanup] else []) @
       (if ac_onDisconnect ac \<and> flag REDIS_CONNECTED ac
        then [Disconnected (flag REDIS_FREEING ac \<or> ac_err ac = 0)] else [])"

lemma flag_clear_in_callback:
  "has_flag (clear_flag REDIS_IN_CALLBACK c) REDIS_CONNECTED = has_flag c REDIS_CONNECTED"
  "has_flag (clear_flag REDIS_IN_CALLBACK c) REDIS_FREEING = has_flag c REDIS_FREEING"
  by (simp_all add: has_flag_def clear_flag_def flag_defs word_bw_assocs)

lemma pwp_then:
  assumes "pwp a (\<lambda>_. P) s" and "\<And>x s'. P s' \<Longrightarrow> pwp (f x) Q s'"
  shows "pwp (pbind a f) Q s"
  unfolding pwp_pbind using assms(1) by (rule pwp_mono) (rule assms(2))

lemma pwp_then2:
  assumes "pwp (pbind a (\<lambda>_. b)) (\<lambda>_. P) s" and "\<And>x s'. P s' \<Longrightarrow> pwp (f x) Q s'"
  shows "pwp (pbind a (\<lambda>_. pbind b f)) Q s"
  unfolding pwp_pbind
  using assms(1) [unfolded pwp_pbind]
  by (rule pwp_mono) (simp, erule pwp_mono, erule assms(2))

lemma closing_end:
  assumes f: "freeing ac w s" and R: "case c_reader (ac_c ac) of None \<Rightarrow> True | Some R \<Rightarrow> r_reply R = None"
  shows "wp (bind (modify (\<lambda>ac. ac\<lparr>ac_patterns := fst (dictClear (ac_patterns ac))\<rparr>)) (\<lambda>_.
           bind (event_hook Cleanup) (\<lambda>_.
           bind (modify (\<lambda>ac.
             if ac_onDisconnect ac \<and> flag REDIS_CONNECTED ac then
               ac\<lparr>ac_trace := ac_trace ac @
                    [Disconnected (if flag REDIS_FREEING ac then True else ac_err ac = 0)]\<rparr>
             else ac)) (\<lambda>_. \<lambda>ac.
             case redisFree sys (Some (ac_c ac)) (ac_heap ac) (ac_world ac) of
               Fault e \<Rightarrow> (Fault e, ac)
             | Ok (h1, w1) \<Rightarrow>
                 (Ok (), ac\<lparr>ac_heap := h1, ac_world := w1, ac_live := False\<rparr>))))) (\<lambda>_. closing sys ac w) s"
proof -
  have s: "ac_err s = ac_err ac" "ac_hook s = ac_hook ac" "ac_onDisconnect s = ac_onDisconnect ac"
      "ac_heap s = ac_heap ac" "ac_trace s = ac_trace ac" "ac_world s = w"
      "ac_c s = ac_c ac \<or> ac_c s = clear_flag REDIS_IN_CALLBACK (ac_c ac)"
    using f by (auto simp: freeing_def same_setup_def)
  have c: "c_fd (ac_c s) = c_fd (ac_c ac)" "c_reader (ac_c s) = c_reader (ac_c ac)"
      "has_flag (ac_c s) REDIS_CONNECTED = has_flag (ac_c ac) REDIS_CONNECTED"
      "has_flag (ac_c s) REDIS_FREEING = has_flag (ac_c ac) REDIS_FREEING"
    using s(7) flag_clear_in_callback by (auto simp: clear_flag_def)
  have free: "redisFree sys (Some (ac_c s)) (ac_heap ac) w =
      Ok (ac_heap ac, if c_fd (ac_c ac) > 0 then sys_close sys (c_fd (ac_c ac)) w else w)"
    using R c(1,2) by (simp add: redisFree_def redisReaderFree_idle split: option.splits)
  show ?thesis
  proof (cases "ac_onDisconnect ac \<and> has_flag (ac_c ac) REDIS_CONNECTED")
    case True
    then show ?thesis using s(1-6) c free by (simp add: flag_def) (simp add: wp_def closing_def flag_def)
  next
    case False
    then show ?thesis using s(1-6) c free by (simp add: flag_def) (simp add: wp_def closing_def flag_def)
  qed
qed

lemma redisAsyncFree_priv_all:
  assumes u: "sees user act" and ok: "queues_ok ac" and live: "ac_live ac"
    and d: "dict_ok (ac_channels ac)" "dict_ok (ac_patterns ac)" "ample m"
    and R: "case c_reader (ac_c ac) of None \<Rightarrow> True | Some R \<Rightarrow> r_reply R = None"
  shows "pwp (redisAsyncFree_priv m sys user) (\<lambda>_. closing sys ac
      (fold (run_one act None)
         (queue Replies ac @ queue Invalid ac @ map (content \<circ> snd) (concat (d_table (ac_channels ac))) @
          map (content \<circ> snd) (concat (d_table (ac_patterns ac)))) (ac_world ac))) ac"
  unfolding redisAsyncFree_priv_def
  apply (simp only: pwp_pbind [of "ended _"] pwp_ended wp_get live not_True_eq_False if_False)
  apply (rule pwp_then2 [OF freeing_pending [OF u ok]], elim conjE)
  apply (rule pwp_then [OF freeing_table(1) [OF u d]], assumption+)
  apply (simp only: pwp_pbind [of "ended _"] pwp_ended wp_modify)
  apply (rule pwp_then [OF freeing_table(2) [where w = "fold (\<lambda>e. run_one act None (content (snd e)))
        (concat (d_table (ac_channels ac))) (fold (run_one act None) (queue Replies ac @ queue Invalid ac) (ac_world ac))",
        OF u d]])
  subgoal by (simp add: freeing_def same_setup_def)
  subgoal premises p
    using closing_end [OF p(4) R, where sys = sys] unfolding pwp_ended
    by (simp only: fold_append fold_map comp_def)
  done

text \<open>C10.
  Freeing a context outside a callback runs every pending callback exactly once with no reply: those of
  the commands in the order they were issued, those of commands issued while subscribed, then those of
  each subscribed channel and each pattern; after them the context is gone, its descriptor is closed, and
  the event library's cleanup and the disconnect callback have been called, in this order.
\<close>

theorem redisAsyncFree_runs_all:
  assumes "sees user act" and "queues_ok ac" and "ac_live ac" and "\<not> flag REDIS_IN_CALLBACK ac"
    and "dict_ok (ac_channels ac)" and "dict_ok (ac_patterns ac)" and "ample m"
    and "\<And>R. c_reader (ac_c ac) = Some R \<Longrightarrow> r_reply R = None"
  shows "\<exists>ac' chs pats w. redisAsyncFree m sys user ac = Some (Ok (), ac') \<and>
     distinct (map fst chs) \<and> map_of chs = dict_map (ac_channels ac) \<and>
     distinct (map fst pats) \<and> map_of pats = dict_map (ac_patterns ac) \<and>
     w = fold (run_one act None)
       (queue Replies ac @ queue Invalid ac @ map (content \<circ> snd) chs @ map (content \<circ> snd) pats) (ac_world ac) \<and>
     ac_world ac' = (if c_fd (ac_c ac) > 0 then sys_close sys (c_fd (ac_c ac)) w else w) \<and> \<not> ac_live ac' \<and>
     ac_trace ac' = ac_trace ac @ (if ac_hook ac Cleanup then [Cleanup] else []) @
       (if ac_onDisconnect ac \<and> flag REDIS_CONNECTED ac then [Disconnected True] else [])"
proof -
  let ?a = "ac\<lparr>ac_c := set_flag REDIS_FREEING (ac_c ac)\<rparr>"
  have keep: "has_flag (set_flag REDIS_FREEING c) REDIS_IN_CALLBACK = has_flag c REDIS_IN_CALLBACK"
      "has_flag (set_flag REDIS_FREEING c) REDIS_CONNECTED = has_flag c REDIS_CONNECTED"
      "has_flag (set_flag REDIS_FREEING c) REDIS_FREEING" for c
    by (simp_all add: has_flag_def set_flag_def flag_defs bit.conj_disj_distrib2)
  have R: "case c_reader (ac_c ?a) of None \<Rightarrow> True | Some R \<Rightarrow> r_reply R = None"
    using assms(8) by (simp add: set_flag_def split: option.split)
  have run: "redisAsyncFree m sys user ac = redisAsyncFree_priv m sys user ?a"
    using assms(4) keep(1) by (simp add: redisAsyncFree_def pbind_def ended_def get_def raise_flag_def modify_def flag_def)
  have "pwp (redisAsyncFree_priv m sys user) (\<lambda>_. closing sys ?a
      (fold (run_one act None)
         (queue Replies ?a @ queue Invalid ?a @ map (content \<circ> snd) (concat (d_table (ac_channels ?a))) @
          map (content \<circ> snd) (concat (d_table (ac_patterns ?a)))) (ac_world ?a))) ?a"
    by (rule redisAsyncFree_priv_all [OF assms(1) _ _ _ _ assms(7) R]) (use assms in simp_all)
  then obtain ac' where ac': "redisAsyncFree_priv m sys user ?a = Some (Ok (), ac')"
      "closing sys ?a (fold (run_one act None)
         (queue Replies ac @ queue Invalid ac @ map (content \<circ> snd) (concat (d_table (ac_channels ac))) @
          map (content \<circ> snd) (concat (d_table (ac_patterns ac)))) (ac_world ac)) ac'"
    by (auto simp: pwp_def)
  have "distinct (map fst (concat (d_table (ac_channels ac))))" "distinct (map fst (concat (d_table (ac_patterns ac))))"
    using assms(5,6) distinct_entries by (auto simp: dict_ok_def)
  moreover have "map_of (concat (d_table (ac_channels ac))) = dict_map (ac_channels ac)"
      "map_of (concat (d_table (ac_patterns ac))) = dict_map (ac_patterns ac)"
    by (rule dict_map_entries [OF assms(5), symmetric], rule dict_map_entries [OF assms(6), symmetric])
  moreover have "c_fd (set_flag REDIS_FREEING (ac_c ac)) = c_fd (ac_c ac)" by (simp add: set_flag_def)
  ultimately show ?thesis
    using ac' keep unfolding run closing_def
    by (intro exI [of _ ac'] exI [of _ "concat (d_table (ac_channels ac))"] exI [of _ "concat (d_table (ac_patterns ac))"])
       (auto simp: flag_def)
qed

section \<open>A concrete client\<close>

text \<open>A peer that accepts everything and sends prepared pieces; a user who writes down the replies.\<close>

definition demo_sys :: "(string list \<times> 'u) system" where
  "demo_sys = \<lparr>sys_read = (\<lambda>fd n (ys, u). case ys of [] \<Rightarrow> (ReadError EAGAIN, (ys, u))
       | y # ys' \<Rightarrow> if length y \<le> n then (ReadBytes y, (ys', u)) else (ReadBytes (take n y), (drop n y # ys', u))),
     sys_write = (\<lambda>fd t w. (Wrote (length t), w)), sys_close = (\<lambda>fd w. w),
     sys_sockerror = (\<lambda>fd w. (SockStatus None, w)), sys_strerror = (\<lambda>e. [])\<rparr>"

type_synonym logbook = "(nat \<times> string option) list"

definition demo_user :: "(string list \<times> logbook) user" where
  "demo_user f p priv ac = (Ok (), ac\<lparr>ac_world := (fst (ac_world ac), snd (ac_world ac) @
     [(f, case Option.bind p (cells (ac_heap ac)) of None \<Rightarrow> None
          | Some ob \<Rightarrow> if ob_type ob = REDIS_REPLY_STATUS then ob_str ob else None)])\<rparr>)"

definition demo_act :: "nat \<Rightarrow> redisReply option \<Rightarrow> ptr \<Rightarrow> logbook \<Rightarrow> logbook" where
  "demo_act f r priv w = w @ [(f, case r of Some (Reply_Status s) \<Rightarrow> Some s | _ \<Rightarrow> None)]"

lemma demo_sees: "sees demo_user (on_user demo_act)"
  unfolding sees_def
proof (intro conjI allI impI)
  fix f p priv r lo hi and ac :: "(string list \<times> logbook) redisAsyncContext"
  assume "holds (cells (ac_heap ac)) lo hi p r"
  then show "demo_user f (Some p) priv ac = (Ok (), ac\<lparr>ac_world := on_user demo_act f (Some r) priv (ac_world ac)\<rparr>)"
    by (cases r) (auto simp: demo_user_def demo_act_def on_user_def reply_types split: option.split_asm)
qed (simp add: demo_user_def demo_act_def on_user_def)

lemma demo_reads: "reads_stream demo_sys fd"
  by (simp add: reads_stream_def demo_sys_def)

lemma demo_context:
  "\<exists>c ac. redisContextInit demo_mem = Some c \<and>
     redisAsyncInitialize demo_mem (c\<lparr>c_fd := 5\<rparr>) empty_heap w = Ok (Some ac)"
  by (simp add: redisContextInit_def redisReaderCreate_def redisReaderCreateWithFunctions_def sdsempty_def
      sdsnewlen_def demo_mem_def Let_def redisAsyncInitialize_def dictCreate_def)

lemma demo_plain: "plain [''PING'']" "plain [''SET'', ''k'', ''v'']"
proof -
  have "command_of [''PING''] = ''ing''" by code_simp
  then show "plain [''PING'']" by (simp add: plain_def good_name_def)
  have "command_of [''SET'', ''k'', ''v''] = ''set''" by code_simp
  then show "plain [''SET'', ''k'', ''v'']" by (simp add: plain_def good_name_def)
qed

lemma demo_commands: "list_all ordinary [(Some 1, None, [''PING'']), (Some 2, None, [''SET'', ''k'', ''v''])]"
  using demo_plain by (simp add: ordinary_def)

theorem redisAsyncFree_runs_all_witness:
  "\<exists>ac ac1 ac'. redisAsyncInitialize demo_mem (the (redisContextInit demo_mem)\<lparr>c_fd := 5\<rparr>) empty_heap ([], []) = Ok (Some ac) \<and>
     issue_all demo_mem [(Some 1, None, [''PING'']), (Some 2, None, [''SET'', ''k'', ''v''])] ac = Some (Ok [True, True], ac1) \<and>
     redisAsyncFree demo_mem demo_sys demo_user ac1 = Some (Ok (), ac') \<and>
     snd (ac_world ac') = [(1, None), (2, None)] \<and> \<not> ac_live ac'"
proof -
  let ?cs = "[(Some 1, None, [''PING'']), (Some 2, None, [''SET'', ''k'', ''v''])] :: command list"
  obtain c ac where ac: "redisContextInit demo_mem = Some c"
      "redisAsyncInitialize demo_mem (c\<lparr>c_fd := 5\<rparr>) empty_heap ([] :: string list, [] :: logbook) = Ok (Some ac)"
    using demo_context [of "([] :: string list, [] :: logbook)"] by blast
  have un: "unconnected 5 empty_heap ([], []) ac" by (rule redisAsyncInitialize_unconnected [OF ac])
  then have f: "queues_ok ac" "obuf_holds ac []" "\<not> flag g ac" for g
    by (simp_all add: unconnected_def flag_def has_flag_def)
  obtain ac1 where ac1: "issue_all demo_mem ?cs ac = Some (Ok (map (\<lambda>_. True) ?cs), ac1)" "queues_ok ac1"
      "queue Replies ac1 = queue Replies ac @ map callback_of ?cs" "queue Invalid ac1 = queue Invalid ac"
      "c_flags (ac_c ac1) = c_flags (ac_c ac)" "ac_channels ac1 = ac_channels ac" "ac_patterns ac1 = ac_patterns ac" "kept ac ac1"
    using issue_all_queues [OF demo_mem_ok demo_commands f f(3)] by blast
  have "ample demo_mem" by (simp add: ample_def demo_mem_def)
  moreover have "dict_ok (ac_channels ac1)" "dict_ok (ac_patterns ac1)" "dict_map (ac_channels ac1) = Map.empty" "dict_map (ac_patterns ac1) = Map.empty"
    using un ac1(6,7) fresh_ok [OF callbackDict_plain] by (simp_all add: unconnected_def)
  moreover have "ac_live ac1" "r_reply R = None" if "c_reader (ac_c ac1) = Some R" for R
    using un ac1(8) that by (auto simp: unconnected_def kept_def idle_def)
  moreover have "ac_live ac1" using un ac1(8) by (auto simp: unconnected_def kept_def)
  moreover have "\<not> flag REDIS_IN_CALLBACK ac1" using un ac1(5) by (simp add: unconnected_def flag_def has_flag_def)
  ultimately obtain ac' chs pats w where r: "redisAsyncFree demo_mem demo_sys demo_user ac1 = Some (Ok (), ac')"
      "map_of chs = Map.empty" "map_of pats = Map.empty"
      "w = fold (run_one (on_user demo_act) None)
        (queue Replies ac1 @ queue Invalid ac1 @ map (content \<circ> snd) chs @ map (content \<circ> snd) pats) (ac_world ac1)"
      "ac_world ac' = (if c_fd (ac_c ac1) > 0 then sys_close demo_sys (c_fd (ac_c ac1)) w else w)" "\<not> ac_live ac'"
    using redisAsyncFree_runs_all [OF demo_sees ac1(2), of demo_mem demo_sys] by fastforce
  have "chs = []" "pats = []" using r(2,3) by (auto simp: map_of_eq_empty_iff)
  moreover have "queue Replies ac = []" "queue Invalid ac = []" "ac_world ac1 = ([], [])"
    using un ac1(8) by (auto simp: unconnected_def kept_def)
  ultimately have "snd (ac_world ac') = [(1, None), (2, None)]"
    using r(4,5) ac1(3,4)
    by (simp add: callback_of_def run_one_def on_user_def demo_act_def demo_sys_def)
  then show ?thesis using ac ac1(1) r(1,6) by auto
qed

section \<open>Sessions\<close>

text \<open>C9.
  Replies are answered as they arrive. On a connected context whose commands are not about
  subscriptions, the read events pass the peer's bytes on in whatever pieces they come: after \<open>i\<close> events
  exactly the callbacks of the replies completed so far have run, the k-th callback once and on the k-th
  reply, in the order of the commands; the others still wait, and no event fails.
\<close>

theorem redisAsyncHandleRead_answers:
  assumes "sees user (on_user act)" and "reads_stream sys fd" and "\<not> mem_fails m"
    and "steady fd (ac_c ac)" and "queues_ok ac" and "c_reader (ac_c ac) = Some R" and "idle R []" and "allocates (ac_heap ac)"
    and "list_all acceptable rs" and "length rs \<le> length (queue Replies ac)"
    and "list_all (\<lambda>y. y \<noteq> [] \<and> length y \<le> 1024 * 16) pieces"
    and "concat pieces = concat (map encode_reply rs)" and "ac_world ac = (pieces, u)" and "i \<le> length pieces"
  shows "\<exists>ac' n. handle_reads i m sys user ac = Some (Ok (), ac') \<and> n = arrived rs (length (concat (take i pieces))) \<and>
     queue Replies ac' = drop n (queue Replies ac) \<and>
     ac_world ac' = (drop i pieces,
       fold (\<lambda>(k, r). run_one act (Some r) k) (zip (take n (queue Replies ac)) (take n rs)) u)"
proof -
  have "concat (map encode_reply rs) = concat (take i pieces) @ concat (drop i pieces)"
    using assms(12) by (metis append_take_drop_id concat_append)
  then have "waits fd (queue Replies ac) rs 0 (concat (take i pieces) @ concat (drop i pieces)) ac"
    using idle_waits [OF assms(4,5) refl assms(6-9)] by simp
  moreover have "list_all (\<lambda>y. y \<noteq> [] \<and> length y \<le> 1024 * 16) (take i pieces)"
    using assms(11) by (auto simp: list_all_iff dest: in_set_takeD)
  moreover have "ac_world ac = (take i pieces @ drop i pieces, u)" using assms(13) by simp
  ultimately obtain ac' n where "handle_reads (length (take i pieces)) m sys user ac = Some (Ok (), ac')"
      "n = arrived rs (0 + length (concat (take i pieces)))" "ac_world ac' = (drop i pieces, answers act (take n (queue Replies ac)) (take n rs) u)"
      "queue Replies ac' = drop n (queue Replies ac)"
    using handle_reads_all [OF assms(1-3,9,10)] by blast
  moreover have "length (take i pieces) = i" using assms(14) by simp
  ultimately show ?thesis by (auto simp: answers_def)
qed

text \<open>C6.
  A session of the asynchronous client. From a new context, any commands that are not about
  subscriptions may be issued before the connection is there: every call succeeds and the output buffer
  holds the requests in order. The first read event finds the connection made; once the replies have been
  read, in any pieces, every command's callback has run exactly once, on the reply to that command, in the
  order of the commands, and none is left.
\<close>

theorem async_session:
  assumes "redisContextInit m = Some c" and "redisAsyncInitialize m (c\<lparr>c_fd := fd\<rparr>) h (pieces, u) = Ok (Some ac)"
    and "\<not> mem_fails m" and "allocates h" and "sees user (on_user act)" and "reads_stream sys fd"
    and "\<And>w. sys_sockerror sys fd w = (SockStatus None, w)"
    and "list_all ordinary cs" and "list_all acceptable rs" and "length rs = length cs"
    and "list_all (\<lambda>y. y \<noteq> [] \<and> length y \<le> 1024 * 16) pieces" and "concat pieces = concat (map encode_reply rs)"
  shows "\<exists>ac1 ac2. issue_all m cs ac = Some (Ok (map (\<lambda>_. True) cs), ac1) \<and> obuf_holds ac1 (requests cs) \<and>
     handle_reads (length pieces) m sys user ac1 = Some (Ok (), ac2) \<and> queue Replies ac2 = [] \<and>
     ac_world ac2 = ([], fold (\<lambda>(k, r). run_one act (Some r) k) (zip (map callback_of cs) rs) u)"
proof -
  have un: "unconnected fd h (pieces, u) ac" by (rule redisAsyncInitialize_unconnected [OF assms(1,2)])
  then have f: "queues_ok ac" "obuf_holds ac []" "\<And>g. \<not> flag g ac"
    by (simp_all add: unconnected_def flag_def has_flag_def)
  obtain ac1 where ac1: "issue_all m cs ac = Some (Ok (map (\<lambda>_. True) cs), ac1)" "queues_ok ac1" "obuf_holds ac1 (requests cs)"
      "queue Replies ac1 = map callback_of cs" "c_flags (ac_c ac1) = 0" "kept ac ac1"
    using issue_all_queues [OF assms(3,8) f(1,2) f(3) f(3)] un by (auto simp: unconnected_def)
  show ?thesis
  proof (cases pieces)
    case Nil
    have "rs = []"
    proof (cases rs)
      case (Cons r rs')
      then show ?thesis using assms(12) Nil encode_reply_nonempty [of r] by simp
    qed simp
    then have "cs = []" using assms(10) by simp
    then show ?thesis
      using ac1 Nil un \<open>rs = []\<close> by (auto simp: ended_def ret_def unconnected_def kept_def)
  next
    case (Cons y ys)
    let ?b = "ac1\<lparr>ac_c := set_flag REDIS_CONNECTED (ac_c ac1),
         ac_trace := ac_trace ac1 @ (if ac_onConnect ac1 then [Connected True] else [])\<rparr>"
    obtain R where R: "c_reader (ac_c ac1) = Some R" "idle R []" "c_err (ac_c ac1) = 0" "c_fd (ac_c ac1) = fd"
        "ac_heap ac1 = h" "ac_world ac1 = (pieces, u)"
      using un ac1(6) by (auto simp: unconnected_def kept_def)
    have b: "steady fd (ac_c ?b)" "queues_ok ?b" "c_reader (ac_c ?b) = Some R" "allocates (ac_heap ?b)" "queue Replies ?b = map callback_of cs"
        "ac_world ?b = (pieces, u)"
      using ac1 R assms(4) by (simp_all add: steady_def listening_def has_flag_def set_flag_def flag_defs)
    have conn: "\<not> flag REDIS_CONNECTED ac1" "sys_sockerror sys (c_fd (ac_c ac1)) (ac_world ac1) = (SockStatus None, ac_world ac1)"
      using ac1(5) assms(7) R(4) by (simp_all add: flag_def has_flag_def)
    have "handle_reads (length pieces) m sys user ac1 = handle_reads (length pieces) m sys user ?b"
      using Cons handle_read_connects [OF conn, of m user] by (simp add: pbind_def)
    moreover have w: "waits fd (map callback_of cs) rs 0 (concat pieces @ []) ?b"
      using idle_waits [OF b(1,2,5,3) R(2) b(4) assms(9)] assms(12) by simp
    have len: "length rs \<le> length (map callback_of cs)" using assms(10) by simp
    have wb: "ac_world ?b = (pieces @ [], u)" using b(6) by simp
    obtain ac2 where "handle_reads (length pieces) m sys user ?b = Some (Ok (), ac2)"
        "ac_world ac2 = ([], answers act (take (length rs) (map callback_of cs)) (take (length rs) rs) u)"
        "queue Replies ac2 = drop (length rs) (map callback_of cs)"
      using handle_reads_all [OF assms(5,6,3,9) len assms(11) w wb] assms(12) arrived_all [of rs] by auto
    ultimately show ?thesis using ac1(1,3) assms(10) by (auto simp: answers_def)
  qed
qed

abbreviation demo_requests :: "command list" where
  "demo_requests \<equiv> [(Some 1, None, [''PING'']), (Some 2, None, [''SET'', ''k'', ''v''])]"

abbreviation demo_replies :: "redisReply list" where
  "demo_replies \<equiv> [Reply_Status ''PONG'', Reply_Status ''OK'']"

abbreviation demo_pieces :: "string list" where
  "demo_pieces \<equiv> [''+PON'', ''G'' @ crlf @ ''+'', ''OK'' @ crlf]"

lemma demo_stream:
  "list_all acceptable demo_replies" "list_all (\<lambda>y. y \<noteq> [] \<and> length y \<le> 1024 * 16) demo_pieces"
  "concat demo_pieces = concat (map encode_reply demo_replies)"
  by (simp_all add: acceptable_def crlf_def)

theorem async_session_witness:
  "\<exists>c ac ac1 ac2. redisContextInit demo_mem = Some c \<and>
     redisAsyncInitialize demo_mem (c\<lparr>c_fd := 5\<rparr>) empty_heap (demo_pieces, []) = Ok (Some ac) \<and>
     issue_all demo_mem demo_requests ac = Some (Ok [True, True], ac1) \<and>
     handle_reads 3 demo_mem demo_sys demo_user ac1 = Some (Ok (), ac2) \<and> queue Replies ac2 = [] \<and>
     ac_world ac2 = ([], [(1, Some ''PONG''), (2, Some ''OK'')])"
proof -
  obtain c ac where ac: "redisContextInit demo_mem = Some c"
      "redisAsyncInitialize demo_mem (c\<lparr>c_fd := 5\<rparr>) empty_heap (demo_pieces, [] :: logbook) = Ok (Some ac)"
    using demo_context [of "(demo_pieces, [] :: logbook)"] by blast
  have conn: "sys_sockerror demo_sys 5 w = (SockStatus None, w)" for w :: "string list \<times> logbook" by (simp add: demo_sys_def)
  have len: "length demo_replies = length demo_requests" by simp
  obtain ac1 ac2 where 1: "issue_all demo_mem demo_requests ac = Some (Ok (map (\<lambda>_. True) demo_requests), ac1)"
      "handle_reads (length demo_pieces) demo_mem demo_sys demo_user ac1 = Some (Ok (), ac2)" "queue Replies ac2 = []"
      "ac_world ac2 = ([], fold (\<lambda>(k, r). run_one demo_act (Some r) k) (zip (map callback_of demo_requests) demo_replies) [])"
    using async_session [OF ac demo_mem_ok empty_heap_allocates demo_sees demo_reads conn demo_commands demo_stream(1) len demo_stream(2,3)]
    by blast
  have n: "length demo_pieces = 3" "map (\<lambda>_. True) demo_requests = [True, True]" by simp_all
  have "fold (\<lambda>(k, r). run_one demo_act (Some r) k) (zip (map callback_of demo_requests) demo_replies) [] =
      [(1, Some ''PONG''), (2, Some ''OK'')]"
    by (simp add: callback_of_def run_one_def demo_act_def)
  then show ?thesis using ac 1(1) [unfolded n] 1(2) [unfolded n] 1(3,4) by metis
qed

lemma demo_connected:
  "\<exists>ac R. steady 5 (ac_c ac) \<and> queues_ok ac \<and> queue Replies ac = map callback_of demo_requests \<and>
     c_reader (ac_c ac) = Some R \<and> idle R [] \<and> allocates (ac_heap ac) \<and> ac_world ac = (demo_pieces, [] :: logbook)"
proof -
  obtain c ac where ac: "redisContextInit demo_mem = Some c"
      "redisAsyncInitialize demo_mem (c\<lparr>c_fd := 5\<rparr>) empty_heap (demo_pieces, [] :: logbook) = Ok (Some ac)"
    using demo_context [of "(demo_pieces, [] :: logbook)"] by blast
  have un: "unconnected 5 empty_heap (demo_pieces, []) ac" by (rule redisAsyncInitialize_unconnected [OF ac])
  then have f: "queues_ok ac" "obuf_holds ac []" "\<And>g. \<not> flag g ac"
    by (simp_all add: unconnected_def flag_def has_flag_def)
  obtain ac1 where ac1: "queues_ok ac1" "queue Replies ac1 = queue Replies ac @ map callback_of demo_requests"
      "c_flags (ac_c ac1) = c_flags (ac_c ac)" "kept ac ac1"
    using issue_all_queues [OF demo_mem_ok demo_commands f(1,2) f(3) f(3)] by blast
  let ?b = "ac1\<lparr>ac_c := set_flag REDIS_CONNECTED (ac_c ac1)\<rparr>"
  obtain R where "c_reader (ac_c ac1) = Some R" "idle R []" using un ac1(4) by (auto simp: unconnected_def kept_def)
  then have "steady 5 (ac_c ?b) \<and> queues_ok ?b \<and> queue Replies ?b = map callback_of demo_requests \<and>
     c_reader (ac_c ?b) = Some R \<and> idle R [] \<and> allocates (ac_heap ?b) \<and> ac_world ?b = (demo_pieces, [])"
    using un ac1 empty_heap_allocates
    by (simp add: unconnected_def kept_def steady_def listening_def has_flag_def set_flag_def flag_defs)
  then show ?thesis by blast
qed

theorem redisAsyncHandleRead_answers_witness:
  "\<exists>ac ac'. queue Replies ac = map callback_of demo_requests \<and> ac_world ac = (demo_pieces, []) \<and>
     handle_reads 2 demo_mem demo_sys demo_user ac = Some (Ok (), ac') \<and>
     queue Replies ac' = [(Some 2, None)] \<and> ac_world ac' = ([''OK'' @ crlf], [(1, Some ''PONG'')])"
proof -
  obtain ac R where ac: "steady 5 (ac_c ac)" "queues_ok ac" "queue Replies ac = map callback_of demo_requests"
      "c_reader (ac_c ac) = Some R" "idle R []" "allocates (ac_heap ac)" "ac_world ac = (demo_pieces, [] :: logbook)"
    using demo_connected by blast
  have len: "length demo_replies \<le> length (queue Replies ac)" "2 \<le> length demo_pieces" by (simp_all add: ac(3))
  obtain ac' n where 1: "handle_reads 2 demo_mem demo_sys demo_user ac = Some (Ok (), ac')"
      "n = arrived demo_replies (length (concat (take 2 demo_pieces)))"
      "queue Replies ac' = drop n (queue Replies ac)"
      "ac_world ac' = (drop 2 demo_pieces,
        fold (\<lambda>(k, r). run_one demo_act (Some r) k) (zip (take n (queue Replies ac)) (take n demo_replies)) [])"
    using redisAsyncHandleRead_answers [OF demo_sees demo_reads demo_mem_ok ac(1,2,4-6) demo_stream(1) len(1) demo_stream(2,3) ac(7) len(2)]
    by blast
  have "n = 1" using 1(2) by (simp add: crlf_def)
  then have "queue Replies ac' = [(Some 2, None)]" "ac_world ac' = ([''OK'' @ crlf], [(1, Some ''PONG'')])"
    using 1(3,4) ac(3) by (simp_all add: callback_of_def run_one_def demo_act_def)
  then show ?thesis using ac(3,7) 1(1) by blast
qed

end
