(* ===== verification/PubSubProperties.thy ===== *)
theory PubSubProperties
  imports PubSub AsyncProperties
begin

unbundle bit_operations_syntax

text \<open>
  The properties of subscriptions: a SUBSCRIBE command registers every channel, messages are dispatched
  as the abstract dispatcher does, and what a disconnect does to commands that are still waiting.
\<close>

text \<open>C13.
  A SUBSCRIBE or PSUBSCRIBE command, in any case, registers its callback for every channel or pattern it
  names and for no other, and leaves the other table, the queues of callbacks and the connection alone;
  the context is then subscribed and the request stands at the end of the output buffer.
\<close>

theorem redisAsyncCommand_subscribes:
  assumes "good_name a" and "command_of (a # as) = ''subscribe''" and "as \<noteq> []"
    and "list_all (\<lambda>a. length a < 2 ^ 31) as" and "length as < 2 ^ 31 - 1"
    and "\<not> flag (REDIS_DISCONNECTING OR REDIS_FREEING) ac" and "obuf_holds ac x" and "ample m"
    and "table = (if starts_with_p a = 1 then ac_patterns else ac_channels)"
    and "other_table = (if starts_with_p a = 1 then ac_channels else ac_patterns)"
    and "dict_ok (table ac)" and "dictSize (table ac) + length as \<le> 2 ^ 30"
  shows "\<exists>ac'. redisAsyncCommandArgv m fn priv (length (a # as)) (a # as) (Some (map length (a # as))) ac = Some (Ok True, ac') \<and>
     dict_ok (table ac') \<and> dict_map (table ac') = (\<lambda>n. if n \<in> set as
       then Some \<lparr>cb_next = None, cb_fn = fn, cb_privdata = priv\<rparr> else dict_map (table ac) n) \<and>
     other_table ac' = other_table ac \<and> flag REDIS_SUBSCRIBED ac' \<and> (\<forall>q. queue q ac' = queue q ac) \<and>
     obuf_holds ac' (x @ resp_request (a # as))"
proof -
  have t: "table = sub_table (starts_with_p a = 1)" "other_table = sub_table (\<not> starts_with_p a = 1)"
    using assms(9,10) by (auto simp: sub_table_def fun_eq_iff)
  have d: "dict_ok (sub_table (starts_with_p a = 1) ac)" "dictSize (sub_table (starts_with_p a = 1) ac) + length as \<le> 2 ^ 30"
    using assms(11,12) unfolding t by simp_all
  obtain ac' where ac': "redisAsyncCommand_priv m fn priv (resp_request (a # as)) (length (resp_request (a # as))) ac = Some (Ok True, ac')"
      "subscribed (starts_with_p a = 1) as \<lparr>cb_next = None, cb_fn = fn, cb_privdata = priv\<rparr> ac x (resp_request (a # as)) ac'"
    using async_command_subscribe [OF assms(1-4,6-8) d] by blast
  have "length (a # as) < 2 ^ 31" using assms(5) by simp
  moreover have "\<forall>b \<in> set (a # as). length b < 2 ^ 64"
    using assms(1,4) by (fastforce simp: good_name_def list_all_iff)
  moreover have "\<not> mem_fails m" using assms(8) by (simp add: ample_def mem_fails_def)
  ultimately have "redisAsyncCommandArgv m fn priv (length (a # as)) (a # as) (Some (map length (a # as))) ac = Some (Ok True, ac')"
    using redisAsyncCommandArgv_priv ac'(1) by metis
  then show ?thesis using ac'(2) unfolding t by (auto simp: subscribed_def registered_def)
qed

text \<open>C14.
  On a subscribed context with no command waiting, \<^verbatim>\<open>redisProcessCallbacks\<close> handles the messages that
  have arrived as the abstract dispatcher does, in their order: each runs the callback of the channel
  or pattern it names, an unsubscription removes the entry first and the last one ends the subscribed
  state; a message for a name that has no entry runs the callback of the message before it once more.
\<close>

theorem redisProcessCallbacks_dispatches:
  assumes "sees user act" and "ample m" and "listening fd (ac_c ac)" and "queues_ok ac" and "queue Replies ac = []"
    and "dict_ok (ac_channels ac)" and "dict_ok (ac_patterns ac)"
    and "c_reader (ac_c ac) = Some R" and "idle R (concat (map encode_reply rs))" and "allocates (ac_heap ac)"
    and "list_all acceptable rs" and "list_all message rs"
    and "ps = \<lparr>ps_channels = dict_map (ac_channels ac), ps_patterns = dict_map (ac_patterns ac),
       ps_last = \<lparr>cb_next = None, cb_fn = None, cb_privdata = None\<rparr>, ps_on = flag REDIS_SUBSCRIBED ac, ps_world = ac_world ac\<rparr>"
    and "subscribed_for act rs ps"
  shows "\<exists>ac' ps'. redisProcessCallbacks m sys user ac = Some (Ok (), ac') \<and> ps' = fold (dispatch act) rs ps \<and>
     ac_world ac' = ps_world ps' \<and> dict_map (ac_channels ac') = ps_channels ps' \<and>
     dict_map (ac_patterns ac') = ps_patterns ps' \<and> flag REDIS_SUBSCRIBED ac' = ps_on ps'"
proof -
  let ?cb = "\<lparr>cb_next = None, cb_fn = None, cb_privdata = None\<rparr>"
  have "abstracts fd ac ?cb ps" using assms(3-7,13) by (simp add: abstracts_def)
  from loop_messages [where sys = sys, OF assms(1,2,9-12,14) this assms(8)] obtain ac' cb' where
    "process_loop_async m sys user ?cb ac = Some (Ok (), ac')" "abstracts fd ac' cb' (fold (dispatch act) rs ps)" by blast
  then show ?thesis
    by (intro exI [of _ ac'] exI [of _ "fold (dispatch act) rs ps"]) (simp add: redisProcessCallbacks_def abstracts_def)
qed

text \<open>C17.
  A disconnect that has to wait for replies fails. \<^verbatim>\<open>redisAsyncDisconnect\<close> with commands still waiting
  only marks the context; but as soon as the output buffer is empty and no complete reply has arrived,
  \<^verbatim>\<open>redisProcessCallbacks\<close> takes that for the end, and the assertion that no callback is waiting fails.
\<close>

theorem redisAsyncDisconnect_pending_fails:
  assumes "c_err (ac_c ac) = 0" and "\<not> flag REDIS_BLOCK ac" and "queues_ok ac" and "queue Replies ac \<noteq> []"
    and "obuf_holds ac []" and "c_reader (ac_c ac) = Some R" and "idle R []"
  shows "\<exists>ac1 ac2. redisAsyncDisconnect m sys user ac = Some (Ok (), ac1) \<and>
     queue Replies ac1 = queue Replies ac \<and> redisProcessCallbacks m sys user ac1 = Some (Fault AssertFailure, ac2)"
proof -
  let ?a = "ac\<lparr>ac_c := set_flag REDIS_DISCONNECTING (ac_c ac)\<rparr>"
  obtain k ks where q: "queue Replies ac = k # ks" using assms(4) by (cases "queue Replies ac") auto
  have head: "cb_head (ac_replies ac) \<noteq> None"
  proof
    assume "cb_head (ac_replies ac) = None"
    then show False using q by (cases "ac_next ac") (simp_all add: queue_def)
  qed
  have dis: "redisAsyncDisconnect m sys user ac = Some (Ok (), ?a)"
    using head by (auto simp: redisAsyncDisconnect_def pbind_def ended_def get_def ret_def raise_flag_def modify_def)
  have fl: "\<not> has_flag (ac_c ?a) REDIS_BLOCK" "has_flag (ac_c ?a) REDIS_DISCONNECTING"
    using assms(2) by (simp_all add: flag_def has_flag_def set_flag_def flag_defs bit.conj_disj_distrib2)
  obtain s where s: "c_obuf (ac_c ac) = Some s" "wf_sds s" "sds_val s = []" using assms(5) by (auto simp: obuf_holds_def)
  then have len: "sdslen s = 0" using length_sds_val [OF s(2)] by (simp add: sdslen_def)
  obtain R1 where R1: "redisReaderGetReply defaultFunctions R (ac_heap ?a) = Ok (True, None, R1, ac_heap ?a)"
    using get_empty [where fn = defaultFunctions and h = "ac_heap ?a" and R = R] start_task_idle [OF assms(7)] assms(7)
    by (auto simp: idle_unread)
  have R: "c_reader (ac_c ?a) = Some R" using assms(6) by (simp add: set_flag_def)
  let ?b = "?a\<lparr>ac_c := (ac_c ?a)\<lparr>c_reader := Some R1\<rparr>, ac_heap := ac_heap ?a\<rparr>"
  let ?c = "?b\<lparr>ac_err := 0, ac_errstr := c_errstr (ac_c ?b)\<rparr>"
  have get: "async_get_reply m sys ?a = Some (Ok (True, None), ?b)"
    by (rule async_get_reply_nonblocking [OF fl(1) R R1])
  have "queue q (ac\<lparr>ac_c := c, ac_err := e, ac_errstr := t\<rparr>) = queue q ac" for q c e t
    by (cases q) (simp_all add: queue_def)
  then have qc: "queues_ok ?c" "queue Replies ?c = k # ks"
    using assms(3) q by (simp_all add: queues_ok_def lists_at_def)
  obtain cb l st where sh: "shift_callback Replies ?c = (Ok (Some cb), (put_list Replies l ?c)\<lparr>ac_store := st\<rparr>)"
    using shift_callback_queue [OF qc] by blast
  have "redisAsyncDisconnect_priv m sys user ?b = Some (Fault AssertFailure, (put_list Replies l ?c)\<lparr>ac_store := st\<rparr>)"
    using sh assms(1)
    by (simp add: redisAsyncDisconnect_priv_def pbind_def ended_def bind_def redisAsyncCopyError_def modify_def get_def
        fail_def set_flag_def)
  then have "process_round m sys user cb0 ?a = Some (Fault AssertFailure, (put_list Replies l ?c)\<lparr>ac_store := st\<rparr>)" for cb0
    using get fl(2) s(1) len
    by (simp add: process_round_def pbind_def ended_def get_def flag_def has_flag_def set_flag_def)
  then have "redisProcessCallbacks m sys user ?a = Some (Fault AssertFailure, (put_list Replies l ?c)\<lparr>ac_store := st\<rparr>)"
    unfolding redisProcessCallbacks_def by (subst process_loop_async.simps) simp
  moreover have "queue Replies ?a = queue Replies ac" by simp
  ultimately show ?thesis using dis by blast
qed

section \<open>Witnesses\<close>

lemma demo_unconnected: "\<exists>ac. unconnected 5 empty_heap ([] :: string list, [] :: logbook) ac"
proof -
  obtain c ac where "redisContextInit demo_mem = Some c"
      "redisAsyncInitialize demo_mem (c\<lparr>c_fd := 5\<rparr>) empty_heap ([] :: string list, [] :: logbook) = Ok (Some ac)"
    using demo_context [of "([] :: string list, [] :: logbook)"] by blast
  from redisAsyncInitialize_unconnected [OF this] show ?thesis by blast
qed

lemma unconnected_simps:
  assumes "unconnected fd h w ac"
  shows "\<not> flag f ac" and "obuf_holds ac []" and "queues_ok ac" and "queue q ac = []"
    and "dict_ok (ac_channels ac)" and "dict_ok (ac_patterns ac)" and "dict_map (ac_channels ac) = Map.empty"
    and "dict_map (ac_patterns ac) = Map.empty" and "dictSize (ac_channels ac) = 0" and "dictSize (ac_patterns ac) = 0"
  using assms fresh_ok [OF callbackDict_plain]
  by (simp_all add: unconnected_def flag_def has_flag_def dictSize_def)

lemma demo_ample: "ample demo_mem"
  by (simp add: ample_def demo_mem_def)

theorem redisAsyncCommand_subscribes_witness:
  "\<exists>ac ac' :: (string list \<times> logbook) redisAsyncContext.
     redisAsyncCommandArgv demo_mem (Some 7) None 3 [''PSubscribe'', ''news.*'', ''x''] (Some [10, 6, 1]) ac = Some (Ok True, ac') \<and>
     dict_map (ac_patterns ac') ''x'' = Some \<lparr>cb_next = None, cb_fn = Some 7, cb_privdata = None\<rparr> \<and>
     dict_map (ac_patterns ac') ''y'' = None \<and> flag REDIS_SUBSCRIBED ac'"
proof -
  obtain ac where ac: "unconnected 5 empty_heap ([] :: string list, [] :: logbook) ac" using demo_unconnected by blast
  let ?a = "''PSubscribe''" and ?as = "[''news.*'', ''x'']"
  have a: "good_name ?a" "list_all (\<lambda>a. length a < 2 ^ 31) ?as" "length ?as < 2 ^ 31 - 1" "?as \<noteq> []"
    by (simp_all add: good_name_def)
  have b: "command_of (?a # ?as) = ''subscribe''" "starts_with_p ?a = 1" by code_simp+
  have t: "ac_patterns = (if starts_with_p ?a = 1 then ac_patterns else ac_channels)"
      "ac_channels = (if starts_with_p ?a = 1 then ac_channels else ac_patterns)" by (simp_all add: b(2))
  have d: "dict_ok (ac_patterns ac)" "dictSize (ac_patterns ac) + length ?as \<le> 2 ^ 30"
    using unconnected_simps(6,10) [OF ac] by simp_all
  obtain ac' where 1: "redisAsyncCommandArgv demo_mem (Some 7) None (length (?a # ?as)) (?a # ?as) (Some (map length (?a # ?as))) ac =
        Some (Ok True, ac')" "dict_map (ac_patterns ac') = (\<lambda>n. if n \<in> set ?as
       then Some \<lparr>cb_next = None, cb_fn = Some 7, cb_privdata = None\<rparr> else dict_map (ac_patterns ac) n)" "flag REDIS_SUBSCRIBED ac'"
    using redisAsyncCommand_subscribes [OF a(1) b(1) a(4,2,3) unconnected_simps(1,2) [OF ac] demo_ample t d] by blast
  have n: "length (?a # ?as) = 3" "map length (?a # ?as) = [10, 6, 1]" by simp_all
  show ?thesis using 1(1) [unfolded n] 1(2,3) unconnected_simps(8) [OF ac] by (intro exI [of _ ac] exI [of _ ac']) simp
qed

text \<open>A context subscribed to one channel.\<close>

lemma demo_subscribed:
  "\<exists>ac R. listening 5 (ac_c ac) \<and> flag REDIS_SUBSCRIBED ac \<and> queues_ok ac \<and> queue Replies ac = [] \<and>
     dict_ok (ac_channels ac) \<and> dict_ok (ac_patterns ac) \<and> c_reader (ac_c ac) = Some R \<and> idle R x \<and> allocates (ac_heap ac) \<and>
     dict_map (ac_channels ac) = [''ch'' \<mapsto> \<lparr>cb_next = None, cb_fn = Some 7, cb_privdata = None\<rparr>] \<and>
     ac_world ac = ([] :: string list, [] :: logbook)"
proof -
  obtain ac where ac: "unconnected 5 empty_heap ([] :: string list, [] :: logbook) ac" using demo_unconnected by blast
  let ?a = "''subscribe''"
  have a: "good_name ?a" by (simp add: good_name_def)
  have b: "command_of (?a # [''ch'']) = ''subscribe''" "starts_with_p ?a = 0" by code_simp+
  have c: "\<not> (starts_with_p ?a = 1)" using b(2) by simp
  have d: "dict_ok (sub_table (starts_with_p ?a = 1) ac)" "dictSize (sub_table (starts_with_p ?a = 1) ac) + length [''ch''] \<le> 2 ^ 30"
    using unconnected_simps(5,9) [OF ac] c by (simp_all add: sub_table_def)
  obtain ac1 where 1: "subscribed (starts_with_p ?a = 1) [''ch''] \<lparr>cb_next = None, cb_fn = Some 7, cb_privdata = None\<rparr> ac []
        (resp_request (?a # [''ch''])) ac1"
    using async_command_subscribe [OF a b(1) _ _ unconnected_simps(1,2) [OF ac] demo_ample d, of "Some 7" None] by auto
  obtain R where R: "c_reader (ac_c ac1) = Some R" "idle R []" using 1 ac by (auto simp: subscribed_def kept_def unconnected_def)
  obtain R' where R': "idle R' x"
    using idle_feed [where fn = "None :: rheap fns" and h = empty_heap and data = x, OF R(2) demo_mem_ok refl] by auto
  let ?c = "set_flag REDIS_CONNECTED (set_flag REDIS_SUBSCRIBED ((ac_c ac)\<lparr>c_reader := Some R'\<rparr>))"
  let ?b = "ac1\<lparr>ac_c := ?c\<rparr>"
  have "listening 5 (ac_c ?b)" "flag REDIS_SUBSCRIBED ?b"
    using ac by (simp_all add: unconnected_def listening_def has_flag_def set_flag_def flag_def flag_defs)
  moreover have "dict_map (ac_channels ac1) = [''ch'' \<mapsto> \<lparr>cb_next = None, cb_fn = Some 7, cb_privdata = None\<rparr>]"
    using 1 c unconnected_simps(7) [OF ac] by (auto simp: subscribed_def sub_table_def registered_def fun_eq_iff)
  moreover have "dict_ok (ac_channels ac1)" "ac_patterns ac1 = ac_patterns ac" "queues_ok ac1" "queue Replies ac1 = []"
      "ac_heap ac1 = empty_heap" "ac_world ac1 = ([], [])"
    using 1 c unconnected_simps(3,4) [OF ac] ac by (auto simp: subscribed_def sub_table_def kept_def unconnected_def)
  moreover have "dict_ok (ac_patterns ac)" by (rule unconnected_simps(6) [OF ac])
  ultimately show ?thesis
    using R' empty_heap_allocates by (intro exI [of _ ?b] exI [of _ R']) (simp add: set_flag_def)
qed

theorem redisProcessCallbacks_dispatches_witness:
  "\<exists>ac ac' R. c_reader (ac_c ac) = Some R \<and>
     idle R (encode_reply (Reply_Array [Reply_String ''message'', Reply_String ''ch'', Reply_String ''hi''])) \<and>
     redisProcessCallbacks demo_mem demo_sys demo_user ac = Some (Ok (), ac') \<and>
     snd (ac_world ac) = [] \<and> snd (ac_world ac') = [(7, None)] \<and> dict_map (ac_channels ac') ''ch'' \<noteq> None"
proof -
  let ?m = "Reply_Array [Reply_String ''message'', Reply_String ''ch'', Reply_String ''hi'']"
  have un: "\<not> unsubscribes ''message''" "\<not> is_pattern ''message''" by code_simp+
  have rs: "list_all acceptable [?m]" "list_all message [?m]" using un by (simp_all add: acceptable_def)
  obtain ac R where ac: "listening 5 (ac_c ac)" "flag REDIS_SUBSCRIBED ac" "queues_ok ac" "queue Replies ac = []"
      "dict_ok (ac_channels ac)" "dict_ok (ac_patterns ac)" "c_reader (ac_c ac) = Some R" "idle R (concat (map encode_reply [?m]))"
      "allocates (ac_heap ac)" "dict_map (ac_channels ac) = [''ch'' \<mapsto> \<lparr>cb_next = None, cb_fn = Some 7, cb_privdata = None\<rparr>]"
      "ac_world ac = ([] :: string list, [] :: logbook)"
    using demo_subscribed [of "concat (map encode_reply [?m])"] by blast
  let ?ps = "\<lparr>ps_channels = dict_map (ac_channels ac), ps_patterns = dict_map (ac_patterns ac),
       ps_last = \<lparr>cb_next = None, cb_fn = None, cb_privdata = None\<rparr>, ps_on = flag REDIS_SUBSCRIBED ac, ps_world = ac_world ac\<rparr>"
  have on: "subscribed_for (on_user demo_act) [?m] ?ps" using ac(2) by simp
  obtain ac' ps' where 1: "redisProcessCallbacks demo_mem demo_sys demo_user ac = Some (Ok (), ac')"
      "ps' = fold (dispatch (on_user demo_act)) [?m] ?ps" "ac_world ac' = ps_world ps'" "dict_map (ac_channels ac') = ps_channels ps'"
    using redisProcessCallbacks_dispatches [OF demo_sees demo_ample ac(1,3-9) rs refl on] by blast
  have "ps_world ps' = ([], [(7, None)])" "ps_channels ps' = dict_map (ac_channels ac)"
    using un ac(10,11) unfolding 1(2)
    by (simp_all add: dispatch_def Let_def subscriptions_def run_one_def content_def on_user_def demo_act_def)
  then show ?thesis using ac 1(1,3,4) by (intro exI [of _ ac] exI [of _ ac'] exI [of _ R]) simp
qed

theorem redisAsyncDisconnect_pending_fails_witness:
  "\<exists>ac ac1 ac2. queue Replies ac = [(Some 1, None), (Some 2, None)] \<and>
     redisAsyncDisconnect demo_mem demo_sys demo_user ac = Some (Ok (), ac1) \<and>
     redisProcessCallbacks demo_mem demo_sys demo_user ac1 = Some (Fault AssertFailure, ac2)"
proof -
  obtain ac where ac: "unconnected 5 empty_heap ([] :: string list, [] :: logbook) ac" using demo_unconnected by blast
  obtain ac1 where ac1: "queues_ok ac1" "queue Replies ac1 = queue Replies ac @ map callback_of demo_requests"
      "c_flags (ac_c ac1) = c_flags (ac_c ac)" "kept ac ac1"
    using issue_all_queues [OF demo_mem_ok demo_commands unconnected_simps(3,2,1,1) [OF ac]] by blast
  let ?b = "ac1\<lparr>ac_c := (ac_c ac1)\<lparr>c_obuf := c_obuf (ac_c ac)\<rparr>\<rparr>"
  obtain R where R: "c_reader (ac_c ac1) = Some R" "idle R []" using ac ac1(4) by (auto simp: unconnected_def kept_def)
  have "c_err (ac_c ?b) = 0" "\<not> flag REDIS_BLOCK ?b" "queues_ok ?b" "queue Replies ?b \<noteq> []" "obuf_holds ?b []"
      "c_reader (ac_c ?b) = Some R"
    using ac ac1 R by (simp_all add: unconnected_def kept_def flag_def has_flag_def obuf_holds_def)
  from redisAsyncDisconnect_pending_fails [OF this R(2), of demo_mem demo_sys demo_user]
  have "\<exists>b1 b2. redisAsyncDisconnect demo_mem demo_sys demo_user ?b = Some (Ok (), b1) \<and>
     redisProcessCallbacks demo_mem demo_sys demo_user b1 = Some (Fault AssertFailure, b2)" by blast
  moreover have "queue Replies ?b = [(Some 1, None), (Some 2, None)]"
    using ac1(2) unconnected_simps(4) [OF ac] by (simp add: callback_of_def)
  ultimately show ?thesis by blast
qed

end
