(* ===== verification/ContextSpec.thy ===== *)
theory ContextSpec
  imports Context ReaderIncremental SdsTextProperties
begin

unbundle bit_operations_syntax

text \<open>
  The blocking client against a peer. The loops of \<^verbatim>\<open>redisGetReply\<close> end on every run of the system that
  takes the request and delivers the reply, whatever the pieces and interruptions. A script, which lists
  what the calls of \<^verbatim>\<open>read\<close> and \<^verbatim>\<open>write\<close> to come return, gives such a run.
\<close>

section \<open>What the system does during a call\<close>

text \<open>
  Writes that take all of \<open>x\<close>, and reads that bring at least \<open>k\<close> bytes, \<open>z\<close> in all, with interruptions:
  they lead from one world to another.
\<close>

inductive sending :: "'w system \<Rightarrow> int \<Rightarrow> string \<Rightarrow> 'w \<Rightarrow> 'w \<Rightarrow> bool" for sys fd where
  sent: "sending sys fd [] w w"
| wrote: "x \<noteq> [] \<Longrightarrow> sys_write sys fd x w = (Wrote n, w1) \<Longrightarrow> n \<le> length x \<Longrightarrow> sending sys fd (drop n x) w1 w' \<Longrightarrow>
    sending sys fd x w w'"
| write_interrupted: "x \<noteq> [] \<Longrightarrow> sys_write sys fd x w = (WriteError EINTR, w1) \<Longrightarrow> sending sys fd x w1 w' \<Longrightarrow>
    sending sys fd x w w'"

inductive receiving :: "'w system \<Rightarrow> int \<Rightarrow> nat \<Rightarrow> string \<Rightarrow> 'w \<Rightarrow> 'w \<Rightarrow> bool" for sys fd where
  received: "0 < k \<Longrightarrow> sys_read sys fd (1024 * 16) w = (ReadBytes y, w1) \<Longrightarrow> k \<le> length y \<Longrightarrow> receiving sys fd k y w w1"
| part: "y \<noteq> [] \<Longrightarrow> sys_read sys fd (1024 * 16) w = (ReadBytes y, w1) \<Longrightarrow> length y < k \<Longrightarrow>
    receiving sys fd (k - length y) z w1 w' \<Longrightarrow> receiving sys fd k (y @ z) w w'"
| read_interrupted: "0 < k \<Longrightarrow> sys_read sys fd (1024 * 16) w = (ReadError EINTR, w1) \<Longrightarrow> receiving sys fd k z w1 w' \<Longrightarrow>
    receiving sys fd k z w w'"

section \<open>Contexts\<close>

definition obuf_is :: "redisContext \<Rightarrow> string \<Rightarrow> bool" where
  "obuf_is c o' \<longleftrightarrow> (\<exists>s. c_obuf c = Some s \<and> wf_sds s \<and> sds_val s = o')"

definition blocking :: "int \<Rightarrow> redisContext \<Rightarrow> bool" where
  "blocking fd c \<longleftrightarrow> c_err c = 0 \<and> c_fd c = fd \<and> has_flag c REDIS_BLOCK"

lemma blocking_parts [simp]:
  "blocking fd (c\<lparr>c_reader := r\<rparr>) = blocking fd c" "blocking fd (c\<lparr>c_obuf := s\<rparr>) = blocking fd c"
  "obuf_is (c\<lparr>c_reader := r\<rparr>) x = obuf_is c x"
  by (simp_all add: blocking_def has_flag_def obuf_is_def)

lemma try_later_EINTR [simp]: "try_later c EINTR"
  by (simp add: try_later_def)

section \<open>Writing\<close>

lemma write_until_done_sends:
  assumes "sending sys fd x w w'" and m: "\<not> mem_fails m"
  shows "blocking fd c \<Longrightarrow> obuf_is c x \<Longrightarrow>
     \<exists>s. write_until_done m sys (c, h, w) = Some (Ok (True, c\<lparr>c_obuf := Some s\<rparr>, h, w')) \<and> wf_sds s \<and> sds_val s = []"
  using assms(1)
proof (induction arbitrary: c)
  case (sent w)
  obtain s where s: "c_obuf c = Some s" "wf_sds s" "sds_val s = []" using sent(2) by (auto simp: obuf_is_def)
  then have "sdslen s = 0" using length_sds_val [of s] by (simp add: sdslen_def)
  then have "redisBufferWrite m sys (c, h, w) = Ok (True, Some True, c, h, w)"
    using sent(1) s(1) by (simp add: redisBufferWrite_def blocking_def)
  moreover have "c\<lparr>c_obuf := Some s\<rparr> = c" using s(1) by (cases c) simp
  ultimately show ?case using s by (subst write_until_done.simps) (auto intro!: exI [of _ s])
next
  case (write_interrupted x w w1 w')
  obtain s where s: "c_obuf c = Some s" "wf_sds s" "sds_val s = x" using write_interrupted.prems(2) by (auto simp: obuf_is_def)
  have "sdslen s = length x" "take (sdslen s) (sds_buf s) = x"
    using s length_sds_val [of s] by (simp_all add: sdslen_def sds_val_def)
  then have "redisBufferWrite m sys (c, h, w) = Ok (True, Some False, c, h, w1)"
    using write_interrupted.prems(1) write_interrupted.hyps(1,2) s(1) by (simp add: redisBufferWrite_def blocking_def)
  then show ?case
    using write_interrupted.IH [OF write_interrupted.prems] by (subst write_until_done.simps) simp
next
  case (wrote x w n w1 w')
  obtain s where s: "c_obuf c = Some s" "wf_sds s" "sds_val s = x" using wrote.prems(2) by (auto simp: obuf_is_def)
  have len: "sdslen s = length x" and val: "take (sdslen s) (sds_buf s) = x"
    using s length_sds_val [of s] by (simp_all add: sdslen_def sds_val_def)
  have err: "c_err c = 0" "c_fd c = fd" using wrote.prems(1) by (simp_all add: blocking_def)
  consider "n = 0" | "n = length x" | "0 < n" "n < length x" using wrote.hyps(3) by linarith
  then show ?case
  proof cases
    case 1
    then have "redisBufferWrite m sys (c, h, w) = Ok (True, Some False, c, h, w1)"
      using err s(1) len val wrote.hyps(1,2) by (simp add: redisBufferWrite_def)
    then show ?thesis
      using wrote.IH [OF wrote.prems(1)] wrote.prems(2) 1 by (subst write_until_done.simps) simp
  next
    case 2
    obtain e where e: "sdsempty m = Some e" "wf_sds e" "sds_val e = []"
      using sdsempty_None m sdsempty_spec by (cases "sdsempty m") auto
    then have "sdslen e = 0" using length_sds_val [of e] by (simp add: sdslen_def)
    then have "redisBufferWrite m sys (c, h, w) = Ok (True, Some True, c\<lparr>c_obuf := Some e\<rparr>, h, w1)"
      using err s(1) len val wrote.hyps(1,2) 2 e(1) by (simp add: redisBufferWrite_def)
    moreover have "w' = w1" using wrote.hyps(4) 2 by (auto elim: sending.cases)
    ultimately show ?thesis using e(2,3) by (subst write_until_done.simps) auto
  next
    case 3
    let ?s = "sdsrange s (int n) (-1)"
    have d: "wf_sds ?s" "sds_val ?s = drop n x"
      using sdsrange_spec [OF s(2), of "int n" "-1"] slice_drop [of n x] s(3) 3 by auto
    then have "sdslen ?s = length x - n" using length_sds_val [of ?s] by (simp add: sdslen_def)
    then have "redisBufferWrite m sys (c, h, w) = Ok (True, Some False, c\<lparr>c_obuf := Some ?s\<rparr>, h, w1)"
      using err s(1) len val wrote.hyps(1,2) 3 by (simp add: redisBufferWrite_def)
    moreover have "obuf_is (c\<lparr>c_obuf := Some ?s\<rparr>) (drop n x)" using d by (simp add: obuf_is_def)
    ultimately show ?thesis
      using wrote.IH [of "c\<lparr>c_obuf := Some ?s\<rparr>"] wrote.prems(1) by (subst write_until_done.simps) simp
  qed
qed

section \<open>Reading\<close>

definition got :: "rheap \<Rightarrow> redisReply \<Rightarrow> string \<Rightarrow> redisReader \<Rightarrow> rheap \<Rightarrow> bool" where
  "got h0 r u R h \<longleftrightarrow>
     idle R u \<and> allocates h \<and> fresh h0 < fresh h \<and> (\<forall>a < fresh h0. cells h a = cells h0 a) \<and>
     holds (cells h) (fresh h0) (fresh h) (fresh h0) r"

lemma getReplyFromReader_null:
  assumes "c_reader c = Some R" and "redisReaderGetReply dF R h = Ok (True, p, R1, h1)"
  shows "redisGetReplyFromReader (c, h, w) = Ok (True, p, c\<lparr>c_reader := Some R1\<rparr>, h1, w)"
  using assms by (simp add: redisGetReplyFromReader_def)

text \<open>A round of the read loop, by the result of the read.\<close>

lemma read_round:
  assumes c: "blocking fd c" "c_reader c = Some R"
  shows "sys_read sys fd (1024 * 16) w = (ReadError EINTR, w1) \<Longrightarrow> redisBufferRead m sys (c, h, w) = Ok (True, c, h, w1)"
    and "y \<noteq> [] \<Longrightarrow> sys_read sys fd (1024 * 16) w = (ReadBytes y, w1) \<Longrightarrow>
      redisReaderFeed m dF R h (Some y) (length y) = Ok (True, R1, h) \<Longrightarrow>
      redisBufferRead m sys (c, h, w) = Ok (True, c\<lparr>c_reader := Some R1\<rparr>, h, w1)"
  using assms by (simp_all add: redisBufferRead_def blocking_def)

lemma read_until_reply_receives:
  assumes "receiving sys fd k v w w'" and m: "\<not> mem_fails m"
  shows "blocking fd c \<Longrightarrow> c_reader c = Some R \<Longrightarrow> pending h0 r x R h \<Longrightarrow> k = length x \<Longrightarrow> v = x @ u \<Longrightarrow>
     \<exists>R1 h1. read_until_reply m sys (c, h, w) = Some (Ok (True, Some (fresh h0), c\<lparr>c_reader := Some R1\<rparr>, h1, w')) \<and>
       got h0 r u R1 h1"
  using assms(1)
proof (induction arbitrary: c R h x)
  case (received k w y w1)
  then have x: "x \<noteq> []" "y \<noteq> []" by auto
  obtain R1 R2 h2 where 1: "redisReaderFeed m dF R h (Some y) (length y) = Ok (True, R1, h)"
      "redisReaderGetReply dF R1 h = Ok (True, Some (fresh h0), R2, h2)" "got h0 r u R2 h2"
    using feed_rest [OF received.prems(3) m x(1), of h u] unfolding received.prems(5) got_def by blast
  have "read_until_reply m sys (c, h, w) = Some (Ok (True, Some (fresh h0), c\<lparr>c_reader := Some R2\<rparr>, h2, w1))"
    using read_round(2) [OF received.prems(1,2) x(2) received.hyps(2) 1(1)]
      getReplyFromReader_null [of "c\<lparr>c_reader := Some R1\<rparr>", OF _ 1(2), of w1]
    by (subst read_until_reply.simps) simp
  then show ?case using 1(3) by blast
next
  case (part y w w1 k z w')
  have "take (length y) (x @ u) = y" using part.prems(5) by (metis append_eq_conv_conj)
  then have "take (length y) x = y" using part.hyps(3) part.prems(4) by simp
  then have x: "x = y @ drop (length y) x" "drop (length y) x \<noteq> []"
    using part.hyps(3) part.prems(4) append_take_drop_id [of "length y" x] by simp_all
  have z: "z = drop (length y) x @ u" using part.prems(5) x(1) by (metis append_assoc same_append_eq)
  obtain R1 where R1: "redisReaderFeed m dF R h (Some y) (length y) = Ok (True, R1, h)" "pending h0 r (drop (length y) x) R1 h"
    using feed_part [OF _ m, of h0 r y "drop (length y) x" R h h] part.prems(3) x(1) by auto
  obtain R2 h2 where R2: "redisReaderGetReply dF R1 h = Ok (True, None, R2, h2)" "pending h0 r (drop (length y) x) R2 h2"
    using get_pending [OF R1(2) x(2)] by blast
  have "read_until_reply m sys (c, h, w) = read_until_reply m sys (c\<lparr>c_reader := Some R2\<rparr>, h2, w1)"
    using read_round(2) [OF part.prems(1,2) part.hyps(1,2) R1(1)]
      getReplyFromReader_null [of "c\<lparr>c_reader := Some R1\<rparr>", OF _ R2(1), of w1]
    by (subst read_until_reply.simps) simp
  then show ?case
    using part.IH [of "c\<lparr>c_reader := Some R2\<rparr>" R2 "drop (length y) x" h2] part.prems(1,4) R2(2) z by simp
next
  case (read_interrupted k w w1 z w')
  have x: "x \<noteq> []" using read_interrupted.hyps(1) read_interrupted.prems(4) by auto
  obtain R1 h1 where R1: "redisReaderGetReply dF R h = Ok (True, None, R1, h1)" "pending h0 r x R1 h1"
    using get_pending [OF read_interrupted.prems(3) x] by blast
  have "read_until_reply m sys (c, h, w) = read_until_reply m sys (c\<lparr>c_reader := Some R1\<rparr>, h1, w1)"
    using read_round(1) [OF read_interrupted.prems(1,2) read_interrupted.hyps(2)]
      getReplyFromReader_null [OF read_interrupted.prems(2) R1(1), of w1]
    by (subst read_until_reply.simps) simp
  then show ?case
    using read_interrupted.IH [of "c\<lparr>c_reader := Some R1\<rparr>" R1 x h1] read_interrupted.prems(1,4,5) R1(2) by simp
qed

section \<open>The peer\<close>

type_synonym script = "read_result list \<times> write_result list \<times> string"

text \<open>
  What is relied on of the system calls: a read returns the next result, a write takes a first part of
  the bytes it is given, or nothing when it fails.
\<close>

definition plays :: "script system \<Rightarrow> int \<Rightarrow> bool" where
  "plays sys fd \<longleftrightarrow>
     (\<forall>r rs ws out. sys_read sys fd (1024 * 16) (r # rs, ws, out) = (r, (rs, ws, out))) \<and>
     (\<forall>n rs ws out t. n \<le> length t \<longrightarrow> sys_write sys fd t (rs, Wrote n # ws, out) = (Wrote n, (rs, ws, out @ take n t))) \<and>
     (\<forall>e rs ws out t. sys_write sys fd t (rs, WriteError e # ws, out) = (WriteError e, (rs, ws, out)))"

text \<open>The reads bring the bytes \<open>z\<close>, in pieces and with interruptions; the writes take \<open>k\<close> bytes.\<close>

fun brings :: "string \<Rightarrow> read_result list \<Rightarrow> bool" where
  "brings z [] \<longleftrightarrow> z = []"
| "brings z (ReadBytes y # rs) \<longleftrightarrow>
     y \<noteq> [] \<and> take (length y) z = y \<and> brings (drop (length y) z) rs"
| "brings z (ReadError e # rs) \<longleftrightarrow> e = EINTR \<and> brings z rs"

fun takes :: "nat \<Rightarrow> write_result list \<Rightarrow> bool" where
  "takes k [] \<longleftrightarrow> k = 0"
| "takes k (Wrote n # ws) \<longleftrightarrow> 0 < k \<and> n \<le> k \<and> takes (k - n) ws"
| "takes k (WriteError e # ws) \<longleftrightarrow> 0 < k \<and> e = EINTR \<and> takes k ws"

lemma takes_sending:
  assumes "plays sys fd"
  shows "takes (length x) ws \<Longrightarrow> sending sys fd x (rs, ws, out) (rs, [], out @ x)"
proof (induction ws arbitrary: x out)
  case Nil
  then show ?case by (simp add: sending.sent)
next
  case (Cons e ws)
  show ?case
  proof (cases e)
    case (WriteError err)
    then have e: "err = EINTR" "x \<noteq> []" "takes (length x) ws" using Cons.prems by auto
    have "sys_write sys fd x (rs, e # ws, out) = (WriteError EINTR, (rs, ws, out))"
      using assms WriteError e(1) by (simp add: plays_def)
    from sending.write_interrupted [OF e(2) this Cons.IH [OF e(3)]] show ?thesis .
  next
    case (Wrote n)
    then have n: "n \<le> length x" "x \<noteq> []" "takes (length (drop n x)) ws" using Cons.prems by auto
    have wr: "sys_write sys fd x (rs, e # ws, out) = (Wrote n, (rs, ws, out @ take n x))"
      using assms Wrote n(1) by (simp add: plays_def)
    have "sending sys fd (drop n x) (rs, ws, out @ take n x) (rs, [], out @ x)"
      using Cons.IH [OF n(3), of "out @ take n x"] by simp
    from sending.wrote [OF n(2) wr n(1) this] show ?thesis .
  qed
qed

lemma brings_receiving:
  assumes sys: "plays sys fd"
  shows "x \<noteq> [] \<Longrightarrow> brings (x @ z) rs \<Longrightarrow>
     \<exists>u z1 rs1. receiving sys fd (length x) (x @ u) (rs, ws, out) (rs1, ws, out) \<and> z = u @ z1 \<and> brings z1 rs1"
proof (induction rs arbitrary: x)
  case Nil
  then show ?case by simp
next
  case (Cons e rs)
  have read: "sys_read sys fd (1024 * 16) (e # rs, ws, out) = (e, (rs, ws, out))" using sys by (simp add: plays_def)
  show ?case
  proof (cases e)
    case (ReadError err)
    then show ?thesis
      using Cons.prems Cons.IH [OF Cons.prems(1)] read by (fastforce intro: receiving.read_interrupted)
  next
    case (ReadBytes y)
    then have y: "y \<noteq> []" "take (length y) (x @ z) = y" "brings (drop (length y) (x @ z)) rs" using Cons.prems(2) by simp_all
    show ?thesis
    proof (cases "length x \<le> length y")
      case True
      let ?u = "take (length y - length x) z"
      have yu: "y = x @ ?u" using y(2) True by simp
      have "receiving sys fd (length x) (x @ ?u) (e # rs, ws, out) (rs, ws, out)"
        using receiving.received [OF _ _ True, of sys fd "(e # rs, ws, out)" "(rs, ws, out)"] read Cons.prems(1) ReadBytes yu by simp
      moreover have "brings (drop (length y - length x) z) rs" using y(3) True by simp
      ultimately show ?thesis by (metis append_take_drop_id)
    next
      case False
      then have x: "x = y @ drop (length y) x" "drop (length y) x \<noteq> []"
        using y(2) by (metis append_take_drop_id nat_le_linear take_append diff_is_0_eq take0 append_Nil2, simp)
      have "brings (drop (length y) x @ z) rs" using y(3) False by simp
      from Cons.IH [OF x(2) this] obtain u z1 rs1 where
          "receiving sys fd (length (drop (length y) x)) (drop (length y) x @ u) (rs, ws, out) (rs1, ws, out)" "z = u @ z1" "brings z1 rs1"
        by blast
      then show ?thesis
        using receiving.part [OF y(1), of sys fd "(e # rs, ws, out)" "(rs, ws, out)" "length x"] read ReadBytes False x(1)
        by (metis append_assoc length_drop not_le_imp_less)
    qed
  qed
qed

section \<open>A client\<close>

text \<open>A usable blocking context: \<open>u\<close> is the input not used yet, \<open>x\<close> the output not sent yet.\<close>

definition client :: "int \<Rightarrow> string \<Rightarrow> string \<Rightarrow> redisContext \<Rightarrow> bool" where
  "client fd u x c \<longleftrightarrow> blocking fd c \<and> obuf_is c x \<and> (\<exists>R. c_reader c = Some R \<and> idle R u)"

lemma redisConnectFd_client:
  assumes "redisConnectFd m fd = Some c"
  shows "client fd [] [] c"
proof -
  obtain s R where i: "sdsempty m = Some s" "redisReaderCreateWithFunctions m = Some R"
      "c = set_flag (REDIS_BLOCK OR REDIS_CONNECTED)
        \<lparr>c_err = 0, c_errstr = [], c_fd = fd, c_flags = 0, c_obuf = Some s, c_reader = Some R\<rparr>"
    using assms by (auto simp: redisConnectFd_def redisContextInit_def redisReaderCreate_def Let_def split: option.splits if_splits)
  then show ?thesis
    using sdsempty_spec [of m s] idle_create [OF i(2)]
    by (auto simp: client_def blocking_def obuf_is_def has_flag_def set_flag_def REDIS_BLOCK_def REDIS_CONNECTED_def)
qed

text \<open>
  A reply is returned as soon as it has come in; the output is sent only when input is still needed.
\<close>

lemma redisGetReply_ready:
  assumes c: "client fd (encode_reply r @ v) x c" and h: "allocates h" and r: "acceptable r"
  shows "\<exists>R1 h1. redisGetReply m sys (c, h, w) = Some (Ok (True, Some (fresh h), c\<lparr>c_reader := Some R1\<rparr>, h1, w)) \<and>
     client fd v x (c\<lparr>c_reader := Some R1\<rparr>) \<and> got h r v R1 h1"
proof -
  obtain R where R: "c_reader c = Some R" "idle R (encode_reply r @ v)" using c by (auto simp: client_def)
  obtain R1 h1 where 1: "redisReaderGetReply dF R h = Ok (True, Some (fresh h), R1, h1)" "got h r v R1 h1"
    using getReply_reads [OF R(2) h] r unfolding got_def acceptable_def by blast
  have "redisGetReply m sys (c, h, w) = Some (Ok (True, Some (fresh h), c\<lparr>c_reader := Some R1\<rparr>, h1, w))"
    using getReplyFromReader_null [OF R(1) 1(1), of w] by (simp add: redisGetReply_def)
  moreover have "client fd v x (c\<lparr>c_reader := Some R1\<rparr>)" using c 1(2) by (simp add: client_def got_def)
  ultimately show ?thesis using 1(2) by blast
qed

lemma redisGetReply_waits:
  assumes m: "\<not> mem_fails m" and c: "client fd u x c" and h: "allocates h"
    and r: "acceptable r" "encode_reply r = u @ y" "y \<noteq> []"
    and io: "sending sys fd x w w1" "receiving sys fd (length y) (y @ v) w1 w2"
  shows "\<exists>c1 R1 h1. redisGetReply m sys (c, h, w) = Some (Ok (True, Some (fresh h), c1, h1, w2)) \<and>
     client fd v [] c1 \<and> got h r v R1 h1"
proof -
  obtain R where R: "c_reader c = Some R" "idle R u" using c by (auto simp: client_def)
  have p: "pending h r y R h" using idle_pending [OF R(2) r(2) [symmetric] h] r(1) by (simp add: acceptable_def)
  obtain R1 h1 where R1: "redisReaderGetReply dF R h = Ok (True, None, R1, h1)" "pending h r y R1 h1"
    using get_pending [OF p r(3)] by blast
  let ?c = "c\<lparr>c_reader := Some R1\<rparr>"
  have bl: "blocking fd ?c" "obuf_is ?c x" using c by (simp_all add: client_def)
  obtain s where s: "write_until_done m sys (?c, h1, w) = Some (Ok (True, ?c\<lparr>c_obuf := Some s\<rparr>, h1, w1))"
      "wf_sds s" "sds_val s = []"
    using write_until_done_sends [OF io(1) m bl] by blast
  have b2: "blocking fd (?c\<lparr>c_obuf := Some s\<rparr>)" "c_reader (?c\<lparr>c_obuf := Some s\<rparr>) = Some R1" using bl by simp_all
  obtain R2 h2 where 2: "read_until_reply m sys (?c\<lparr>c_obuf := Some s\<rparr>, h1, w1) =
       Some (Ok (True, Some (fresh h), ?c\<lparr>c_obuf := Some s\<rparr>\<lparr>c_reader := Some R2\<rparr>, h2, w2))" "got h r v R2 h2"
    using read_until_reply_receives [OF io(2) m b2 R1(2) refl refl] by blast
  have "has_flag ?c REDIS_BLOCK" using bl by (simp add: blocking_def)
  then have "redisGetReply m sys (c, h, w) =
      Some (Ok (True, Some (fresh h), ?c\<lparr>c_obuf := Some s\<rparr>\<lparr>c_reader := Some R2\<rparr>, h2, w2))"
    using getReplyFromReader_null [OF R(1) R1(1), of w] s(1) 2(1) by (simp add: redisGetReply_def)
  moreover have "client fd v [] (?c\<lparr>c_obuf := Some s\<rparr>\<lparr>c_reader := Some R2\<rparr>)"
    using b2(1) s(2,3) 2(2) by (simp add: client_def obuf_is_def got_def)
  ultimately show ?thesis using 2(2) by blast
qed

text \<open>On a script.\<close>

lemma redisGetReply_ends:
  assumes sys: "plays sys fd" and m: "\<not> mem_fails m" and c: "client fd u x c" and h: "allocates h"
    and r: "acceptable r" and inp: "u @ z = encode_reply r @ rest" and rs: "brings z rs" and ws: "takes (length x) ws"
  shows "\<exists>c1 R1 h1 rs1 ws1 out1 u1 x1 z1. redisGetReply m sys (c, h, (rs, ws, out)) =
       Some (Ok (True, Some (fresh h), c1, h1, (rs1, ws1, out1))) \<and>
     client fd u1 x1 c1 \<and> rest = u1 @ z1 \<and> brings z1 rs1 \<and> takes (length x1) ws1 \<and>
     out1 @ x1 = out @ x \<and> (u = [] \<or> x = [] \<longrightarrow> x1 = []) \<and> got h r u1 R1 h1"
proof (cases "length (encode_reply r) \<le> length u")
  case True
  then obtain v where v: "u = encode_reply r @ v" "rest = v @ z"
    using inp by (metis append_eq_append_conv_if append_take_drop_id append_eq_append_conv2)
  have "u \<noteq> []" using v(1) encode_reply_nonempty [of r] by simp
  then show ?thesis using redisGetReply_ready [OF c [unfolded v(1)] h r, of m sys "(rs, ws, out)"] v(2) rs ws by blast
next
  case False
  define y where "y = drop (length u) (encode_reply r)"
  have y: "encode_reply r = u @ y" "y \<noteq> []" "z = y @ rest"
    using inp False by (auto simp: y_def append_eq_append_conv_if) (metis append_take_drop_id)+
  obtain v z1 rs1 where v: "receiving sys fd (length y) (y @ v) (rs, [], out @ x) (rs1, [], out @ x)" "rest = v @ z1" "brings z1 rs1"
    using brings_receiving [OF sys y(2) rs [unfolded y(3)]] by blast
  show ?thesis
    using redisGetReply_waits [OF m c h r y(1,2) takes_sending [OF sys ws] v(1)] v(2,3) by fastforce
qed

section \<open>Commands\<close>

text \<open>Appending changes the output buffer only.\<close>

lemma append_obuf:
  assumes "obuf_is c x" and "\<not> mem_fails m" and "n \<le> length t"
  shows "\<exists>s. redisAppendCommand_priv m c t n = Ok (True, c\<lparr>c_obuf := Some s\<rparr>) \<and>
     obuf_is (c\<lparr>c_obuf := Some s\<rparr>) (x @ take n t)"
proof -
  obtain s where s: "c_obuf c = Some s" "wf_sds s" "sds_val s = x" using assms(1) by (auto simp: obuf_is_def)
  then show ?thesis
    using sdscatlen_ok [OF s(2) assms(2,3)] by (auto simp: redisAppendCommand_priv_def obuf_is_def)
qed

definition sendable :: "string list \<Rightarrow> bool" where
  "sendable argv \<longleftrightarrow> length argv < 2 ^ 31 \<and> list_all (\<lambda>a. length a < 2 ^ 64) argv"

lemma appendArgv_obuf:
  assumes c: "obuf_is c x" and m: "\<not> mem_fails m" and len: "sendable argv"
  shows "\<exists>s. redisAppendCommandArgv m c (length argv) argv (Some (map length argv)) = Ok (True, c\<lparr>c_obuf := Some s\<rparr>) \<and>
     obuf_is (c\<lparr>c_obuf := Some s\<rparr>) (x @ resp_request argv)"
proof -
  have args: "map (arg_bytes argv (Some (map length argv))) [0 ..< length argv] = argv"
    by (intro nth_equalityI) (simp_all add: arg_bytes_def arg_length_def)
  obtain s where s: "redisFormatSdsCommandArgv m (length argv) argv (Some (map length argv)) =
      Ok (int (length (resp_request argv)), Some s)" "wf_sds s" "sds_val s = resp_request argv"
    using redisFormatSdsCommandArgv_request [of "length argv" argv "Some (map length argv)" m] m len unfolding args sendable_def
    by (auto simp: arg_length_def list_all_length)
  have n: "length (resp_request argv) = sds_len s" using s(3) length_sds_val [OF s(2)] by simp
  then have "take (length (resp_request argv)) (sds_buf s) = resp_request argv" using s(3) by (simp add: sds_val_def)
  moreover have "length (resp_request argv) \<le> length (sds_buf s)" using s(2) n by (simp add: wf_sds_def)
  ultimately show ?thesis using append_obuf [OF c m, of "length (resp_request argv)" "sds_buf s"] s(1)
    by (auto simp: redisAppendCommandArgv_def)
qed

lemma appendCommand_obuf:
  assumes c: "obuf_is c x" and m: "\<not> mem_fails m" and f: "fmt_argv format ap = Ok (Some argv)"
  shows "\<exists>s. redisvAppendCommand m c format ap = Ok (True, c\<lparr>c_obuf := Some s\<rparr>) \<and>
     obuf_is (c\<lparr>c_obuf := Some s\<rparr>) (x @ resp_request argv)"
proof -
  have "redisvFormatCommand m format ap = Ok (int (length (resp_request argv)), Some (resp_request argv))"
    using redisvFormatCommand_result [of m format ap] m f by (simp add: format_result_def)
  then show ?thesis using append_obuf [OF c m, of "length (resp_request argv)" "resp_request argv"]
    by (simp add: redisvAppendCommand_def)
qed

lemma client_obuf: "client fd u x c \<Longrightarrow> obuf_is (c\<lparr>c_obuf := Some s\<rparr>) y \<Longrightarrow> client fd u y (c\<lparr>c_obuf := Some s\<rparr>)"
  by (simp add: client_def)

lemma client_obuf_is: "client fd u x c \<Longrightarrow> obuf_is c x"
  by (simp add: client_def)

lemma redisCommand_runs:
  assumes m: "\<not> mem_fails m" and c: "client fd [] x c" and h: "allocates h" and f: "fmt_argv format ap = Ok (Some argv)"
    and r: "acceptable r" and io: "sending sys fd (x @ resp_request argv) w w1"
      "receiving sys fd (length (encode_reply r)) (encode_reply r @ v) w1 w2"
  shows "\<exists>c1 R1 h1. redisCommand m sys format ap (c, h, w) = Some (Ok (Some (fresh h), c1, h1, w2)) \<and>
     client fd v [] c1 \<and> got h r v R1 h1"
proof -
  obtain c0 where c0: "redisvAppendCommand m c format ap = Ok (True, c0)" "client fd [] (x @ resp_request argv) c0"
    using appendCommand_obuf [OF client_obuf_is [OF c] m f] client_obuf [OF c] by blast
  have y: "encode_reply r = [] @ encode_reply r" "encode_reply r \<noteq> []" using encode_reply_nonempty [of r] by simp_all
  obtain c1 R1 h1 where g: "redisGetReply m sys (c0, h, w) = Some (Ok (True, Some (fresh h), c1, h1, w2))"
      "client fd v [] c1" "got h r v R1 h1"
    using redisGetReply_waits [OF m c0(2) h r y io] by blast
  have "has_flag c0 REDIS_BLOCK" using c0(2) by (simp add: client_def blocking_def)
  then show ?thesis using g c0(1) by (simp add: redisCommand_def redisvCommand_def redisBlockForReply_def) blast
qed

lemma redisCommand_ends:
  assumes sys: "plays sys fd" and m: "\<not> mem_fails m" and c: "client fd [] x c" and h: "allocates h"
    and f: "fmt_argv format ap = Ok (Some argv)"
    and r: "acceptable r" and rs: "brings (encode_reply r @ z) rs" and ws: "takes (length (x @ resp_request argv)) ws"
  shows "\<exists>c1 R1 h1 rs1 u z1. redisCommand m sys format ap (c, h, (rs, ws, out)) =
       Some (Ok (Some (fresh h), c1, h1, (rs1, [], out @ x @ resp_request argv))) \<and>
     client fd u [] c1 \<and> z = u @ z1 \<and> brings z1 rs1 \<and> got h r u R1 h1"
proof -
  obtain v z1 rs1 where v: "receiving sys fd (length (encode_reply r)) (encode_reply r @ v)
      (rs, [], out @ x @ resp_request argv) (rs1, [], out @ x @ resp_request argv)" "z = v @ z1" "brings z1 rs1"
    using brings_receiving [OF sys encode_reply_nonempty rs] by blast
  show ?thesis using redisCommand_runs [OF m c h f r takes_sending [OF sys ws] v(1)] v(2,3) by blast
qed

section \<open>A peer that closes the connection\<close>

text \<open>The reads bring the bytes \<open>z\<close> and then the end of the stream.\<close>

fun closes :: "string \<Rightarrow> read_result list \<Rightarrow> bool" where
  "closes z [] \<longleftrightarrow> False"
| "closes z (ReadBytes y # rs) \<longleftrightarrow>
     (if y = [] then z = [] else take (length y) z = y \<and> closes (drop (length y) z) rs)"
| "closes z (ReadError e # rs) \<longleftrightarrow> e = EINTR \<and> closes z rs"

text \<open>A context with an error whose reader waits for the rest of a reply.\<close>

definition lost :: "redisContext \<Rightarrow> rheap \<Rightarrow> bool" where
  "lost c h \<longleftrightarrow> c_err c \<noteq> 0 \<and> has_flag c REDIS_BLOCK \<and> (\<exists>x. obuf_is c x) \<and>
     (\<exists>R h0 r w. c_reader c = Some R \<and> pending h0 r w R h \<and> w \<noteq> [])"

lemma read_until_reply_closed:
  assumes sys: "plays sys fd" and m: "\<not> mem_fails m" and w: "w \<noteq> []"
  shows "blocking fd c \<Longrightarrow> obuf_is c x \<Longrightarrow> c_reader c = Some R \<Longrightarrow> pending h0 r (z @ w) R h \<Longrightarrow> closes z rs \<Longrightarrow>
     \<exists>c1 h1 rs1. read_until_reply m sys (c, h, (rs, ws, out)) = Some (Ok (False, None, c1, h1, (rs1, ws, out))) \<and>
       c_err c1 = REDIS_ERR_EOF \<and> c_errstr c1 = ''Server closed the connection'' \<and> lost c1 h1"
proof (induction rs arbitrary: c R h z)
  case Nil
  then show ?case by simp
next
  case (Cons e rs)
  have zw: "z @ w \<noteq> []" using w by simp
  have sysr: "sys_read sys fd (1024 * 16) (e # rs, ws, out) = (e, (rs, ws, out))" using sys by (simp add: plays_def)
  show ?case
  proof (cases e)
    case (ReadError err)
    then have e: "err = EINTR" "closes z rs" using Cons.prems(5) by simp_all
    obtain R1 h1 where R1: "redisReaderGetReply dF R h = Ok (True, None, R1, h1)" "pending h0 r (z @ w) R1 h1"
      using get_pending [OF Cons.prems(4) zw] by blast
    have "read_until_reply m sys (c, h, (e # rs, ws, out)) = read_until_reply m sys (c\<lparr>c_reader := Some R1\<rparr>, h1, (rs, ws, out))"
      using read_round(1) [OF Cons.prems(1,3), of sys "(e # rs, ws, out)" "(rs, ws, out)"] sysr getReplyFromReader_null [OF Cons.prems(3) R1(1), of "(rs, ws, out)"] ReadError e(1)
      by (subst read_until_reply.simps) simp
    then show ?thesis
      using Cons.IH [of "c\<lparr>c_reader := Some R1\<rparr>" R1 z h1] Cons.prems(1,2) R1(2) e(2) by simp
  next
    case (ReadBytes y)
    show ?thesis
    proof (cases "y = []")
      case True
      let ?c = "c\<lparr>c_err := REDIS_ERR_EOF, c_errstr := ''Server closed the connection''\<rparr>"
      have "redisBufferRead m sys (c, h, (e # rs, ws, out)) = Ok (False, ?c, h, (rs, ws, out))"
        using sys Cons.prems(1) ReadBytes True
        by (simp add: redisBufferRead_def plays_def blocking_def redisSetError_def c_str_def)
      then have "read_until_reply m sys (c, h, (e # rs, ws, out)) = Some (Ok (False, None, ?c, h, (rs, ws, out)))"
        by (subst read_until_reply.simps) simp
      moreover have "lost ?c h"
        using Cons.prems(1-4) zw by (auto simp: lost_def blocking_def has_flag_def obuf_is_def REDIS_ERR_EOF_def)
      ultimately show ?thesis by (intro exI [of _ ?c]) simp
    next
      case False
      then have y: "take (length y) z = y" "closes (drop (length y) z) rs" using Cons.prems(5) ReadBytes by simp_all
      then have z: "z = y @ drop (length y) z" by (metis append_take_drop_id)
      have "pending h0 r (y @ drop (length y) z @ w) R h" using Cons.prems(4) z by (metis append_assoc)
      then obtain R1 where R1: "redisReaderFeed m dF R h (Some y) (length y) = Ok (True, R1, h)" "pending h0 r (drop (length y) z @ w) R1 h"
        using feed_part [OF _ m, of h0 r y "drop (length y) z @ w" R h h] by blast
      obtain R2 h2 where R2: "redisReaderGetReply dF R1 h = Ok (True, None, R2, h2)" "pending h0 r (drop (length y) z @ w) R2 h2"
        using get_pending [OF R1(2)] w by blast
      have "read_until_reply m sys (c, h, (e # rs, ws, out)) = read_until_reply m sys (c\<lparr>c_reader := Some R2\<rparr>, h2, (rs, ws, out))"
        using read_round(2) [OF Cons.prems(1,3) False, of sys "(e # rs, ws, out)" "(rs, ws, out)", OF _ R1(1)] sysr
          getReplyFromReader_null [of "c\<lparr>c_reader := Some R1\<rparr>", OF _ R2(1), of "(rs, ws, out)"] ReadBytes
        by (subst read_until_reply.simps) simp
      then show ?thesis
        using Cons.IH [of "c\<lparr>c_reader := Some R2\<rparr>" R2 "drop (length y) z" h2] Cons.prems(1,2) R2(2) y(2) by simp
    qed
  qed
qed

lemma redisCommand_closed:
  assumes sys: "plays sys fd" and m: "\<not> mem_fails m" and c: "client fd [] x c" and h: "allocates h"
    and f: "fmt_argv format ap = Ok (Some argv)" and r: "acceptable r" "encode_reply r = z @ w" "w \<noteq> []"
    and rs: "closes z rs" and ws: "takes (length (x @ resp_request argv)) ws"
  shows "\<exists>c1 h1 rs1. redisCommand m sys format ap (c, h, (rs, ws, out)) =
       Some (Ok (None, c1, h1, (rs1, [], out @ x @ resp_request argv))) \<and>
     c_err c1 = REDIS_ERR_EOF \<and> c_errstr c1 = ''Server closed the connection'' \<and> lost c1 h1"
proof -
  obtain c0 where c0: "redisvAppendCommand m c format ap = Ok (True, c0)" "client fd [] (x @ resp_request argv) c0"
    using appendCommand_obuf [OF client_obuf_is [OF c] m f] client_obuf [OF c] by blast
  obtain R where R: "c_reader c0 = Some R" "idle R []" using c0(2) by (auto simp: client_def)
  have p: "pending h r (z @ w) R h"
    using idle_pending [OF R(2), of "z @ w" r h] h r by (simp add: acceptable_def)
  obtain R1 h1 where R1: "redisReaderGetReply dF R h = Ok (True, None, R1, h1)" "pending h r (z @ w) R1 h1"
    using get_pending [OF p] r(3) by blast
  let ?c = "c0\<lparr>c_reader := Some R1\<rparr>"
  have bl: "blocking fd ?c" "obuf_is ?c (x @ resp_request argv)" using c0(2) by (simp_all add: client_def)
  obtain s where s: "write_until_done m sys (?c, h1, (rs, ws, out)) =
      Some (Ok (True, ?c\<lparr>c_obuf := Some s\<rparr>, h1, (rs, [], out @ x @ resp_request argv)))" "wf_sds s" "sds_val s = []"
    using write_until_done_sends [OF takes_sending [OF sys ws] m bl] by blast
  have b2: "blocking fd (?c\<lparr>c_obuf := Some s\<rparr>)" "obuf_is (?c\<lparr>c_obuf := Some s\<rparr>) []" "c_reader (?c\<lparr>c_obuf := Some s\<rparr>) = Some R1"
    using bl s(2,3) by (simp_all add: obuf_is_def)
  obtain c1 h2 rs1 where 1: "read_until_reply m sys (?c\<lparr>c_obuf := Some s\<rparr>, h1, (rs, [], out @ x @ resp_request argv)) =
       Some (Ok (False, None, c1, h2, (rs1, [], out @ x @ resp_request argv)))"
      "c_err c1 = REDIS_ERR_EOF" "c_errstr c1 = ''Server closed the connection''" "lost c1 h2"
    using read_until_reply_closed [OF sys m r(3) b2 R1(2) rs] by blast
  have "has_flag c0 REDIS_BLOCK" "has_flag ?c REDIS_BLOCK" using bl(1) by (simp_all add: blocking_def has_flag_def)
  then have "redisBlockForReply m sys (c0, h, (rs, ws, out)) =
      Some (Ok (None, c1, h2, (rs1, [], out @ x @ resp_request argv)))"
    using getReplyFromReader_null [OF R(1) R1(1), of "(rs, ws, out)"] s(1) 1(1)
    by (simp add: redisBlockForReply_def redisGetReply_def)
  then show ?thesis using c0(1) 1(2-4) by (simp add: redisCommand_def redisvCommand_def)
qed

text \<open>Later commands fail at once: nothing is written or read.\<close>

lemma redisCommand_lost:
  assumes l: "lost c h" and m: "\<not> mem_fails m" and f: "fmt_argv format ap = Ok (Some argv)"
  shows "\<exists>c1 h1. redisCommand m sys format ap (c, h, w) = Some (Ok (None, c1, h1, w)) \<and>
     lost c1 h1 \<and> c_err c1 = c_err c \<and> c_errstr c1 = c_errstr c"
proof -
  obtain x R h0 r v where c: "c_err c \<noteq> 0" "has_flag c REDIS_BLOCK" "obuf_is c x" "c_reader c = Some R"
      "pending h0 r v R h" "v \<noteq> []" using l by (auto simp: lost_def)
  obtain s y where s: "redisvAppendCommand m c format ap = Ok (True, c\<lparr>c_obuf := Some s\<rparr>)" "obuf_is (c\<lparr>c_obuf := Some s\<rparr>) y"
    using appendCommand_obuf [OF c(3) m f] by blast
  obtain R1 h1 where R1: "redisReaderGetReply dF R h = Ok (True, None, R1, h1)" "pending h0 r v R1 h1"
    using get_pending [OF c(5,6)] by blast
  let ?c = "c\<lparr>c_obuf := Some s, c_reader := Some R1\<rparr>"
  have bl: "has_flag (c\<lparr>c_obuf := Some s\<rparr>) REDIS_BLOCK" "has_flag ?c REDIS_BLOCK" using c(2) by (simp_all add: has_flag_def)
  have "redisBufferWrite m sys (?c, h1, w) = Ok (False, None, ?c, h1, w)" using c(1) by (simp add: redisBufferWrite_def)
  then have "write_until_done m sys (?c, h1, w) = Some (Ok (False, ?c, h1, w))" by (subst write_until_done.simps) simp
  then have "redisBlockForReply m sys (c\<lparr>c_obuf := Some s\<rparr>, h, w) = Some (Ok (None, ?c, h1, w))"
    using getReplyFromReader_null [of "c\<lparr>c_obuf := Some s\<rparr>", OF _ R1(1), of w] c(4) bl
    by (simp add: redisBlockForReply_def redisGetReply_def)
  moreover have "lost ?c h1" using c(1,6) bl(2) s(2) R1(2) by (auto simp: lost_def obuf_is_def)
  ultimately show ?thesis using s(1) by (simp add: redisCommand_def redisvCommand_def)
qed

end
