(* ===== verification/ContextProperties.thy ===== *)
theory ContextProperties
  imports ContextSpec
begin

text \<open>
  Properties of the blocking client: a command is answered on every behaviour of the system calls that
  takes the request and delivers the reply, pipelined commands get their replies in order, and a
  connection the peer has closed stays failed.
\<close>

unbundle bit_operations_syntax

text \<open>C7.
  \<open>redisCommand\<close> on a connected context returns. If the system takes the request, in any number of
  writes, and delivers a reply, in pieces of any size and with any number of interrupted calls, the call
  returns that reply in objects of its own, the bytes sent are the request the format denotes, and the
  context is without an error and ready for the next command, keeping what came in after the reply.
\<close>

theorem redisCommand_answers:
  assumes "redisConnectFd m fd = Some c" and "plays sys fd" and "\<not> mem_fails m" and "allocates h"
    and "fmt_argv format ap = Ok (Some argv)" and "reply_ok r" and "reply_depth r \<le> 8"
    and "brings (encode_reply r @ z) incoming" and "takes (length (resp_request argv)) outgoing"
  shows "\<exists>c1 h1 incoming1 u z1.
     redisCommand m sys format ap (c, h, (incoming, outgoing, [])) = Some (Ok (Some (fresh h), c1, h1, (incoming1, [], resp_request argv))) \<and>
     holds (cells h1) (fresh h) (fresh h1) (fresh h) r \<and> (\<forall>a < fresh h. cells h1 a = cells h a) \<and>
     client fd u [] c1 \<and> z = u @ z1 \<and> brings z1 incoming1"
proof -
  have r: "acceptable r" using assms(6,7) by (simp add: acceptable_def)
  have w: "takes (length ([] @ resp_request argv)) outgoing" using assms(9) by simp
  from redisCommand_ends [OF assms(2,3) redisConnectFd_client [OF assms(1)] assms(4,5) r assms(8) w, of "[]"]
  show ?thesis unfolding append_Nil got_def by blast
qed

section \<open>Pipelining\<close>

text \<open>Commands are appended one after the other; then their replies are asked for.\<close>

fun append_all :: "cmem \<Rightarrow> string list list \<Rightarrow> redisContext \<Rightarrow> (bool list \<times> redisContext) outcome" where
  "append_all m [] c = Ok ([], c)"
| "append_all m (argv # argvs) c =
     obind (redisAppendCommandArgv m c (length argv) argv (Some (map length argv))) (\<lambda>(ok, c1).
     obind (append_all m argvs c1) (\<lambda>(oks, c2). Ok (ok # oks, c2)))"

fun collect_replies :: "nat \<Rightarrow> cmem \<Rightarrow> 'w system \<Rightarrow> 'w conn \<Rightarrow> (ptr list \<times> 'w conn) outcome option" where
  "collect_replies 0 m sys s = Some (Ok ([], s))"
| "collect_replies (Suc n) m sys s =
     (case redisGetReply m sys s of
        None \<Rightarrow> None
      | Some (Fault e) \<Rightarrow> Some (Fault e)
      | Some (Ok (ok, p, s1)) \<Rightarrow>
          (case collect_replies n m sys s1 of
             Some (Ok (ps, s2)) \<Rightarrow> Some (Ok (p # ps, s2))
           | other \<Rightarrow> other))"

lemma append_all_client:
  assumes m: "\<not> mem_fails m"
  shows "list_all sendable argvs \<Longrightarrow> client fd u x c \<Longrightarrow>
     \<exists>c1. append_all m argvs c = Ok (map (\<lambda>_. True) argvs, c1) \<and> client fd u (x @ concat (map resp_request argvs)) c1"
proof (induction argvs arbitrary: c x)
  case Nil
  then show ?case by simp
next
  case (Cons argv argvs)
  then have "sendable argv" by simp
  from appendArgv_obuf [OF client_obuf_is [OF Cons.prems(2)] m this]
  obtain s where s: "redisAppendCommandArgv m c (length argv) argv (Some (map length argv)) = Ok (True, c\<lparr>c_obuf := Some s\<rparr>)"
      "client fd u (x @ resp_request argv) (c\<lparr>c_obuf := Some s\<rparr>)"
    using client_obuf [OF Cons.prems(2)] by blast
  obtain c1 where "append_all m argvs (c\<lparr>c_obuf := Some s\<rparr>) = Ok (map (\<lambda>_. True) argvs, c1)"
      "client fd u ((x @ resp_request argv) @ concat (map resp_request argvs)) c1"
    using Cons.IH [OF _ s(2)] Cons.prems(1) by auto
  then show ?case using s(1) by simp
qed

lemma collect_replies_client:
  assumes sys: "plays sys fd" and m: "\<not> mem_fails m"
  shows "list_all acceptable rs \<Longrightarrow> client fd u x c \<Longrightarrow> u = [] \<or> x = [] \<Longrightarrow> rs = [] \<longrightarrow> x = [] \<Longrightarrow> allocates h \<Longrightarrow>
     u @ z = concat (map encode_reply rs) @ rest \<Longrightarrow> brings z incoming \<Longrightarrow> takes (length x) outgoing \<Longrightarrow>
     \<exists>ps c1 h1 incoming1 u1 z1. collect_replies (length rs) m sys (c, h, (incoming, outgoing, out)) =
         Some (Ok (ps, c1, h1, (incoming1, [], out @ x))) \<and>
       client fd u1 [] c1 \<and> rest = u1 @ z1 \<and> brings z1 incoming1 \<and> fresh h \<le> fresh h1 \<and>
       (\<forall>a < fresh h. cells h1 a = cells h a) \<and> holds_all (cells h1) (fresh h) (fresh h1) ps rs"
proof (induction rs arbitrary: c u x h z incoming outgoing out)
  case Nil
  then have "outgoing = []" by (cases outgoing; cases "hd outgoing") auto
  then show ?case using Nil by auto
next
  case (Cons r rs)
  have inp: "u @ z = encode_reply r @ (concat (map encode_reply rs) @ rest)" using Cons.prems(6) by simp
  have r: "acceptable r" "list_all acceptable rs" using Cons.prems(1) by simp_all
  obtain c1 R1 h1 incoming1 ws1 out1 u1 x1 z1 where g: "redisGetReply m sys (c, h, (incoming, outgoing, out)) =
       Some (Ok (True, Some (fresh h), c1, h1, (incoming1, ws1, out1)))"
     "client fd u1 x1 c1" "allocates h1" "concat (map encode_reply rs) @ rest = u1 @ z1" "brings z1 incoming1" "takes (length x1) ws1"
     "out1 @ x1 = out @ x" "x1 = []"
     "fresh h < fresh h1" "\<forall>a < fresh h. cells h1 a = cells h a" "holds (cells h1) (fresh h) (fresh h1) (fresh h) r"
    using redisGetReply_ends [OF sys m Cons.prems(2,5) r(1) inp Cons.prems(7,8), of out] Cons.prems(3) unfolding got_def by blast
  have "u1 = [] \<or> x1 = []" "rs = [] \<longrightarrow> x1 = []" using g(8) by simp_all
  from Cons.IH [OF r(2) g(2) this g(3) g(4) [symmetric] g(5,6), of out1]
  obtain ps c2 h2 incoming2 u2 z2 where 2: "collect_replies (length rs) m sys (c1, h1, (incoming1, ws1, out1)) =
         Some (Ok (ps, c2, h2, (incoming2, [], out1 @ x1)))"
       "client fd u2 [] c2" "rest = u2 @ z2" "brings z2 incoming2" "fresh h1 \<le> fresh h2"
       "\<forall>a < fresh h1. cells h2 a = cells h1 a" "holds_all (cells h2) (fresh h1) (fresh h2) ps rs"
    by blast
  have "holds (cells h2) (fresh h) (fresh h1) (fresh h) r"
    using holds_cong(1) [OF g(11), of "cells h2"] 2(6) by simp
  then have "holds_all (cells h2) (fresh h) (fresh h2) (Some (fresh h) # ps) (r # rs)"
    using 2(5,7) g(9) by (auto intro!: bexI [of _ "fresh h1"])
  moreover have "collect_replies (length (r # rs)) m sys (c, h, (incoming, outgoing, out)) =
      Some (Ok (Some (fresh h) # ps, c2, h2, (incoming2, [], out @ x)))"
    using g(1,7) 2(1) by simp
  ultimately show ?case using 2(2-6) g(9,10) by (intro exI conjI) (assumption | simp)+
qed

text \<open>C11.
  Pipelining. Any number of commands appended to a connected context is sent in one stream once the
  first reply is asked for, and the same number of calls of \<open>redisGetReply\<close> returns the replies in the
  order of the commands, however the peer's bytes are cut and whatever calls are interrupted.
\<close>

theorem redisGetReply_pipelines:
  assumes "redisConnectFd m fd = Some c" and "plays sys fd" and "\<not> mem_fails m" and "allocates h"
    and "list_all sendable argvs" and "list_all acceptable rs" and "length rs = length argvs" and "argvs \<noteq> []"
    and "brings (concat (map encode_reply rs)) incoming" and "takes (length (concat (map resp_request argvs))) outgoing"
  shows "\<exists>c1 ps c2 h2 incoming2. append_all m argvs c = Ok (map (\<lambda>_. True) argvs, c1) \<and>
     collect_replies (length argvs) m sys (c1, h, (incoming, outgoing, [])) =
       Some (Ok (ps, c2, h2, (incoming2, [], concat (map resp_request argvs)))) \<and>
     holds_all (cells h2) (fresh h) (fresh h2) ps rs \<and> client fd [] [] c2"
proof -
  obtain c1 where c1: "append_all m argvs c = Ok (map (\<lambda>_. True) argvs, c1)"
      "client fd [] (concat (map resp_request argvs)) c1"
    using append_all_client [OF assms(3,5) redisConnectFd_client [OF assms(1)]] by auto
  have ne: "rs \<noteq> []" using assms(7,8) by auto
  have inp: "[] @ concat (map encode_reply rs) = concat (map encode_reply rs) @ []" by simp
  have e: "[] = [] \<or> concat (map resp_request argvs) = []" "rs = [] \<longrightarrow> concat (map resp_request argvs) = []" using ne by simp_all
  obtain ps c2 h2 in2 u1 z1 where 2: "collect_replies (length rs) m sys (c1, h, (incoming, outgoing, [])) =
         Some (Ok (ps, c2, h2, (in2, [], [] @ concat (map resp_request argvs))))"
       "client fd u1 [] c2" "[] = u1 @ z1" "holds_all (cells h2) (fresh h) (fresh h2) ps rs"
    using collect_replies_client [OF assms(2,3,6) c1(2) e assms(4) inp assms(9,10), of "[]"] by blast
  then show ?thesis using c1(1) assms(7) by auto
qed

section \<open>Failure\<close>

fun run_commands ::
    "cmem \<Rightarrow> 'w system \<Rightarrow> (string \<times> fmtarg list) list \<Rightarrow> 'w conn \<Rightarrow> (ptr list \<times> 'w conn) outcome option" where
  "run_commands m sys [] s = Some (Ok ([], s))"
| "run_commands m sys ((format, ap) # cs) s =
     (case redisCommand m sys format ap s of
        None \<Rightarrow> None
      | Some (Fault e) \<Rightarrow> Some (Fault e)
      | Some (Ok (p, s1)) \<Rightarrow>
          (case run_commands m sys cs s1 of
             Some (Ok (ps, s2)) \<Rightarrow> Some (Ok (p # ps, s2))
           | other \<Rightarrow> other))"

lemma run_commands_lost:
  assumes m: "\<not> mem_fails m"
  shows "list_all (\<lambda>(format, ap). \<exists>argv. fmt_argv format ap = Ok (Some argv)) cs \<Longrightarrow> lost c h \<Longrightarrow>
     \<exists>c1 h1. run_commands m sys cs (c, h, w) = Some (Ok (map (\<lambda>_. None) cs, c1, h1, w)) \<and>
       c_err c1 = c_err c \<and> c_errstr c1 = c_errstr c"
proof (induction cs arbitrary: c h)
  case Nil
  then show ?case by auto
next
  case (Cons q cs)
  then obtain format ap argv where q: "q = (format, ap)" "fmt_argv format ap = Ok (Some argv)" by (cases q) auto
  obtain c1 h1 where 1: "redisCommand m sys format ap (c, h, w) = Some (Ok (None, c1, h1, w))" "lost c1 h1"
      "c_err c1 = c_err c" "c_errstr c1 = c_errstr c"
    using redisCommand_lost [where sys = sys and w = w, OF Cons.prems(2) m q(2)] by blast
  have "list_all (\<lambda>(format, ap). \<exists>argv. fmt_argv format ap = Ok (Some argv)) cs" using Cons.prems(1) by simp
  from Cons.IH [OF this 1(2)] obtain c2 h2 where
      "run_commands m sys cs (c1, h1, w) = Some (Ok (map (\<lambda>_. None) cs, c2, h2, w))" "c_err c2 = c_err c1" "c_errstr c2 = c_errstr c1"
    by blast
  then show ?case using 1(1,3,4) q(1) by simp
qed

text \<open>C12.
  A closed connection is reported and stays failed. When the peer closes the connection before a
  complete reply has come in, \<open>redisCommand\<close> returns no reply and records \<open>REDIS_ERR_EOF\<close>; every later
  command on the context returns no reply either, keeps that error, and neither reads nor writes.
\<close>

theorem redisCommand_closed_sticky:
  assumes "redisConnectFd m fd = Some c" and "plays sys fd" and "\<not> mem_fails m" and "allocates h"
    and "fmt_argv format ap = Ok (Some argv)" and "reply_ok r" and "reply_depth r \<le> 8"
    and "encode_reply r = z @ w" and "w \<noteq> []" and "closes z incoming" and "takes (length (resp_request argv)) outgoing"
    and "list_all (\<lambda>(format, ap). \<exists>argv. fmt_argv format ap = Ok (Some argv)) later"
  shows "\<exists>c1 h1 w1 c2 h2. redisCommand m sys format ap (c, h, (incoming, outgoing, [])) = Some (Ok (None, c1, h1, w1)) \<and>
     snd (snd w1) = resp_request argv \<and> c_err c1 = REDIS_ERR_EOF \<and> c_errstr c1 = ''Server closed the connection'' \<and>
     run_commands m sys later (c1, h1, w1) = Some (Ok (map (\<lambda>_. None) later, c2, h2, w1)) \<and>
     c_err c2 = REDIS_ERR_EOF \<and> c_errstr c2 = ''Server closed the connection''"
proof -
  have r: "acceptable r" using assms(6,7) by (simp add: acceptable_def)
  have w: "takes (length ([] @ resp_request argv)) outgoing" using assms(11) by simp
  obtain c1 h1 rs1 where 1: "redisCommand m sys format ap (c, h, (incoming, outgoing, [])) =
       Some (Ok (None, c1, h1, (rs1, [], resp_request argv)))"
     "c_err c1 = REDIS_ERR_EOF" "c_errstr c1 = ''Server closed the connection''" "lost c1 h1"
    using redisCommand_closed [OF assms(2,3) redisConnectFd_client [OF assms(1)] assms(4,5) r assms(8-10) w, of "[]"]
    unfolding append_Nil by blast
  obtain c2 h2 where 2: "run_commands m sys later (c1, h1, (rs1, [], resp_request argv)) =
       Some (Ok (map (\<lambda>_. None) later, c2, h2, (rs1, [], resp_request argv)))" "c_err c2 = c_err c1" "c_errstr c2 = c_errstr c1"
    using run_commands_lost [where sys = sys and w = "(rs1, [], resp_request argv)", OF assms(3,12) 1(4)] by blast
  have "snd (snd (rs1, [] :: write_result list, resp_request argv)) = resp_request argv" by simp
  then show ?thesis
    using 1(1-3) 2 by (intro exI [of _ c1] exI [of _ h1] exI [of _ "(rs1, [], resp_request argv)"] exI [of _ c2] exI [of _ h2]) simp
qed

section \<open>A concrete peer\<close>

text \<open>It plays a script; when the script is at its end the calls would block.\<close>

definition demo_peer :: "script system" where
  "demo_peer =
     \<lparr>sys_read = \<lambda>fd n (rs, ws, out). case rs of [] \<Rightarrow> (ReadError EAGAIN, ([], ws, out)) | r # rs' \<Rightarrow> (r, (rs', ws, out)),
      sys_write = \<lambda>fd t (rs, ws, out).
        case ws of [] \<Rightarrow> (WriteError EAGAIN, (rs, [], out))
        | Wrote n # ws' \<Rightarrow> (Wrote n, (rs, ws', out @ take n t))
        | WriteError e # ws' \<Rightarrow> (WriteError e, (rs, ws', out)),
      sys_close = \<lambda>fd w. w, sys_sockerror = \<lambda>fd w. (SockStatus None, w), sys_strerror = \<lambda>e. []\<rparr>"

lemma demo_plays: "plays demo_peer fd"
  by (simp add: plays_def demo_peer_def)

lemma demo_connected_context: "\<exists>c. redisConnectFd demo_mem 5 = Some c"
  by (simp add: redisConnectFd_def redisContextInit_def redisReaderCreate_def redisReaderCreateWithFunctions_def
      sdsempty_def sdsnewlen_def demo_mem_def Let_def)

lemma demo_argv: "fmt_argv ''GET %s'' [ArgStr ''k''] = Ok (Some [''GET'', ''k''])"
  by (simp add: fmt_eval c_str_def)

lemma demo_lengths:
  "length (resp_request [''GET'', ''k'']) = 20" "length (concat (map resp_request [[''PING''], [''GET'', ''k'']])) = 34"
  by code_simp+

lemma demo_encoded: "encode_reply (Reply_String ''ab'') = ''$2'' @ crlf @ ''ab'' @ crlf"
  by (simp add: show_long_def show_int_def dec_one_digit digit_char_Suc)

theorem redisCommand_answers_witness:
  "\<exists>c c1 h1 in1. redisConnectFd demo_mem 5 = Some c \<and>
     redisCommand demo_mem demo_peer ''GET %s'' [ArgStr ''k'']
       (c, empty_heap, ([ReadBytes ''$2'', ReadError EINTR, ReadBytes (crlf @ ''ab'' @ crlf @ ''+'')], [WriteError EINTR, Wrote 7, Wrote 13], [])) =
       Some (Ok (Some 0, c1, h1, (in1, [], resp_request [''GET'', ''k'']))) \<and>
     holds (cells h1) 0 (fresh h1) 0 (Reply_String ''ab'')"
proof -
  obtain c where c: "redisConnectFd demo_mem 5 = Some c" using demo_connected_context by blast
  have r: "reply_ok (Reply_String ''ab'')" "reply_depth (Reply_String ''ab'') \<le> 8" by simp_all
  have i: "brings (encode_reply (Reply_String ''ab'') @ ''+'') [ReadBytes ''$2'', ReadError EINTR, ReadBytes (crlf @ ''ab'' @ crlf @ ''+'')]"
    unfolding demo_encoded by (simp add: crlf_def)
  have w: "takes (length (resp_request [''GET'', ''k''])) [WriteError EINTR, Wrote 7, Wrote 13]"
    unfolding demo_lengths(1) by simp
  have f: "fresh empty_heap = 0" by (simp add: empty_heap_def)
  show ?thesis
    using redisCommand_answers [OF c demo_plays demo_mem_ok empty_heap_allocates demo_argv r i w] c unfolding f by blast
qed

theorem redisGetReply_pipelines_witness:
  "\<exists>c c1 ps c2 h2 in2. redisConnectFd demo_mem 5 = Some c \<and>
     append_all demo_mem [[''PING''], [''GET'', ''k'']] c = Ok ([True, True], c1) \<and>
     collect_replies 2 demo_mem demo_peer
       (c1, empty_heap, ([ReadBytes ''+P'', ReadBytes (''ONG'' @ crlf @ ''$2''), ReadBytes (crlf @ ''ab'' @ crlf)], [Wrote 30, Wrote 4], [])) =
       Some (Ok (ps, c2, h2, (in2, [], concat (map resp_request [[''PING''], [''GET'', ''k'']])))) \<and>
     holds_all (cells h2) 0 (fresh h2) ps [Reply_Status ''PONG'', Reply_String ''ab'']"
proof -
  obtain c where c: "redisConnectFd demo_mem 5 = Some c" using demo_connected_context by blast
  let ?as = "[[''PING''], [''GET'', ''k'']]" and ?rs = "[Reply_Status ''PONG'', Reply_String ''ab'']"
  have a: "list_all sendable ?as" "list_all acceptable ?rs" "length ?rs = length ?as" "?as \<noteq> []"
    by (simp_all add: sendable_def acceptable_def)
  have i: "brings (concat (map encode_reply ?rs)) [ReadBytes ''+P'', ReadBytes (''ONG'' @ crlf @ ''$2''), ReadBytes (crlf @ ''ab'' @ crlf)]"
    by (simp add: crlf_def show_long_def show_int_def dec_one_digit digit_char_Suc)
  have w: "takes (length (concat (map resp_request ?as))) [Wrote 30, Wrote 4]"
    unfolding demo_lengths(2) by simp
  have f: "fresh empty_heap = 0" by (simp add: empty_heap_def)
  have n: "length ?as = 2" "map (\<lambda>_. True) ?as = [True, True]" by simp_all
  show ?thesis
    using redisGetReply_pipelines [OF c demo_plays demo_mem_ok empty_heap_allocates a i w, unfolded n f] c by blast
qed

theorem redisCommand_closed_sticky_witness:
  "\<exists>c c1 h1 w1 c2 h2. redisConnectFd demo_mem 5 = Some c \<and>
     redisCommand demo_mem demo_peer ''GET %s'' [ArgStr ''k'']
       (c, empty_heap, ([ReadBytes ''$2'', ReadBytes []], [Wrote 20], [])) = Some (Ok (None, c1, h1, w1)) \<and>
     run_commands demo_mem demo_peer [(''GET %s'', [ArgStr ''k''])] (c1, h1, w1) = Some (Ok ([None], c2, h2, w1)) \<and>
     c_err c2 = REDIS_ERR_EOF"
proof -
  obtain c where c: "redisConnectFd demo_mem 5 = Some c" using demo_connected_context by blast
  have r: "reply_ok (Reply_String ''ab'')" "reply_depth (Reply_String ''ab'') \<le> 8"
      "encode_reply (Reply_String ''ab'') = ''$2'' @ crlf @ ''ab'' @ crlf" "crlf @ ''ab'' @ crlf \<noteq> []"
    using demo_encoded by simp_all
  have i: "closes ''$2'' [ReadBytes ''$2'', ReadBytes []]" by simp
  have w: "takes (length (resp_request [''GET'', ''k''])) [Wrote 20]"
    unfolding demo_lengths(1) by simp
  have l: "list_all (\<lambda>(format, ap). \<exists>argv. fmt_argv format ap = Ok (Some argv)) [(''GET %s'', [ArgStr ''k''])]"
    using demo_argv by simp
  have n: "map (\<lambda>_. None :: ptr) [(''GET %s'', [ArgStr ''k''])] = [None]" by simp
  show ?thesis
    using redisCommand_closed_sticky [OF c demo_plays demo_mem_ok empty_heap_allocates demo_argv r i w l, unfolded n] c by blast
qed

end
