(* ===== verification/Connection.thy ===== *)
theory Connection
  imports ContextProperties
begin

text \<open>
  The server behind a connection. The file-system layers talk to the server through \<open>redis_reply\<close>, one
  argument list and one reply at a time. Here a peer at the other end of a socket collects the bytes of a
  request, executes it on such a server, and hands out the bytes of the reply; \<^verbatim>\<open>redisCommand\<close> over the
  socket then does what \<open>redis_reply\<close> does.
\<close>

section \<open>Peers\<close>

text \<open>
  What a peer's world shows: the server's state, the part of a request it has, the part of a reply it has
  not sent, and how often it may still interrupt the next call.
\<close>

record ('w, 's) peer_view =
  pv_state :: "'w \<Rightarrow> 's"
  pv_in :: "'w \<Rightarrow> string"
  pv_out :: "'w \<Rightarrow> string"
  pv_patience :: "'w \<Rightarrow> nat"

definition same_view :: "('w, 's) peer_view \<Rightarrow> 'w \<Rightarrow> 'w \<Rightarrow> bool" where
  "same_view v w w1 \<longleftrightarrow>
     pv_state v w1 = pv_state v w \<and> pv_in v w1 = pv_in v w \<and> pv_out v w1 = pv_out v w \<and> pv_patience v w1 < pv_patience v w"

text \<open>
  A write of the rest of a request is interrupted, or takes a part, or takes all of it, and then the
  request is executed. A read while there is output is interrupted or returns a first part of it.
\<close>

definition write_served :: "'s server \<Rightarrow> ('w, 's) peer_view \<Rightarrow> string list \<Rightarrow> string \<Rightarrow> 'w \<Rightarrow> write_result \<times> 'w \<Rightarrow> bool" where
  "write_served srv v argv t w res \<longleftrightarrow>
     (case res of
        (WriteError e, w1) \<Rightarrow> e = EINTR \<and> same_view v w w1
      | (Wrote n, w1) \<Rightarrow>
          if n = 0 then same_view v w w1
          else if n < length t then
            pv_state v w1 = pv_state v w \<and> pv_in v w1 = pv_in v w @ take n t \<and> pv_out v w1 = pv_out v w
          else
            n = length t \<and> pv_in v w1 = [] \<and> pv_state v w1 = snd (srv (pv_state v w) argv) \<and>
            (\<forall>r. fst (srv (pv_state v w) argv) = Some r \<longrightarrow> pv_out v w1 = pv_out v w @ encode_reply r))"

definition read_served :: "('w, 's) peer_view \<Rightarrow> 'w \<Rightarrow> read_result \<times> 'w \<Rightarrow> bool" where
  "read_served v w res \<longleftrightarrow>
     (case res of
        (ReadError e, w1) \<Rightarrow> e = EINTR \<and> same_view v w w1
      | (ReadBytes y, w1) \<Rightarrow>
          y \<noteq> [] \<and> pv_out v w = y @ pv_out v w1 \<and> pv_state v w1 = pv_state v w \<and> pv_in v w1 = pv_in v w)"

definition serves :: "'w system \<Rightarrow> int \<Rightarrow> 's server \<Rightarrow> ('w, 's) peer_view \<Rightarrow> bool" where
  "serves sys fd srv v \<longleftrightarrow>
     (\<forall>w t argv. t \<noteq> [] \<longrightarrow> sendable argv \<longrightarrow> pv_in v w @ t = resp_request argv \<longrightarrow>
        write_served srv v argv t w (sys_write sys fd t w)) \<and>
     (\<forall>w. pv_out v w \<noteq> [] \<longrightarrow> read_served v w (sys_read sys fd (1024 * 16) w))"

lemma serves_sending:
  assumes "serves sys fd srv v" and "sendable argv"
  shows "t \<noteq> [] \<Longrightarrow> pv_in v w @ t = resp_request argv \<Longrightarrow> fst (srv (pv_state v w) argv) = Some r \<Longrightarrow>
     \<exists>w1. sending sys fd t w w1 \<and> pv_in v w1 = [] \<and> pv_state v w1 = snd (srv (pv_state v w) argv) \<and>
       pv_out v w1 = pv_out v w @ encode_reply r"
proof (induction "(t, w)" arbitrary: t w rule: wf_induct_rule [OF wf_measures [of "[\<lambda>(t, w). length t, \<lambda>(t, w). pv_patience v w]"]])
  case (1 t w)
  obtain res w1 where res: "sys_write sys fd t w = (res, w1)" by (cases "sys_write sys fd t w")
  have law: "write_served srv v argv t w (res, w1)"
    using assms 1(2,3) res unfolding serves_def by metis
  note IH = 1(1)
  show ?case
  proof (cases res)
    case (WriteError e)
    then have e: "e = EINTR" "same_view v w w1" using law by (simp_all add: write_served_def)
    then obtain w2 where "sending sys fd t w1 w2" "pv_in v w2 = []" "pv_state v w2 = snd (srv (pv_state v w) argv)"
        "pv_out v w2 = pv_out v w @ encode_reply r"
      using IH [of t w1] 1(2-4) by (auto simp: same_view_def)
    then show ?thesis using sending.write_interrupted [OF 1(2), of sys fd w w1 w2] res WriteError e(1) by blast
  next
    case (Wrote n)
    consider "n = 0" | "0 < n" "n < length t" | "n = length t" "0 < n" using law Wrote by (auto simp: write_served_def split: if_splits)
    then show ?thesis
    proof cases
      case 1
      then have e: "same_view v w w1" using law Wrote by (simp add: write_served_def)
      then obtain w2 where "sending sys fd t w1 w2" "pv_in v w2 = []" "pv_state v w2 = snd (srv (pv_state v w) argv)"
          "pv_out v w2 = pv_out v w @ encode_reply r"
        using IH [of t w1] \<open>t \<noteq> []\<close> \<open>pv_in v w @ t = resp_request argv\<close> \<open>fst (srv (pv_state v w) argv) = Some r\<close>
        by (auto simp: same_view_def)
      then show ?thesis using sending.wrote [OF \<open>t \<noteq> []\<close>, of sys fd w n w1 w2] res Wrote 1 by auto
    next
      case 2
      then have e: "pv_state v w1 = pv_state v w" "pv_in v w1 = pv_in v w @ take n t" "pv_out v w1 = pv_out v w"
        using law Wrote by (simp_all add: write_served_def)
      have d: "drop n t \<noteq> []" "length (drop n t) < length t" "pv_in v w1 @ drop n t = resp_request argv"
        using 2 e(2) \<open>pv_in v w @ t = resp_request argv\<close> by simp_all
      obtain w2 where "sending sys fd (drop n t) w1 w2" "pv_in v w2 = []" "pv_state v w2 = snd (srv (pv_state v w) argv)"
          "pv_out v w2 = pv_out v w @ encode_reply r"
        using IH [of "drop n t" w1] d e \<open>fst (srv (pv_state v w) argv) = Some r\<close> by auto
      then show ?thesis using sending.wrote [OF \<open>t \<noteq> []\<close>, of sys fd w n w1 w2] res Wrote 2 by auto
    next
      case 3
      then have "pv_in v w1 = []" "pv_state v w1 = snd (srv (pv_state v w) argv)" "pv_out v w1 = pv_out v w @ encode_reply r"
        using law Wrote \<open>fst (srv (pv_state v w) argv) = Some r\<close> by (simp_all add: write_served_def)
      then show ?thesis
        using sending.wrote [OF \<open>t \<noteq> []\<close>, of sys fd w n w1 w1] sending.sent [of sys fd w1] res Wrote 3 by auto
    qed
  qed
qed

lemma serves_receiving:
  assumes "serves sys fd srv v"
  shows "pv_out v w \<noteq> [] \<Longrightarrow>
     \<exists>w1. receiving sys fd (length (pv_out v w)) (pv_out v w) w w1 \<and> pv_out v w1 = [] \<and>
       pv_in v w1 = pv_in v w \<and> pv_state v w1 = pv_state v w"
proof (induction w rule: wf_induct_rule [OF wf_measures [of "[\<lambda>w. length (pv_out v w), pv_patience v]"]])
  case (1 w)
  obtain res w1 where res: "sys_read sys fd (1024 * 16) w = (res, w1)" by (cases "sys_read sys fd (1024 * 16) w")
  have law: "read_served v w (res, w1)" using assms 1(2) res unfolding serves_def by metis
  show ?case
  proof (cases res)
    case (ReadError e)
    then have e: "e = EINTR" "same_view v w w1" using law by (simp_all add: read_served_def)
    then have o: "pv_out v w1 = pv_out v w" by (simp add: same_view_def)
    obtain w2 where "receiving sys fd (length (pv_out v w)) (pv_out v w) w1 w2" "pv_out v w2 = []"
        "pv_in v w2 = pv_in v w" "pv_state v w2 = pv_state v w"
      using 1(1) [of w1] 1(2) e by (auto simp: same_view_def)
    then show ?thesis
      using receiving.read_interrupted [of "length (pv_out v w)" sys fd w w1 "pv_out v w" w2] res ReadError e(1) 1(2) by auto
  next
    case (ReadBytes y)
    then have y: "y \<noteq> []" "pv_out v w = y @ pv_out v w1" "pv_state v w1 = pv_state v w" "pv_in v w1 = pv_in v w"
      using law by (simp_all add: read_served_def)
    show ?thesis
    proof (cases "pv_out v w1 = []")
      case True
      then have "receiving sys fd (length (pv_out v w)) y w w1"
        using receiving.received [of "length (pv_out v w)" sys fd w y w1] res ReadBytes y(1,2) by simp
      then show ?thesis using y True by auto
    next
      case False
      obtain w2 where "receiving sys fd (length (pv_out v w1)) (pv_out v w1) w1 w2" "pv_out v w2 = []"
          "pv_in v w2 = pv_in v w" "pv_state v w2 = pv_state v w"
        using 1(1) [of w1] False y by auto
      then show ?thesis
        using receiving.part [OF y(1), of sys fd w w1 "length (pv_out v w)" "pv_out v w1" w2] res ReadBytes False y(2) by auto
    qed
  qed
qed

section \<open>Commands over the connection\<close>

text \<open>The same commands on the server.\<close>

fun call_all :: "'s server \<Rightarrow> (string \<times> fmtarg list) list \<Rightarrow> ('s, redisReply list) op" where
  "call_all srv [] = ret []"
| "call_all srv ((format, ap) # cs) =
     bind (redis_reply srv format ap) (\<lambda>r. bind (call_all srv cs) (\<lambda>rs. ret (r # rs)))"

lemma redis_reply_Ok:
  assumes "redis_reply srv format ap s = (Ok r, s')"
  shows "\<exists>argv. fmt_argv format ap = Ok (Some argv) \<and> fst (srv s argv) = Some r \<and> s' = snd (srv s argv)"
  using assms
  by (auto simp: redis_reply_def redis_call_def bind_def ret_def fail_def split: outcome.splits option.splits)

definition connected_to :: "int \<Rightarrow> ('w, 's) peer_view \<Rightarrow> 's \<Rightarrow> redisContext \<Rightarrow> 'w \<Rightarrow> bool" where
  "connected_to fd v s c w \<longleftrightarrow> client fd [] [] c \<and> pv_state v w = s \<and> pv_in v w = [] \<and> pv_out v w = []"

lemma redisCommand_served:
  assumes sv: "serves sys fd srv v" and m: "\<not> mem_fails m" and c: "connected_to fd v s c w" and h: "allocates h"
    and call: "redis_reply srv format ap s = (Ok r, s')" and r: "acceptable r"
    and send: "\<And>argv. fmt_argv format ap = Ok (Some argv) \<Longrightarrow> sendable argv"
  shows "\<exists>c1 R1 h1 w1. redisCommand m sys format ap (c, h, w) = Some (Ok (Some (fresh h), c1, h1, w1)) \<and>
     connected_to fd v s' c1 w1 \<and> got h r [] R1 h1"
proof -
  have cl: "client fd [] [] c" "pv_state v w = s" "pv_in v w = []" "pv_out v w = []" using c by (simp_all add: connected_to_def)
  obtain argv where argv: "fmt_argv format ap = Ok (Some argv)" "fst (srv s argv) = Some r" "s' = snd (srv s argv)"
    using redis_reply_Ok [OF call] by blast
  have ne: "resp_request argv \<noteq> []" by (simp add: resp_request_def)
  obtain w1 where w1: "sending sys fd (resp_request argv) w w1" "pv_in v w1 = []" "pv_state v w1 = s'" "pv_out v w1 = encode_reply r"
    using serves_sending [OF sv send [OF argv(1)] ne, of w r] cl argv(2,3) by auto
  obtain w2 where w2: "receiving sys fd (length (encode_reply r)) (encode_reply r) w1 w2" "pv_out v w2 = []" "pv_in v w2 = []" "pv_state v w2 = s'"
    using serves_receiving [OF sv, of w1] w1(2-4) encode_reply_nonempty [of r] by auto
  have io: "sending sys fd ([] @ resp_request argv) w w1" "receiving sys fd (length (encode_reply r)) (encode_reply r @ []) w1 w2"
    using w1(1) w2(1) by simp_all
  show ?thesis using redisCommand_runs [OF m cl(1) h argv(1) r io] w2(2-4) unfolding connected_to_def by blast
qed

lemma got_parts: "got h r u R h1 \<Longrightarrow> allocates h1 \<and> fresh h < fresh h1 \<and> (\<forall>a < fresh h. cells h1 a = cells h a) \<and>
    holds (cells h1) (fresh h) (fresh h1) (fresh h) r"
  by (simp add: got_def)

lemma run_commands_served:
  assumes sv: "serves sys fd srv v" and m: "\<not> mem_fails m"
  shows "call_all srv cmds s = (Ok rs, s') \<Longrightarrow> connected_to fd v s c w \<Longrightarrow> allocates h \<Longrightarrow> list_all acceptable rs \<Longrightarrow>
     (\<And>format ap argv. (format, ap) \<in> set cmds \<Longrightarrow> fmt_argv format ap = Ok (Some argv) \<Longrightarrow> sendable argv) \<Longrightarrow>
     \<exists>ps c1 h1 w1. run_commands m sys cmds (c, h, w) = Some (Ok (ps, c1, h1, w1)) \<and> connected_to fd v s' c1 w1 \<and>
       fresh h \<le> fresh h1 \<and> (\<forall>a < fresh h. cells h1 a = cells h a) \<and> holds_all (cells h1) (fresh h) (fresh h1) ps rs"
proof (induction cmds arbitrary: s rs c w h)
  case Nil
  then show ?case by (auto simp: ret_def)
next
  case (Cons q cmds)
  obtain format ap where q: "q = (format, ap)" by (cases q)
  obtain r s1 rs' where call: "redis_reply srv format ap s = (Ok r, s1)" "call_all srv cmds s1 = (Ok rs', s')" "rs = r # rs'"
    using Cons.prems(1) unfolding q
    by (auto simp: bind_def ret_def split: prod.splits outcome.splits)
  have acc: "acceptable r" "list_all acceptable rs'" using Cons.prems(4) call(3) by simp_all
  have send: "fmt_argv format ap = Ok (Some argv) \<Longrightarrow> sendable argv" for argv
    using Cons.prems(5) [of format ap argv] q by simp
  obtain c1 R1 h1 w1 where 1: "redisCommand m sys format ap (c, h, w) = Some (Ok (Some (fresh h), c1, h1, w1))"
      "connected_to fd v s1 c1 w1" "got h r [] R1 h1"
    using redisCommand_served [OF sv m Cons.prems(2,3) call(1) acc(1) send] by blast
  note g = got_parts [OF 1(3)]
  have send_rest: "(f, p) \<in> set cmds \<Longrightarrow> fmt_argv f p = Ok (Some argv) \<Longrightarrow> sendable argv" for f p argv
    using Cons.prems(5) [of f p argv] by simp
  obtain ps c2 h2 w2 where 2: "run_commands m sys cmds (c1, h1, w1) = Some (Ok (ps, c2, h2, w2))" "connected_to fd v s' c2 w2"
      "fresh h1 \<le> fresh h2" "\<forall>a < fresh h1. cells h2 a = cells h1 a" "holds_all (cells h2) (fresh h1) (fresh h2) ps rs'"
    using Cons.IH [OF call(2) 1(2) _ acc(2), of h1] g send_rest by blast
  have "holds (cells h2) (fresh h) (fresh h1) (fresh h) r" using holds_cong(1) [of "cells h1" _ _ _ _ "cells h2"] g 2(4) by simp
  then have "holds_all (cells h2) (fresh h) (fresh h2) (Some (fresh h) # ps) (r # rs')"
    using 2(3,5) g by (auto intro!: bexI [of _ "fresh h1"])
  moreover have "run_commands m sys (q # cmds) (c, h, w) = Some (Ok (Some (fresh h) # ps, c2, h2, w2))"
    using 1(1) 2(1) q by simp
  ultimately show ?case using 2(2-4) g call(3) by (intro exI conjI) (assumption | simp)+
qed

text \<open>C5.
  The server behind a connection. Over a socket whose peer executes the requests it receives on a
  server and sends the replies back, with writes and reads of any size and any finite number of
  interruptions, a sequence of \<open>redisCommand\<close> calls returns exactly the replies that \<open>redis_reply\<close>, the
  interface the file-system operations use, gives on that server, and leaves the server in the same state.
\<close>

theorem connection_serves:
  assumes "serves sys fd srv v" and "\<not> mem_fails m" and "redisConnectFd m fd = Some c" and "allocates h"
    and "pv_in v w = []" and "pv_out v w = []"
    and "call_all srv cmds (pv_state v w) = (Ok rs, s')" and "list_all acceptable rs"
    and "list_all (\<lambda>(format, ap). \<forall>argv. fmt_argv format ap = Ok (Some argv) \<longrightarrow> sendable argv) cmds"
  shows "\<exists>ps c1 h1 w1. run_commands m sys cmds (c, h, w) = Some (Ok (ps, c1, h1, w1)) \<and>
     holds_all (cells h1) (fresh h) (fresh h1) ps rs \<and> pv_state v w1 = s' \<and>
     c_err c1 = 0 \<and> pv_in v w1 = [] \<and> pv_out v w1 = []"
proof -
  have "connected_to fd v (pv_state v w) c w"
    using redisConnectFd_client [OF assms(3)] assms(5,6) by (simp add: connected_to_def)
  moreover have "sendable argv" if "(format, ap) \<in> set cmds" "fmt_argv format ap = Ok (Some argv)" for format ap argv
    using assms(9) that by (auto simp: list_all_iff)
  ultimately obtain ps c1 h1 w1 where "run_commands m sys cmds (c, h, w) = Some (Ok (ps, c1, h1, w1))" "connected_to fd v s' c1 w1"
      "holds_all (cells h1) (fresh h) (fresh h1) ps rs"
    using run_commands_served [OF assms(1,2,7) _ assms(4,8)] by blast
  then show ?thesis by (auto simp: connected_to_def client_def blocking_def)
qed

section \<open>A concrete peer\<close>

text \<open>
  It runs the documented server, takes a whole write after one interruption, and hands out three bytes at
  a time. Requests are read back by a parser of the protocol.
\<close>

fun parse_bulks :: "nat \<Rightarrow> string \<Rightarrow> string list" where
  "parse_bulks 0 s = []"
| "parse_bulks (Suc n) s =
     (let ds = takeWhile isdigit (tl s); len = undec ds; t = drop (length ds + 3) s
      in take len t # parse_bulks n (drop (len + 2) t))"

definition parse_request :: "string \<Rightarrow> string list" where
  "parse_request s = (let ds = takeWhile isdigit (tl s) in parse_bulks (undec ds) (drop (length ds + 3) s))"

lemma drop_line: "drop (length d + 3) (c # d @ CR # LF # t) = t"
  by (simp add: numeral_3_eq_3)

lemma parse_bulks_Cons: "parse_bulks (Suc n) (resp_bulk a @ rest) = a # parse_bulks n rest"
proof -
  let ?d = "dec (length a)" and ?s = "resp_bulk a @ rest"
  have s: "?s = CHR ''$'' # ?d @ CR # LF # a @ CR # LF # rest" by (simp add: resp_bulk_def crlf_def)
  have ds: "takeWhile isdigit (tl ?s) = ?d" by (simp add: s)
  have t: "drop (length ?d + 3) ?s = a @ CR # LF # rest" unfolding s by (rule drop_line)
  show ?thesis unfolding parse_bulks.simps Let_def ds t by simp
qed

lemma parse_bulks_resp: "parse_bulks (length argv) (concat (map resp_bulk argv)) = argv"
  by (induction argv) (simp_all only: list.map concat.simps list.size(4) list.size(3) parse_bulks_Cons parse_bulks.simps(1) add_Suc_right add_0_right One_nat_def)

lemma parse_request_resp [simp]: "parse_request (resp_request argv) = argv"
proof -
  let ?d = "dec (length argv)" and ?s = "resp_request argv"
  have s: "?s = CHR ''*'' # ?d @ CR # LF # concat (map resp_bulk argv)" by (simp add: resp_request_def crlf_def)
  have ds: "takeWhile isdigit (tl ?s) = ?d" by (simp add: s)
  have t: "drop (length ?d + 3) ?s = concat (map resp_bulk argv)" unfolding s by (rule drop_line)
  show ?thesis unfolding parse_request_def Let_def ds t by (simp add: parse_bulks_resp)
qed

type_synonym demo_world = "keyspace \<times> string \<times> string \<times> nat"

definition demo_remote :: "demo_world system" where
  "demo_remote =
     \<lparr>sys_read = \<lambda>fd n (db, i, out, k).
        if 0 < k then (ReadError EINTR, (db, i, out, k - 1)) else (ReadBytes (take 3 out), (db, i, drop 3 out, 1)),
      sys_write = \<lambda>fd t (db, i, out, k).
        if 0 < k then (WriteError EINTR, (db, i, out, k - 1))
        else (case doc_server db (parse_request (i @ t)) of
                (Some r, db') \<Rightarrow> (Wrote (length t), (db', [], out @ encode_reply r, 1))
              | (None, db') \<Rightarrow> (Wrote (length t), (db', [], out, 1))),
      sys_close = \<lambda>fd w. w, sys_sockerror = \<lambda>fd w. (SockStatus None, w), sys_strerror = \<lambda>e. []\<rparr>"

definition demo_view :: "(demo_world, keyspace) peer_view" where
  "demo_view = \<lparr>pv_state = fst, pv_in = \<lambda>(db, i, out, k). i, pv_out = \<lambda>(db, i, out, k). out, pv_patience = \<lambda>(db, i, out, k). k\<rparr>"

lemma demo_serves: "serves demo_remote fd doc_server demo_view"
  unfolding serves_def
proof (intro conjI allI impI)
  fix w :: demo_world and t argv assume t: "t \<noteq> []" and a: "pv_in demo_view w @ t = resp_request argv"
  obtain db i out k where w: "w = (db, i, out, k)" by (cases w)
  obtain r db' where r: "doc_server db argv = (r, db')" by (cases "doc_server db argv")
  show "write_served doc_server demo_view argv t w (sys_write demo_remote fd t w)"
    using t a r unfolding w by (cases r) (simp_all add: write_served_def same_view_def demo_remote_def demo_view_def)
next
  fix w :: demo_world assume "pv_out demo_view w \<noteq> []"
  then show "read_served demo_view w (sys_read demo_remote fd (1024 * 16) w)"
    by (cases w) (simp add: read_served_def same_view_def demo_remote_def demo_view_def)
qed

theorem connection_serves_witness:
  "\<exists>c ps c1 h1 w1. redisConnectFd demo_mem 5 = Some c \<and>
     run_commands demo_mem demo_remote [(''INCR current_id_count'', []), (''GET current_id_count'', [])]
       (c, empty_heap, (Map.empty, [], [], 1)) = Some (Ok (ps, c1, h1, w1)) \<and>
     holds_all (cells h1) 0 (fresh h1) ps [Reply_Integer 1, Reply_String ''1''] \<and> fst w1 ''current_id_count'' = Some (RStr ''1'')"
proof -
  let ?cmds = "[(''INCR current_id_count'', []), (''GET current_id_count'', [])] :: (string \<times> fmtarg list) list"
  let ?w = "(Map.empty, [], [], 1) :: demo_world" and ?s' = "[''current_id_count'' \<mapsto> RStr ''1''] :: keyspace"
  obtain c where c: "redisConnectFd demo_mem 5 = Some c" using demo_connected_context by blast
  have f: "fmt_argv ''INCR current_id_count'' [] = Ok (Some [''INCR'', ''current_id_count''])"
      "fmt_argv ''GET current_id_count'' [] = Ok (Some [''GET'', ''current_id_count''])"
    by (simp_all add: fmt_eval c_str_def)
  have call: "call_all doc_server ?cmds (pv_state demo_view ?w) = (Ok [Reply_Integer 1, Reply_String ''1''], ?s')"
    by (simp add: demo_view_def redis_reply_def redis_call_def f doc_server_def redis_doc_def bind_def ret_def)
  have acc: "list_all acceptable [Reply_Integer 1, Reply_String ''1'']" by (simp add: acceptable_def)
  have send: "list_all (\<lambda>(format, ap). \<forall>argv. fmt_argv format ap = Ok (Some argv) \<longrightarrow> sendable argv) ?cmds"
    using f by (simp add: sendable_def)
  have v: "pv_in demo_view ?w = []" "pv_out demo_view ?w = []" by (simp_all add: demo_view_def)
  have z: "fresh empty_heap = 0" by (simp add: empty_heap_def)
  obtain ps c1 h1 w1 where 1: "run_commands demo_mem demo_remote ?cmds (c, empty_heap, ?w) = Some (Ok (ps, c1, h1, w1))"
      "holds_all (cells h1) 0 (fresh h1) ps [Reply_Integer 1, Reply_String ''1'']" "pv_state demo_view w1 = ?s'"
    using connection_serves [OF demo_serves demo_mem_ok c empty_heap_allocates v call acc send] unfolding z by blast
  have "fst w1 ''current_id_count'' = Some (RStr ''1'')" using 1(3) by (simp add: demo_view_def)
  then show ?thesis using c 1(1,2) by blast
qed

end
