(* ===== verification/Net.thy ===== *)
theory Net
  imports Async "HOL-Library.Signed_Division"
begin

unbundle bit_operations_syntax

text \<open>
  Connecting sockets: \<^verbatim>\<open>net.c\<close> and the \<^verbatim>\<open>redisConnect\<close> functions of \<^verbatim>\<open>hiredis.c\<close> and \<^verbatim>\<open>async.c\<close>. The
  calls of the system and of the resolver are a parameter; each fails with an \<open>errno\<close> or returns a
  value, and changes a world \<open>'w\<close>. \<^verbatim>\<open>errno\<close> is part of the state, because \<^verbatim>\<open>redisContextWaitReady\<close> and the
  error texts read it after other calls.
\<close>

section \<open>The system\<close>

datatype address_family = AF_INET | AF_INET6 | AF_LOCAL

record addrinfo =
  ai_family :: address_family
  ai_addr :: string

record timeval =
  tv_sec :: int
  tv_usec :: int

datatype sockopt = SO_KEEPALIVE int | TCP_KEEPIDLE int | TCP_KEEPINTVL int | TCP_KEEPCNT int | TCP_NODELAY int
  | SO_REUSEADDR int | SO_RCVTIMEO timeval | SO_SNDTIMEO timeval

record 'w net =
  n_socket :: "address_family \<Rightarrow> 'w \<Rightarrow> (errno + int) \<times> 'w"
  n_getfl :: "int \<Rightarrow> 'w \<Rightarrow> (errno + cint) \<times> 'w"
  n_setfl :: "int \<Rightarrow> cint \<Rightarrow> 'w \<Rightarrow> (errno + unit) \<times> 'w"
  n_setsockopt :: "int \<Rightarrow> sockopt \<Rightarrow> 'w \<Rightarrow> (errno + unit) \<times> 'w"
  n_poll :: "int \<Rightarrow> int \<Rightarrow> 'w \<Rightarrow> (errno + nat) \<times> 'w"
  n_bind :: "int \<Rightarrow> string \<Rightarrow> 'w \<Rightarrow> (errno + unit) \<times> 'w"
  n_connect :: "int \<Rightarrow> string \<Rightarrow> 'w \<Rightarrow> (errno + unit) \<times> 'w"
  n_getaddrinfo :: "string \<Rightarrow> string option \<Rightarrow> address_family \<Rightarrow> 'w \<Rightarrow> (int + addrinfo list) \<times> 'w"
  n_freeaddrinfo :: "addrinfo list \<Rightarrow> 'w \<Rightarrow> 'w"
  n_gai_strerror :: "int \<Rightarrow> string"

definition O_NONBLOCK :: cint where "O_NONBLOCK = 0x800"
definition INT_MAX :: int where "INT_MAX = 2 ^ 31 - 1"
definition LONG_MAX :: int where "LONG_MAX = 2 ^ 63 - 1"
definition REDIS_CONNECT_RETRIES :: nat where "REDIS_CONNECT_RETRIES = 10"
definition REDIS_KEEPALIVE_INTERVAL :: int where "REDIS_KEEPALIVE_INTERVAL = 15"

record 'w netstate =
  ns_c :: redisContext
  ns_errno :: errno
  ns_world :: 'w

type_synonym ('w, 'a) netop = "('w netstate, 'a) op"

text \<open>A call that fails sets \<^verbatim>\<open>errno\<close>.\<close>

definition syscall :: "('w \<Rightarrow> (errno + 'a) \<times> 'w) \<Rightarrow> ('w, 'a option) netop" where
  "syscall call = (\<lambda>s.
     case call (ns_world s) of
       (Inl e, w) \<Rightarrow> (Ok None, s\<lparr>ns_errno := e, ns_world := w\<rparr>)
     | (Inr x, w) \<Rightarrow> (Ok (Some x), s\<lparr>ns_world := w\<rparr>))"

definition set_context :: "(redisContext \<Rightarrow> redisContext) \<Rightarrow> ('w, unit) netop" where
  "set_context f = modify (\<lambda>s. s\<lparr>ns_c := f (ns_c s)\<rparr>)"

definition resolve_call :: "('w \<Rightarrow> 'a \<times> 'w) \<Rightarrow> ('w, 'a) netop" where
  "resolve_call call = (\<lambda>s. case call (ns_world s) of (x, w) \<Rightarrow> (Ok x, s\<lparr>ns_world := w\<rparr>))"

text \<open>Errors: with the text of \<^verbatim>\<open>errno\<close>, or with a text of the caller's.\<close>

definition error_from_errno :: "'w system \<Rightarrow> string option \<Rightarrow> ('w, unit) netop" where
  "error_from_errno sys prefix =
     bind (get (\<lambda>s. (ns_c s, ns_errno s))) (\<lambda>(c, e).
     bind (lift (redisSetErrorFromErrno sys c REDIS_ERR_IO prefix e)) (\<lambda>c1. set_context (\<lambda>_. c1)))"

definition error_other :: "string \<Rightarrow> ('w, unit) netop" where
  "error_other t =
     bind (get ns_c) (\<lambda>c.
     bind (lift (redisSetError c REDIS_ERR_OTHER (Some t) [])) (\<lambda>c1. set_context (\<lambda>_. c1)))"

text \<open>\<^verbatim>\<open>snprintf(buf,128,"...%s",text)\<close>\<close>

definition prefixed :: "string \<Rightarrow> string \<Rightarrow> string" where
  "prefixed pre t = take 127 (pre @ c_str t)"

section \<open>Sockets\<close>

definition redisContextCloseFd :: "'w system \<Rightarrow> ('w, unit) netop" where
  "redisContextCloseFd sys = modify (\<lambda>s.
     if c_fd (ns_c s) \<ge> 0 then
       s\<lparr>ns_world := sys_close sys (c_fd (ns_c s)) (ns_world s), ns_c := (ns_c s)\<lparr>c_fd := -1\<rparr>\<rparr>
     else s)"

text \<open>The error and the closing that most failing calls share.\<close>

definition give_up :: "'w system \<Rightarrow> string option \<Rightarrow> ('w, bool) netop" where
  "give_up sys prefix = bind (error_from_errno sys prefix) (\<lambda>_. bind (redisContextCloseFd sys) (\<lambda>_. ret False))"

definition redisSetReuseAddr :: "'w system \<Rightarrow> 'w net \<Rightarrow> ('w, bool) netop" where
  "redisSetReuseAddr sys net =
     bind (get (\<lambda>s. c_fd (ns_c s))) (\<lambda>fd.
     bind (syscall (n_setsockopt net fd (SO_REUSEADDR 1))) (\<lambda>r.
       if r = None then give_up sys None else ret True))"

definition redisCreateSocket :: "'w system \<Rightarrow> 'w net \<Rightarrow> address_family \<Rightarrow> ('w, bool) netop" where
  "redisCreateSocket sys net family =
     bind (syscall (n_socket net family)) (\<lambda>r.
       case r of
         None \<Rightarrow> bind (error_from_errno sys None) (\<lambda>_. ret False)
       | Some s \<Rightarrow>
           bind (set_context (\<lambda>c. c\<lparr>c_fd := s\<rparr>)) (\<lambda>_.
             if family = AF_INET then redisSetReuseAddr sys net else ret True))"

definition redisSetBlocking :: "'w system \<Rightarrow> 'w net \<Rightarrow> bool \<Rightarrow> ('w, bool) netop" where
  "redisSetBlocking sys net blocking =
     bind (get (\<lambda>s. c_fd (ns_c s))) (\<lambda>fd.
     bind (syscall (n_getfl net fd)) (\<lambda>r.
       case r of
         None \<Rightarrow> give_up sys (Some ''fcntl(F_GETFL)'')
       | Some flags \<Rightarrow>
           bind (syscall (n_setfl net fd (if blocking then flags AND NOT O_NONBLOCK else flags OR O_NONBLOCK))) (\<lambda>q.
             if q = None then give_up sys (Some ''fcntl(F_SETFL)'') else ret True)))"

text \<open>Options set one after the other, until one fails.\<close>

fun set_options :: "'w system \<Rightarrow> 'w net \<Rightarrow> int \<Rightarrow> sockopt list \<Rightarrow> ('w, bool) netop" where
  "set_options sys net fd [] = ret True"
| "set_options sys net fd (opt # opts) =
     bind (syscall (n_setsockopt net fd opt)) (\<lambda>r.
       if r = None then
         bind (get ns_errno) (\<lambda>e. bind (error_other (sys_strerror sys e)) (\<lambda>_. ret False))
       else set_options sys net fd opts)"

definition redisKeepAlive :: "'w system \<Rightarrow> 'w net \<Rightarrow> int \<Rightarrow> ('w, bool) netop" where
  "redisKeepAlive sys net interval =
     bind (get (\<lambda>s. c_fd (ns_c s))) (\<lambda>fd.
       let val = interval sdiv 3; val = (if val = 0 then 1 else val)
       in set_options sys net fd [SO_KEEPALIVE 1, TCP_KEEPIDLE interval, TCP_KEEPINTVL val, TCP_KEEPCNT 3])"

definition redisSetTcpNoDelay :: "'w system \<Rightarrow> 'w net \<Rightarrow> ('w, bool) netop" where
  "redisSetTcpNoDelay sys net =
     bind (get (\<lambda>s. c_fd (ns_c s))) (\<lambda>fd.
     bind (syscall (n_setsockopt net fd (TCP_NODELAY 1))) (\<lambda>r.
       if r = None then give_up sys (Some ''setsockopt(TCP_NODELAY)'') else ret True))"

text \<open>The timeout of \<^verbatim>\<open>poll\<close> in milliseconds, in \<^verbatim>\<open>long\<close> arithmetic; \<open>None\<close> when it is refused.\<close>

definition MAX_MSEC :: int where "MAX_MSEC = (LONG_MAX - 999) div 1000"

definition wait_msec :: "timeval option \<Rightarrow> int option" where
  "wait_msec timeout =
     (case timeout of
        None \<Rightarrow> Some (-1)
      | Some tv \<Rightarrow>
          if tv_usec tv > 1000000 \<or> tv_sec tv > MAX_MSEC then None
          else
            let msec = signed_take_bit 63 (tv_sec tv * 1000 + (tv_usec tv + 999) sdiv 1000)
            in Some (if msec < 0 \<or> msec > INT_MAX then INT_MAX else msec))"

text \<open>\<^verbatim>\<open>redisCheckSocketError\<close> on this state.\<close>

definition check_socket :: "'w system \<Rightarrow> ('w, bool) netop" where
  "check_socket sys = (\<lambda>s.
     case redisCheckSocketError sys (ns_c s) (ns_world s) of
       Fault e \<Rightarrow> (Fault e, s)
     | Ok (None, c, w) \<Rightarrow> (Ok True, s\<lparr>ns_c := c, ns_world := w\<rparr>)
     | Ok (Some e, c, w) \<Rightarrow> (Ok False, s\<lparr>ns_c := c, ns_errno := e, ns_world := w\<rparr>))"

definition redisContextWaitReady :: "'w system \<Rightarrow> 'w net \<Rightarrow> timeval option \<Rightarrow> ('w, bool) netop" where
  "redisContextWaitReady sys net timeout =
     (case wait_msec timeout of
        None \<Rightarrow> give_up sys None
      | Some msec \<Rightarrow>
          bind (get ns_errno) (\<lambda>e.
            if e = EINPROGRESS then
              bind (get (\<lambda>s. c_fd (ns_c s))) (\<lambda>fd.
              bind (syscall (n_poll net fd msec)) (\<lambda>res.
                case res of
                  None \<Rightarrow> give_up sys (Some ''poll(2)'')
                | Some n \<Rightarrow>
                    if n = 0 then
                      bind (modify (\<lambda>s. s\<lparr>ns_errno := ETIMEDOUT\<rparr>)) (\<lambda>_. give_up sys None)
                    else check_socket sys))
            else give_up sys None))"

definition redisContextSetTimeout :: "'w system \<Rightarrow> 'w net \<Rightarrow> timeval \<Rightarrow> ('w, bool) netop" where
  "redisContextSetTimeout sys net tv =
     bind (get (\<lambda>s. c_fd (ns_c s))) (\<lambda>fd.
     bind (syscall (n_setsockopt net fd (SO_RCVTIMEO tv))) (\<lambda>r.
       if r = None then bind (error_from_errno sys (Some ''setsockopt(SO_RCVTIMEO)'')) (\<lambda>_. ret False)
       else
         bind (syscall (n_setsockopt net fd (SO_SNDTIMEO tv))) (\<lambda>q.
           if q = None then bind (error_from_errno sys (Some ''setsockopt(SO_SNDTIMEO)'')) (\<lambda>_. ret False)
           else ret True)))"

section \<open>Connecting over TCP\<close>

text \<open>Where the body of the loop over the addresses of the host leaves to.\<close>

datatype attempt = NextAddress | AddrRetry | GotoError | GotoEnd

fun bind_first :: "'w net \<Rightarrow> int \<Rightarrow> addrinfo list \<Rightarrow> ('w, bool) netop" where
  "bind_first net s [] = ret False"
| "bind_first net s (b # bs) =
     bind (syscall (n_bind net s (ai_addr b))) (\<lambda>r. if r = None then bind_first net s bs else ret True)"

text \<open>Binding to the source address; false is a jump to the label \<^verbatim>\<open>error\<close>.\<close>

definition bind_source :: "'w system \<Rightarrow> 'w net \<Rightarrow> int \<Rightarrow> address_family \<Rightarrow> bool \<Rightarrow> string \<Rightarrow> ('w, bool) netop" where
  "bind_source sys net s family reuseaddr source_addr =
     bind (resolve_call (n_getaddrinfo net source_addr None family)) (\<lambda>rv.
       case rv of
         Inl e \<Rightarrow> bind (error_other (prefixed (''Can'' @ [CHR 0x27] @ ''t get addr: '') (n_gai_strerror net e))) (\<lambda>_. ret False)
       | Inr bservinfo \<Rightarrow>
           bind (if reuseaddr then syscall (n_setsockopt net s (SO_REUSEADDR 1)) else ret (Some ())) (\<lambda>ok.
             if ok = None then ret False
             else
               bind (bind_first net s bservinfo) (\<lambda>bound.
               bind (modify (\<lambda>st. st\<lparr>ns_world := n_freeaddrinfo net bservinfo (ns_world st)\<rparr>)) (\<lambda>_.
                 if bound then ret True
                 else
                   bind (get ns_errno) (\<lambda>e.
                   bind (error_other (prefixed (''Can'' @ [CHR 0x27] @ ''t bind socket: '') (sys_strerror sys e))) (\<lambda>_.
                     ret False))))))"

text \<open>After \<^verbatim>\<open>connect\<close>: the socket is made blocking again, and gets its option.\<close>

definition finish_tcp :: "'w system \<Rightarrow> 'w net \<Rightarrow> bool \<Rightarrow> ('w, attempt) netop" where
  "finish_tcp sys net blocking =
     bind (if blocking then redisSetBlocking sys net True else ret True) (\<lambda>ok.
       if \<not> ok then ret GotoError
       else
         bind (redisSetTcpNoDelay sys net) (\<lambda>ok2.
           if \<not> ok2 then ret GotoError
           else bind (set_context (set_flag REDIS_CONNECTED)) (\<lambda>_. ret GotoEnd)))"

definition connect_tcp ::
    "'w system \<Rightarrow> 'w net \<Rightarrow> timeval option \<Rightarrow> bool \<Rightarrow> bool \<Rightarrow> int \<Rightarrow> addrinfo \<Rightarrow> ('w, attempt) netop" where
  "connect_tcp sys net timeout blocking reuseaddr s p =
     bind (syscall (n_connect net s (ai_addr p))) (\<lambda>r.
     bind (get ns_errno) (\<lambda>e.
       if r \<noteq> None then finish_tcp sys net blocking
       else if e = EHOSTUNREACH then bind (redisContextCloseFd sys) (\<lambda>_. ret NextAddress)
       else if e = EINPROGRESS \<and> \<not> blocking then finish_tcp sys net blocking
       else if e = EADDRNOTAVAIL \<and> reuseaddr then ret AddrRetry
       else
         bind (redisContextWaitReady sys net timeout) (\<lambda>ok.
           if \<not> ok then ret GotoError else finish_tcp sys net blocking)))"

definition try_address ::
    "'w system \<Rightarrow> 'w net \<Rightarrow> timeval option \<Rightarrow> string option \<Rightarrow> address_family \<Rightarrow> bool \<Rightarrow> bool \<Rightarrow> addrinfo \<Rightarrow> ('w, attempt) netop" where
  "try_address sys net timeout source_addr family blocking reuseaddr p =
     bind (syscall (n_socket net (ai_family p))) (\<lambda>r.
       case r of
         None \<Rightarrow> ret NextAddress
       | Some s \<Rightarrow>
           bind (set_context (\<lambda>c. c\<lparr>c_fd := s\<rparr>)) (\<lambda>_.
           bind (redisSetBlocking sys net False) (\<lambda>ok.
             if \<not> ok then ret GotoError
             else
               bind (case source_addr of None \<Rightarrow> ret True | Some a \<Rightarrow> bind_source sys net s family reuseaddr a) (\<lambda>bound.
                 if \<not> bound then ret GotoError
                 else connect_tcp sys net timeout blocking reuseaddr s p))))"

text \<open>The loop; \<open>reuses\<close> counts the retries with the same address, over all addresses.\<close>

function connect_loop ::
    "'w system \<Rightarrow> 'w net \<Rightarrow> timeval option \<Rightarrow> string option \<Rightarrow> address_family \<Rightarrow> bool \<Rightarrow> bool \<Rightarrow> addrinfo list \<Rightarrow> nat \<Rightarrow>
     ('w, bool) netop" where
  "connect_loop sys net timeout source_addr family blocking reuseaddr [] reuses =
     bind (get ns_errno) (\<lambda>e.
     bind (error_other (prefixed (''Can'' @ [CHR 0x27] @ ''t create socket: '') (sys_strerror sys e))) (\<lambda>_. ret False))"
| "connect_loop sys net timeout source_addr family blocking reuseaddr (p # ps) reuses =
     bind (try_address sys net timeout source_addr family blocking reuseaddr p) (\<lambda>a.
       case a of
         NextAddress \<Rightarrow> connect_loop sys net timeout source_addr family blocking reuseaddr ps reuses
       | AddrRetry \<Rightarrow>
           if reuses + 1 \<ge> REDIS_CONNECT_RETRIES then ret False
           else connect_loop sys net timeout source_addr family blocking reuseaddr (p # ps) (reuses + 1)
       | GotoError \<Rightarrow> ret False
       | GotoEnd \<Rightarrow> ret True)"
  by pat_completeness auto
termination
  by (relation "measures [\<lambda>(sys, net, timeout, source_addr, family, blocking, reuseaddr, ps, reuses). length ps,
    \<lambda>(sys, net, timeout, source_addr, family, blocking, reuseaddr, ps, reuses). REDIS_CONNECT_RETRIES - reuses]") auto

definition redisContextConnectTcp_priv ::
    "'w system \<Rightarrow> 'w net \<Rightarrow> string \<Rightarrow> int \<Rightarrow> timeval option \<Rightarrow> string option \<Rightarrow> ('w, bool) netop" where
  "redisContextConnectTcp_priv sys net addr port timeout source_addr =
     bind (get (\<lambda>s. (has_flag (ns_c s) REDIS_BLOCK, has_flag (ns_c s) REDIS_REUSEADDR))) (\<lambda>(blocking, reuseaddr).
     let port_str = take 5 (show_int port) in
     bind (resolve_call (n_getaddrinfo net addr (Some port_str) AF_INET)) (\<lambda>rv.
     bind (case rv of Inr l \<Rightarrow> ret (rv, AF_INET)
           | Inl _ \<Rightarrow> bind (resolve_call (n_getaddrinfo net addr (Some port_str) AF_INET6)) (\<lambda>rv6. ret (rv6, AF_INET6)))
       (\<lambda>(rv, family).
         case rv of
           Inl e \<Rightarrow> bind (error_other (n_gai_strerror net e)) (\<lambda>_. ret False)
         | Inr servinfo \<Rightarrow>
             bind (connect_loop sys net timeout source_addr family blocking reuseaddr servinfo 0) (\<lambda>ok.
             bind (modify (\<lambda>st. st\<lparr>ns_world := n_freeaddrinfo net servinfo (ns_world st)\<rparr>)) (\<lambda>_. ret ok)))))"

definition redisContextConnectTcp :: "'w system \<Rightarrow> 'w net \<Rightarrow> string \<Rightarrow> int \<Rightarrow> timeval option \<Rightarrow> ('w, bool) netop" where
  "redisContextConnectTcp sys net addr port timeout = redisContextConnectTcp_priv sys net addr port timeout None"

definition redisContextConnectBindTcp ::
    "'w system \<Rightarrow> 'w net \<Rightarrow> string \<Rightarrow> int \<Rightarrow> timeval option \<Rightarrow> string option \<Rightarrow> ('w, bool) netop" where
  "redisContextConnectBindTcp sys net addr port timeout source_addr =
     redisContextConnectTcp_priv sys net addr port timeout source_addr"

section \<open>Connecting to a local socket\<close>

text \<open>
  \<^verbatim>\<open>strncpy\<close> fills the first 107 bytes of \<^verbatim>\<open>sun_path\<close>; the last one is whatever the stack holds.
\<close>

definition sun_path :: "cmem \<Rightarrow> string \<Rightarrow> string" where
  "sun_path m path =
     (let t = take 107 (c_str path) in t @ replicate (107 - length t) NUL @ [garbage m 107])"

definition redisContextConnectUnix :: "cmem \<Rightarrow> 'w system \<Rightarrow> 'w net \<Rightarrow> string \<Rightarrow> timeval option \<Rightarrow> ('w, bool) netop" where
  "redisContextConnectUnix m sys net path timeout =
     bind (get (\<lambda>s. has_flag (ns_c s) REDIS_BLOCK)) (\<lambda>blocking.
     bind (redisCreateSocket sys net AF_LOCAL) (\<lambda>ok.
       if \<not> ok then ret False
       else
         bind (redisSetBlocking sys net False) (\<lambda>ok2.
           if \<not> ok2 then ret False
           else
             bind (get (\<lambda>s. c_fd (ns_c s))) (\<lambda>fd.
             bind (syscall (n_connect net fd (sun_path m path))) (\<lambda>r.
             bind (get ns_errno) (\<lambda>e.
             bind (if r \<noteq> None \<or> (e = EINPROGRESS \<and> \<not> blocking) then ret True
                   else redisContextWaitReady sys net timeout) (\<lambda>ready.
               if \<not> ready then ret False
               else
                 bind (if blocking then redisSetBlocking sys net True else ret True) (\<lambda>ok3.
                   if \<not> ok3 then ret False
                   else bind (set_context (set_flag REDIS_CONNECTED)) (\<lambda>_. ret True)))))))))"

section \<open>The connecting functions\<close>

text \<open>
  The functions of \<^verbatim>\<open>hiredis.c\<close> return a context, with its error set when connecting failed, or \<^verbatim>\<open>NULL\<close>.
  The status of the connecting call is not looked at.
\<close>

definition connect_with ::
    "cmem \<Rightarrow> (redisContext \<Rightarrow> redisContext) \<Rightarrow> ('w, bool) netop \<Rightarrow> errno \<Rightarrow> 'w \<Rightarrow> (redisContext option \<times> errno \<times> 'w) outcome" where
  "connect_with m prepare connect e w =
     (case redisContextInit m of
        None \<Rightarrow> Ok (None, e, w)
      | Some c \<Rightarrow>
          (case connect \<lparr>ns_c = prepare c, ns_errno = e, ns_world = w\<rparr> of
             (Fault f, _) \<Rightarrow> Fault f
           | (Ok _, s) \<Rightarrow> Ok (Some (ns_c s), ns_errno s, ns_world s)))"

definition redisConnect where
  "redisConnect m sys net ip port = connect_with m (set_flag REDIS_BLOCK) (redisContextConnectTcp sys net ip port None)"

definition redisConnectWithTimeout where
  "redisConnectWithTimeout m sys net ip port tv =
     connect_with m (set_flag REDIS_BLOCK) (redisContextConnectTcp sys net ip port (Some tv))"

definition redisConnectNonBlock where
  "redisConnectNonBlock m sys net ip port =
     connect_with m (clear_flag REDIS_BLOCK) (redisContextConnectTcp sys net ip port None)"

text \<open>These two do not test the context for \<^verbatim>\<open>NULL\<close>.\<close>

definition redisConnectBindNonBlock where
  "redisConnectBindNonBlock m sys net ip port source_addr e w =
     (if redisContextInit m = None then Fault NullDeref
      else connect_with m (clear_flag REDIS_BLOCK) (redisContextConnectBindTcp sys net ip port None source_addr) e w)"

definition redisConnectBindNonBlockWithReuse where
  "redisConnectBindNonBlockWithReuse m sys net ip port source_addr e w =
     (if redisContextInit m = None then Fault NullDeref
      else connect_with m (set_flag REDIS_REUSEADDR \<circ> clear_flag REDIS_BLOCK)
        (redisContextConnectBindTcp sys net ip port None source_addr) e w)"

definition redisConnectUnix where
  "redisConnectUnix m sys net path = connect_with m (set_flag REDIS_BLOCK) (redisContextConnectUnix m sys net path None)"

definition redisConnectUnixWithTimeout where
  "redisConnectUnixWithTimeout m sys net path tv =
     connect_with m (set_flag REDIS_BLOCK) (redisContextConnectUnix m sys net path (Some tv))"

definition redisConnectUnixNonBlock where
  "redisConnectUnixNonBlock m sys net path =
     connect_with m (clear_flag REDIS_BLOCK) (redisContextConnectUnix m sys net path None)"

definition redisSetTimeout :: "'w system \<Rightarrow> 'w net \<Rightarrow> timeval \<Rightarrow> ('w, bool) netop" where
  "redisSetTimeout sys net tv =
     bind (get (\<lambda>s. has_flag (ns_c s) REDIS_BLOCK)) (\<lambda>blocking.
       if blocking then redisContextSetTimeout sys net tv else ret False)"

definition redisEnableKeepAlive :: "'w system \<Rightarrow> 'w net \<Rightarrow> ('w, bool) netop" where
  "redisEnableKeepAlive sys net =
     bind (redisKeepAlive sys net REDIS_KEEPALIVE_INTERVAL) (\<lambda>ok. if \<not> ok then ret False else ret True)"

section \<open>Asynchronous connections\<close>

text \<open>
  The world after the call is returned with the context. A context that cannot be made asynchronous is
  freed again by two of the functions; the other two forget it.
\<close>

definition async_connected ::
    "cmem \<Rightarrow> rheap \<Rightarrow> redisContext \<Rightarrow> 'w \<Rightarrow> 'w redisAsyncContext option outcome" where
  "async_connected m h c w =
     obind (redisAsyncInitialize m c h w) (\<lambda>oac.
       case oac of
         None \<Rightarrow> Ok None
       | Some ac \<Rightarrow> obind (fst (redisAsyncCopyError ac)) (\<lambda>_. Ok (Some (snd (redisAsyncCopyError ac)))))"

definition async_checked ::
    "cmem \<Rightarrow> 'w system \<Rightarrow> rheap \<Rightarrow> (redisContext option \<times> errno \<times> 'w) outcome \<Rightarrow> ('w redisAsyncContext option \<times> 'w) outcome" where
  "async_checked m sys h r =
     obind r (\<lambda>(oc, e, w).
       case oc of
         None \<Rightarrow> Ok (None, w)
       | Some c \<Rightarrow>
           obind (async_connected m h c w) (\<lambda>oac.
             if oac = None then obind (redisFree sys (Some c) h w) (\<lambda>(_, w1). Ok (None, w1)) else Ok (oac, w)))"

definition async_unchecked ::
    "cmem \<Rightarrow> rheap \<Rightarrow> (redisContext option \<times> errno \<times> 'w) outcome \<Rightarrow> ('w redisAsyncContext option \<times> 'w) outcome" where
  "async_unchecked m h r =
     obind r (\<lambda>(oc, e, w).
       case oc of
         None \<Rightarrow> Fault NullDeref
       | Some c \<Rightarrow> obind (async_connected m h c w) (\<lambda>oac. Ok (oac, w)))"

definition redisAsyncConnect where
  "redisAsyncConnect m sys net h ip port e w = async_checked m sys h (redisConnectNonBlock m sys net ip port e w)"

definition redisAsyncConnectBind where
  "redisAsyncConnectBind m sys net h ip port source_addr e w =
     async_unchecked m h (redisConnectBindNonBlock m sys net ip port source_addr e w)"

definition redisAsyncConnectBindWithReuse where
  "redisAsyncConnectBindWithReuse m sys net h ip port source_addr e w =
     async_unchecked m h (redisConnectBindNonBlockWithReuse m sys net ip port source_addr e w)"

definition redisAsyncConnectUnix where
  "redisAsyncConnectUnix m sys net h path e w = async_checked m sys h (redisConnectUnixNonBlock m sys net path e w)"

end
