(* ===== verification/NetSpec.thy ===== *)
theory NetSpec
  imports Net ContextSpec AsyncRun
begin

unbundle bit_operations_syntax

text \<open>
  What connecting does with descriptors. \<open>accounts\<close> is what is relied on of the system: only \<^verbatim>\<open>socket\<close>
  opens a descriptor, a new one, and only \<^verbatim>\<open>close\<close> closes one. Each step of connecting then keeps one of
  three conditions: no socket is held, the socket of the context is held, or an error is recorded.
\<close>

section \<open>The contract\<close>

definition quiet :: "('w \<Rightarrow> int set) \<Rightarrow> ('w \<Rightarrow> 'a \<times> 'w) \<Rightarrow> bool" where
  "quiet fds call \<longleftrightarrow> (\<forall>w. fds (snd (call w)) = fds w)"

definition accounts :: "'w system \<Rightarrow> 'w net \<Rightarrow> ('w \<Rightarrow> int set) \<Rightarrow> bool" where
  "accounts sys net fds \<longleftrightarrow>
     (\<forall>f w. case n_socket net f w of
        (Inl e, w1) \<Rightarrow> fds w1 = fds w
      | (Inr s, w1) \<Rightarrow> 0 \<le> s \<and> s \<notin> fds w \<and> fds w1 = insert s (fds w)) \<and>
     (\<forall>fd w. fds (sys_close sys fd w) = fds w - {fd}) \<and>
     (\<forall>fd. quiet fds (n_getfl net fd)) \<and> (\<forall>fd x. quiet fds (n_setfl net fd x)) \<and>
     (\<forall>fd x. quiet fds (n_setsockopt net fd x)) \<and> (\<forall>fd x. quiet fds (n_poll net fd x)) \<and>
     (\<forall>fd x. quiet fds (n_bind net fd x)) \<and> (\<forall>fd x. quiet fds (n_connect net fd x)) \<and>
     (\<forall>a p f. quiet fds (n_getaddrinfo net a p f)) \<and> (\<forall>l w. fds (n_freeaddrinfo net l w) = fds w) \<and>
     (\<forall>fd. quiet fds (sys_sockerror sys fd))"

section \<open>Conditions\<close>

text \<open>The context \<open>c\<close> has the buffers of \<open>c0\<close> and the flags \<open>f\<close>.\<close>

definition based :: "redisContext \<Rightarrow> cint \<Rightarrow> redisContext \<Rightarrow> bool" where
  "based c0 f c \<longleftrightarrow> c_obuf c = c_obuf c0 \<and> c_reader c = c_reader c0 \<and> c_flags c = f"

definition holds_socket :: "('w \<Rightarrow> int set) \<Rightarrow> int set \<Rightarrow> 'w netstate \<Rightarrow> bool" where
  "holds_socket fds D s \<longleftrightarrow> c_fd (ns_c s) > 0 \<and> c_fd (ns_c s) \<notin> D \<and> fds (ns_world s) = insert (c_fd (ns_c s)) D"

definition no_socket :: "('w \<Rightarrow> int set) \<Rightarrow> int set \<Rightarrow> 'w netstate \<Rightarrow> bool" where
  "no_socket fds D s \<longleftrightarrow> c_fd (ns_c s) \<le> 0 \<and> fds (ns_world s) = D"

definition resting where
  "resting fds D c0 s \<longleftrightarrow> no_socket fds D s \<and> c_err (ns_c s) = 0 \<and> based c0 (c_flags c0) (ns_c s)"

definition owning where
  "owning fds D c0 s \<longleftrightarrow> holds_socket fds D s \<and> c_err (ns_c s) = 0 \<and> based c0 (c_flags c0) (ns_c s)"

definition linked_up where
  "linked_up fds D c0 s \<longleftrightarrow>
     holds_socket fds D s \<and> c_err (ns_c s) = 0 \<and> based c0 (c_flags c0 OR REDIS_CONNECTED) (ns_c s)"

definition gave_up where
  "gave_up fds D c0 s \<longleftrightarrow>
     (holds_socket fds D s \<or> no_socket fds D s) \<and> c_err (ns_c s) \<noteq> 0 \<and> based c0 (c_flags c0) (ns_c s)"

lemmas conditions = resting_def owning_def linked_up_def gave_up_def holds_socket_def no_socket_def based_def

section \<open>System calls and errors\<close>

lemma quietD: "quiet fds call \<Longrightarrow> call w = (x, w1) \<Longrightarrow> fds w1 = fds w"
  by (metis quiet_def snd_conv)

lemma wp_quiet:
  assumes "quiet fds call"
    and "\<And>r e w. fds w = fds (ns_world s) \<Longrightarrow> Q r (s\<lparr>ns_errno := e, ns_world := w\<rparr>)"
  shows "wp (syscall call) Q s"
proof -
  obtain r w where r: "call (ns_world s) = (r, w)" by (cases "call (ns_world s)")
  have w: "fds w = fds (ns_world s)" by (rule quietD [OF assms(1) r])
  show ?thesis
  proof (cases r)
    case (Inl e)
    then show ?thesis using r assms(2) [OF w, of None e] by (simp add: wp_def syscall_def)
  next
    case (Inr x)
    then show ?thesis using r assms(2) [OF w, of "Some x" "ns_errno s"] by (simp add: wp_def syscall_def)
  qed
qed

lemma wp_resolve:
  assumes "quiet fds call" and "\<And>x w. fds w = fds (ns_world s) \<Longrightarrow> Q x (s\<lparr>ns_world := w\<rparr>)"
  shows "wp (resolve_call call) Q s"
proof -
  obtain x w where r: "call (ns_world s) = (x, w)" by (cases "call (ns_world s)")
  have w: "fds w = fds (ns_world s)" by (rule quietD [OF assms(1) r])
  show ?thesis using r assms(2) [OF w] by (simp add: wp_def resolve_call_def)
qed

lemma wp_set_context [simp]: "wp (set_context f) Q s = Q () (s\<lparr>ns_c := f (ns_c s)\<rparr>)"
  by (simp add: set_context_def)

lemma wp_error_from_errno:
  assumes "\<And>t. Q () (s\<lparr>ns_c := (ns_c s)\<lparr>c_err := REDIS_ERR_IO, c_errstr := t\<rparr>\<rparr>)"
  shows "wp (error_from_errno sys p) Q s"
  using assms by (simp add: error_from_errno_def redisSetErrorFromErrno_def redisSetError_def Let_def)

lemma wp_error_other:
  assumes "\<And>t. Q () (s\<lparr>ns_c := (ns_c s)\<lparr>c_err := REDIS_ERR_OTHER, c_errstr := t\<rparr>\<rparr>)"
  shows "wp (error_other x) Q s"
  using assms by (simp add: error_other_def redisSetError_def Let_def)

lemma error_codes [simp]: "REDIS_ERR_IO \<noteq> 0" "REDIS_ERR_OTHER \<noteq> 0" "0 < REDIS_ERR_IO" "0 < REDIS_ERR_OTHER"
  by (simp_all add: REDIS_ERR_IO_def REDIS_ERR_OTHER_def)

text \<open>The conditions look at the set of descriptors only.\<close>

lemma conditions_world:
  assumes "fds w = fds (ns_world s)"
  shows "resting fds D c0 (s\<lparr>ns_errno := e, ns_world := w\<rparr>) = resting fds D c0 s"
    and "owning fds D c0 (s\<lparr>ns_errno := e, ns_world := w\<rparr>) = owning fds D c0 s"
    and "resting fds D c0 (s\<lparr>ns_world := w\<rparr>) = resting fds D c0 s"
    and "owning fds D c0 (s\<lparr>ns_world := w\<rparr>) = owning fds D c0 s"
    and "linked_up fds D c0 (s\<lparr>ns_world := w\<rparr>) = linked_up fds D c0 s"
    and "gave_up fds D c0 (s\<lparr>ns_world := w\<rparr>) = gave_up fds D c0 s"
    and "owning fds D c0 (s\<lparr>ns_errno := e\<rparr>) = owning fds D c0 s"
  using assms by (simp_all add: conditions)

lemma owning_error:
  "owning fds D c0 s \<Longrightarrow> 0 < k \<Longrightarrow> gave_up fds D c0 (s\<lparr>ns_c := (ns_c s)\<lparr>c_err := k, c_errstr := t\<rparr>\<rparr>)"
  "resting fds D c0 s \<Longrightarrow> 0 < k \<Longrightarrow> gave_up fds D c0 (s\<lparr>ns_c := (ns_c s)\<lparr>c_err := k, c_errstr := t\<rparr>\<rparr>)"
  by (simp_all add: conditions)

text \<open>What a step from a held socket may end in.\<close>

definition keeps_or_fails where
  "keeps_or_fails fds D c0 ok s \<longleftrightarrow> (if ok then owning fds D c0 s else gave_up fds D c0 s)"

lemma keeps_or_fails_simps [simp]:
  "keeps_or_fails fds D c0 True = owning fds D c0" "keeps_or_fails fds D c0 False = gave_up fds D c0"
  by (simp_all add: keeps_or_fails_def fun_eq_iff)

section \<open>Steps from a held socket\<close>

lemma accounts_quiet:
  assumes "accounts sys net fds"
  shows "quiet fds (n_getfl net fd)" "quiet fds (n_setfl net fd x)" "quiet fds (n_setsockopt net fd o')" "quiet fds (n_poll net fd k)"
    "quiet fds (n_bind net fd a)" "quiet fds (n_connect net fd a)" "quiet fds (n_getaddrinfo net a p f)"
    "fds (n_freeaddrinfo net l w) = fds w" "quiet fds (sys_sockerror sys fd)"
    "fds (sys_close sys fd w) = fds w - {fd}"
  using assms by (simp_all add: accounts_def)

lemma wp_socket:
  assumes "accounts sys net fds"
    and "\<And>e w. fds w = fds (ns_world s) \<Longrightarrow> Q None (s\<lparr>ns_errno := e, ns_world := w\<rparr>)"
    and "\<And>x w. 0 \<le> x \<Longrightarrow> x \<notin> fds (ns_world s) \<Longrightarrow> fds w = insert x (fds (ns_world s)) \<Longrightarrow> Q (Some x) (s\<lparr>ns_world := w\<rparr>)"
  shows "wp (syscall (n_socket net f)) Q s"
proof -
  obtain r w where r: "n_socket net f (ns_world s) = (r, w)" by (cases "n_socket net f (ns_world s)")
  have "case n_socket net f (ns_world s) of (Inl e, w1) \<Rightarrow> fds w1 = fds (ns_world s)
      | (Inr s', w1) \<Rightarrow> 0 \<le> s' \<and> s' \<notin> fds (ns_world s) \<and> fds w1 = insert s' (fds (ns_world s))"
    using assms(1) by (simp add: accounts_def)
  then show ?thesis using r assms(2,3) by (cases r) (simp_all add: wp_def syscall_def)
qed

lemma wp_close:
  assumes "accounts sys net fds" and "owning fds D c0 s \<or> gave_up fds D c0 s \<and> holds_socket fds D s"
  shows "wp (redisContextCloseFd sys) (\<lambda>_ s'. no_socket fds D s' \<and> c_err (ns_c s') = c_err (ns_c s) \<and>
     based c0 (c_flags c0) (ns_c s')) s"
  using assms(2) accounts_quiet(10) [OF assms(1)] by (auto simp: redisContextCloseFd_def conditions)

lemma give_up_fails:
  assumes "accounts sys net fds" and "owning fds D c0 s"
  shows "wp (give_up sys p) (keeps_or_fails fds D c0) s"
proof -
  have "gave_up fds D c0 (s\<lparr>ns_c := (ns_c s)\<lparr>c_err := REDIS_ERR_IO, c_errstr := t\<rparr>\<rparr>)" for t
    using assms(2) by (rule owning_error) simp
  moreover have "holds_socket fds D (s\<lparr>ns_c := (ns_c s)\<lparr>c_err := REDIS_ERR_IO, c_errstr := t\<rparr>\<rparr>)" for t
    using assms(2) by (simp add: conditions)
  ultimately have "wp (redisContextCloseFd sys) (\<lambda>_. gave_up fds D c0) (s\<lparr>ns_c := (ns_c s)\<lparr>c_err := REDIS_ERR_IO, c_errstr := t\<rparr>\<rparr>)" for t
    by (rule_tac wp_mono [OF wp_close [OF assms(1)]]) (auto simp: gave_up_def)
  then show ?thesis
    unfolding give_up_def wp_bind by (intro wp_error_from_errno) simp
qed

text \<open>A quiet call whose failure is given up on.\<close>

lemma wp_or_give_up:
  assumes "accounts sys net fds" and "owning fds D c0 s" and "quiet fds call"
    and "\<And>x e w. fds w = fds (ns_world s) \<Longrightarrow> owning fds D c0 (s\<lparr>ns_errno := e, ns_world := w\<rparr>) \<Longrightarrow>
       wp (k x) (keeps_or_fails fds D c0) (s\<lparr>ns_errno := e, ns_world := w\<rparr>)"
  shows "wp (syscall call) (\<lambda>r. wp (case r of None \<Rightarrow> give_up sys p | Some x \<Rightarrow> k x) (keeps_or_fails fds D c0)) s"
proof (rule wp_quiet [OF assms(3)])
  fix r e w assume w: "fds w = fds (ns_world s)"
  then have o: "owning fds D c0 (s\<lparr>ns_errno := e, ns_world := w\<rparr>)" using assms(2) by (simp add: conditions_world)
  show "wp (case r of None \<Rightarrow> give_up sys p | Some x \<Rightarrow> k x) (keeps_or_fails fds D c0) (s\<lparr>ns_errno := e, ns_world := w\<rparr>)"
    using give_up_fails [OF assms(1) o] assms(4) [OF w o] by (cases r) simp_all
qed

lemma if_None_case: "(if r = None then a else b) = (case r of None \<Rightarrow> a | Some _ \<Rightarrow> b)"
  by (simp split: option.split)

lemma redisSetBlocking_keeps:
  assumes "accounts sys net fds" and "owning fds D c0 s"
  shows "wp (redisSetBlocking sys net b) (keeps_or_fails fds D c0) s"
  unfolding redisSetBlocking_def if_None_case
  by (simp only: wp_bind wp_get, rule wp_or_give_up [OF assms accounts_quiet(1) [OF assms(1)]], simp only: wp_bind,
      rule wp_or_give_up [OF assms(1) _ accounts_quiet(2) [OF assms(1)]]) simp_all

lemma redisSetTcpNoDelay_keeps:
  assumes "accounts sys net fds" and "owning fds D c0 s"
  shows "wp (redisSetTcpNoDelay sys net) (keeps_or_fails fds D c0) s"
  unfolding redisSetTcpNoDelay_def if_None_case
  by (simp only: wp_bind wp_get, rule wp_or_give_up [OF assms accounts_quiet(3) [OF assms(1)]]) simp

lemma check_socket_keeps:
  assumes "accounts sys net fds" and "owning fds D c0 s"
  shows "wp (check_socket sys) (keeps_or_fails fds D c0) s"
proof -
  obtain r w where r: "sys_sockerror sys (c_fd (ns_c s)) (ns_world s) = (r, w)" by (cases "sys_sockerror sys (c_fd (ns_c s)) (ns_world s)")
  then have "fds w = fds (ns_world s)" using accounts_quiet(9) [OF assms(1)] by (metis quiet_def snd_conv)
  then show ?thesis
    using r assms(2)
    by (simp add: wp_def check_socket_def redisCheckSocketError_def redisSetErrorFromErrno_def redisSetError_def Let_def conditions
        split: sock_result.split option.split)
qed

lemma redisContextWaitReady_keeps:
  assumes "accounts sys net fds" and "owning fds D c0 s"
  shows "wp (redisContextWaitReady sys net timeout) (keeps_or_fails fds D c0) s"
proof (cases "wait_msec timeout")
  case None
  then show ?thesis using give_up_fails [OF assms] by (simp add: redisContextWaitReady_def)
next
  case (Some msec)
  have "wp (if n = 0 then bind (modify (\<lambda>s. s\<lparr>ns_errno := ETIMEDOUT\<rparr>)) (\<lambda>_. give_up sys None) else check_socket sys)
      (keeps_or_fails fds D c0) s1" if "owning fds D c0 s1" for n :: nat and s1
    using that give_up_fails [OF assms(1), of D c0 "s1\<lparr>ns_errno := ETIMEDOUT\<rparr>"] check_socket_keeps [OF assms(1) that]
    by (simp add: conditions_world)
  then show ?thesis
    using Some give_up_fails [OF assms] wp_or_give_up [OF assms accounts_quiet(4) [OF assms(1)]]
    by (simp add: redisContextWaitReady_def)
qed

section \<open>Connecting\<close>

definition links_or_fails where
  "links_or_fails fds D c0 ok s \<longleftrightarrow> (if ok then linked_up fds D c0 s else gave_up fds D c0 s)"

lemma links_or_fails_simps [simp]:
  "links_or_fails fds D c0 True = linked_up fds D c0" "links_or_fails fds D c0 False = gave_up fds D c0"
  by (simp_all add: links_or_fails_def fun_eq_iff)

text \<open>What an attempt may end in, without \<^verbatim>\<open>REDIS_REUSEADDR\<close>.\<close>

definition attempt_ends where
  "attempt_ends fds D c0 a s \<longleftrightarrow>
     (case a of
        NextAddress \<Rightarrow> resting fds D c0 s
      | AddrRetry \<Rightarrow> False
      | GotoError \<Rightarrow> gave_up fds D c0 s
      | GotoEnd \<Rightarrow> linked_up fds D c0 s)"

lemma wp_keeps:
  assumes "wp m (keeps_or_fails fds D c0) s"
    and "\<And>s1. owning fds D c0 s1 \<Longrightarrow> wp (k True) Q s1" and "\<And>s1. gave_up fds D c0 s1 \<Longrightarrow> wp (k False) Q s1"
  shows "wp m (\<lambda>ok. wp (k ok) Q) s"
  using assms(1) by (rule wp_mono) (auto intro: assms(2,3) simp: keeps_or_fails_def split: if_splits)

lemma owning_linked: "owning fds D c0 s \<Longrightarrow> linked_up fds D c0 (s\<lparr>ns_c := set_flag REDIS_CONNECTED (ns_c s)\<rparr>)"
  by (simp add: conditions set_flag_def)

lemma finish_tcp_ends:
  assumes "accounts sys net fds" and "owning fds D c0 s"
  shows "wp (finish_tcp sys net bl) (attempt_ends fds D c0) s"
proof -
  have "wp (if bl then redisSetBlocking sys net True else ret True) (keeps_or_fails fds D c0) s"
    using redisSetBlocking_keeps [OF assms] assms(2) by simp
  then show ?thesis
    unfolding finish_tcp_def wp_bind
    by (rule wp_keeps)
      (auto simp: attempt_ends_def owning_linked intro!: wp_keeps [OF redisSetTcpNoDelay_keeps [OF assms(1)]])
qed

lemma bind_first_keeps:
  assumes "accounts sys net fds"
  shows "owning fds D c0 s \<Longrightarrow> wp (bind_first net fd l) (\<lambda>_. owning fds D c0) s"
proof (induction l arbitrary: s)
  case (Cons b bs)
  show ?case
    unfolding bind_first.simps wp_bind
    by (rule wp_quiet [OF accounts_quiet(5) [OF assms]]) (use Cons in \<open>simp add: conditions_world\<close>)
qed simp

lemma bind_source_keeps:
  assumes "accounts sys net fds" and "owning fds D c0 s"
  shows "wp (bind_source sys net fd family False a) (keeps_or_fails fds D c0) s"
  unfolding bind_source_def wp_bind
proof (rule wp_resolve [OF accounts_quiet(7) [OF assms(1)]])
  fix x :: "int + addrinfo list" and w assume "fds w = fds (ns_world s)"
  then have o: "owning fds D c0 (s\<lparr>ns_world := w\<rparr>)" using assms(2) by (simp add: conditions_world)
  have fail: "wp (error_other t) (\<lambda>_. gave_up fds D c0) s1" if "owning fds D c0 s1" for t s1
    using owning_error(1) [OF that] by (intro wp_error_other) simp
  have free: "owning fds D c0 (s1\<lparr>ns_world := n_freeaddrinfo net l (ns_world s1)\<rparr>)" if "owning fds D c0 s1" for s1 l
    using that accounts_quiet(8) [OF assms(1)] by (simp add: conditions_world)
  show "wp (case x of
         Inl e \<Rightarrow> bind (error_other (prefixed (''Can'' @ [CHR 0x27] @ ''t get addr: '') (n_gai_strerror net e))) (\<lambda>_. ret False)
       | Inr bservinfo \<Rightarrow>
           bind (if False then syscall (n_setsockopt net fd (SO_REUSEADDR 1)) else ret (Some ())) (\<lambda>ok.
             if ok = None then ret False
             else
               bind (bind_first net fd bservinfo) (\<lambda>bound.
               bind (modify (\<lambda>st. st\<lparr>ns_world := n_freeaddrinfo net bservinfo (ns_world st)\<rparr>)) (\<lambda>_.
                 if bound then ret True
                 else
                   bind (get ns_errno) (\<lambda>e.
                   bind (error_other (prefixed (''Can'' @ [CHR 0x27] @ ''t bind socket: '') (sys_strerror sys e))) (\<lambda>_.
                     ret False)))))) (keeps_or_fails fds D c0) (s\<lparr>ns_world := w\<rparr>)"
    using fail [OF o] by (cases x) (auto intro!: wp_mono [OF bind_first_keeps [OF assms(1) o]] free fail)
qed

lemma connect_tcp_ends:
  assumes "accounts sys net fds" and "owning fds D c0 s"
  shows "wp (connect_tcp sys net timeout bl False fd p) (attempt_ends fds D c0) s"
  unfolding connect_tcp_def wp_bind
proof (rule wp_quiet [OF accounts_quiet(6) [OF assms(1)]], unfold wp_get)
  fix r e w assume "fds w = fds (ns_world s)"
  then have o: "owning fds D c0 (s\<lparr>ns_errno := e, ns_world := w\<rparr>)" using assms(2) by (simp add: conditions_world)
  have step: "wp (redisContextCloseFd sys) (\<lambda>_. resting fds D c0) (s\<lparr>ns_errno := e, ns_world := w\<rparr>)"
    by (rule wp_mono [OF wp_close [OF assms(1) disjI1 [OF o]]]) (use o in \<open>simp add: conditions\<close>)
  have wait: "wp (redisContextWaitReady sys net timeout)
      (\<lambda>ok. wp (if \<not> ok then ret GotoError else finish_tcp sys net bl) (attempt_ends fds D c0)) (s\<lparr>ns_errno := e, ns_world := w\<rparr>)"
    by (rule wp_keeps [OF redisContextWaitReady_keeps [OF assms(1) o]]) (simp_all add: finish_tcp_ends [OF assms(1)], simp add: attempt_ends_def)
  show "wp (if r \<noteq> None then finish_tcp sys net bl
       else if ns_errno (s\<lparr>ns_errno := e, ns_world := w\<rparr>) = EHOSTUNREACH then bind (redisContextCloseFd sys) (\<lambda>_. ret NextAddress)
       else if ns_errno (s\<lparr>ns_errno := e, ns_world := w\<rparr>) = EINPROGRESS \<and> \<not> bl then finish_tcp sys net bl
       else if ns_errno (s\<lparr>ns_errno := e, ns_world := w\<rparr>) = EADDRNOTAVAIL \<and> False then ret AddrRetry
       else bind (redisContextWaitReady sys net timeout) (\<lambda>ok. if \<not> ok then ret GotoError else finish_tcp sys net bl))
     (attempt_ends fds D c0) (s\<lparr>ns_errno := e, ns_world := w\<rparr>)"
    using finish_tcp_ends [OF assms(1) o] wait step by (auto simp: attempt_ends_def)
qed

text \<open>A new socket is above 0 when descriptor 0 is open.\<close>

lemma socket_owned:
  assumes "resting fds D c0 s" and "0 \<in> D" and "0 \<le> x" and "x \<notin> fds (ns_world s)" and "fds w = insert x (fds (ns_world s))"
  shows "owning fds D c0 (s\<lparr>ns_world := w, ns_c := (ns_c s)\<lparr>c_fd := x\<rparr>\<rparr>)"
  using assms by (auto simp: conditions order.order_iff_strict)

lemma try_address_ends:
  assumes acc: "accounts sys net fds" and D: "0 \<in> D" and s: "resting fds D c0 s"
  shows "wp (try_address sys net timeout source_addr family bl False p) (attempt_ends fds D c0) s"
  unfolding try_address_def wp_bind
proof (rule wp_socket [OF acc])
  fix e w assume "fds w = fds (ns_world s)"
  then show "wp (case None of None \<Rightarrow> ret NextAddress
       | Some x \<Rightarrow> bind (set_context (\<lambda>c. c\<lparr>c_fd := x\<rparr>)) (\<lambda>_.
           bind (redisSetBlocking sys net False) (\<lambda>ok. if \<not> ok then ret GotoError
             else bind (case source_addr of None \<Rightarrow> ret True | Some a \<Rightarrow> bind_source sys net x family False a) (\<lambda>bound.
               if \<not> bound then ret GotoError else connect_tcp sys net timeout bl False x p))))
     (attempt_ends fds D c0) (s\<lparr>ns_errno := e, ns_world := w\<rparr>)"
    using s by (simp add: attempt_ends_def conditions)
next
  fix x w assume x: "0 \<le> x" "x \<notin> fds (ns_world s)" "fds w = insert x (fds (ns_world s))"
  let ?s = "s\<lparr>ns_world := w, ns_c := (ns_c s)\<lparr>c_fd := x\<rparr>\<rparr>"
  have o: "owning fds D c0 ?s" by (rule socket_owned [OF s D x])
  have bound: "wp (case source_addr of None \<Rightarrow> ret True | Some a \<Rightarrow> bind_source sys net x family False a) (keeps_or_fails fds D c0) s1"
    if "owning fds D c0 s1" for s1
    using that bind_source_keeps [OF acc that] by (simp split: option.split)
  have after: "wp (case source_addr of None \<Rightarrow> ret True | Some a \<Rightarrow> bind_source sys net x family False a)
      (\<lambda>ok. wp (if \<not> ok then ret GotoError else connect_tcp sys net timeout bl False x p) (attempt_ends fds D c0)) s1"
    if "owning fds D c0 s1" for s1
    by (rule wp_keeps [OF bound [OF that]]) (simp_all add: connect_tcp_ends [OF acc], simp add: attempt_ends_def)
  have "wp (redisSetBlocking sys net False) (\<lambda>ok. wp (if \<not> ok then ret GotoError
      else bind (case source_addr of None \<Rightarrow> ret True | Some a \<Rightarrow> bind_source sys net x family False a) (\<lambda>bound.
        if \<not> bound then ret GotoError else connect_tcp sys net timeout bl False x p)) (attempt_ends fds D c0)) ?s"
    by (rule wp_keeps [OF redisSetBlocking_keeps [OF acc o]]) (simp_all add: after, simp add: attempt_ends_def)
  then show "wp (case Some x of None \<Rightarrow> ret NextAddress
       | Some x \<Rightarrow> bind (set_context (\<lambda>c. c\<lparr>c_fd := x\<rparr>)) (\<lambda>_.
           bind (redisSetBlocking sys net False) (\<lambda>ok. if \<not> ok then ret GotoError
             else bind (case source_addr of None \<Rightarrow> ret True | Some a \<Rightarrow> bind_source sys net x family False a) (\<lambda>bound.
               if \<not> bound then ret GotoError else connect_tcp sys net timeout bl False x p))))
     (attempt_ends fds D c0) (s\<lparr>ns_world := w\<rparr>)"
    by simp
qed

lemma resting_error: "resting fds D c0 s \<Longrightarrow> wp (error_other t) (\<lambda>_. gave_up fds D c0) s"
  by (intro wp_error_other owning_error(2)) simp_all

lemma connect_loop_ends:
  assumes acc: "accounts sys net fds" and D: "0 \<in> D"
  shows "resting fds D c0 s \<Longrightarrow>
     wp (connect_loop sys net timeout source_addr family bl False ps n) (links_or_fails fds D c0) s"
proof (induction ps arbitrary: s)
  case Nil
  then show ?case by (simp add: resting_error connect_loop.simps(1))
next
  case (Cons p ps)
  show ?case
    by (subst connect_loop.simps(2), unfold wp_bind, rule wp_mono [OF try_address_ends [OF acc D Cons.prems]])
      (use Cons.IH in \<open>auto simp: attempt_ends_def split: attempt.splits\<close>)
qed

lemma redisContextConnectTcp_ends:
  assumes acc: "accounts sys net fds" and D: "0 \<in> D" and s: "resting fds D c0 s" and f: "\<not> has_flag c0 REDIS_REUSEADDR"
  shows "wp (redisContextConnectTcp_priv sys net addr port timeout source_addr) (links_or_fails fds D c0) s"
proof -
  have re: "has_flag (ns_c s) REDIS_REUSEADDR = False" using s f by (simp add: conditions has_flag_def)
  have free: "links_or_fails fds D c0 ok (s1\<lparr>ns_world := n_freeaddrinfo net l (ns_world s1)\<rparr>)"
    if "links_or_fails fds D c0 ok s1" for ok l s1
    using that accounts_quiet(8) [OF acc] by (simp add: conditions_world links_or_fails_def split: if_splits)
  have tail: "wp (case rv of Inl e \<Rightarrow> bind (error_other (n_gai_strerror net e)) (\<lambda>_. ret False)
       | Inr servinfo \<Rightarrow>
           bind (connect_loop sys net timeout source_addr family bl False servinfo 0) (\<lambda>ok.
           bind (modify (\<lambda>st. st\<lparr>ns_world := n_freeaddrinfo net servinfo (ns_world st)\<rparr>)) (\<lambda>_. ret ok)))
      (links_or_fails fds D c0) s1" if "resting fds D c0 s1" for rv family bl s1
  proof (cases rv)
    case (Inl e)
    then show ?thesis using resting_error [OF that] by simp
  next
    case (Inr servinfo)
    then show ?thesis
      using free by (auto intro!: wp_mono [OF connect_loop_ends [OF acc D that]])
  qed
  let ?t = "take 5 (show_int port)"
  have res: "wp (resolve_call (n_getaddrinfo net addr (Some ?t) AF_INET)) (\<lambda>rv.
      wp (case rv of Inr l \<Rightarrow> ret (rv, AF_INET)
           | Inl _ \<Rightarrow> bind (resolve_call (n_getaddrinfo net addr (Some ?t) AF_INET6)) (\<lambda>rv6. ret (rv6, AF_INET6)))
        (\<lambda>_. resting fds D c0)) s"
  proof (rule wp_resolve [OF accounts_quiet(7) [OF acc]])
    fix x :: "int + addrinfo list" and w assume "fds w = fds (ns_world s)"
    then have r: "resting fds D c0 (s\<lparr>ns_world := w\<rparr>)" using s by (simp add: conditions_world)
    have "wp (resolve_call (n_getaddrinfo net addr (Some ?t) AF_INET6)) (\<lambda>_. resting fds D c0) (s\<lparr>ns_world := w\<rparr>)"
      by (rule wp_resolve [OF accounts_quiet(7) [OF acc]]) (use r in \<open>simp add: conditions\<close>)
    then show "wp (case x of Inr l \<Rightarrow> ret (x, AF_INET)
           | Inl _ \<Rightarrow> bind (resolve_call (n_getaddrinfo net addr (Some ?t) AF_INET6)) (\<lambda>rv6. ret (rv6, AF_INET6)))
        (\<lambda>_. resting fds D c0) (s\<lparr>ns_world := w\<rparr>)"
      using r by (cases x) simp_all
  qed
  show ?thesis
    unfolding redisContextConnectTcp_priv_def Let_def wp_bind wp_get prod.case re
    by (rule wp_mono [OF res], rule wp_mono, assumption) (use tail in auto)
qed

lemma redisContextConnectUnix_ends:
  assumes acc: "accounts sys net fds" and D: "0 \<in> D" and s: "resting fds D c0 s"
  shows "wp (redisContextConnectUnix m sys net path timeout) (links_or_fails fds D c0) s"
proof -
  let ?set = "\<lambda>bl. if bl then redisSetBlocking sys net True else ret True"
  let ?up = "bind (set_context (set_flag REDIS_CONNECTED)) (\<lambda>_. ret True)"
  have fin: "wp (?set bl) (\<lambda>ok. wp (if \<not> ok then ret False else ?up) (links_or_fails fds D c0)) s1"
    if "owning fds D c0 s1" for bl s1
  proof (rule wp_keeps)
    show "wp (?set bl) (keeps_or_fails fds D c0) s1" using redisSetBlocking_keeps [OF acc that] that by simp
  qed (simp_all add: owning_linked)
  have ready: "wp (if b then ret True else redisContextWaitReady sys net timeout)
      (\<lambda>ok. wp (if \<not> ok then ret False else bind (?set bl) (\<lambda>ok3. if \<not> ok3 then ret False else ?up)) (links_or_fails fds D c0)) s1"
    if "owning fds D c0 s1" for b bl s1
  proof (rule wp_keeps)
    show "wp (if b then ret True else redisContextWaitReady sys net timeout) (keeps_or_fails fds D c0) s1"
      using redisContextWaitReady_keeps [OF acc that] that by simp
  qed (simp_all add: fin)
  have create: "wp (redisCreateSocket sys net AF_LOCAL) (keeps_or_fails fds D c0) s"
    unfolding redisCreateSocket_def wp_bind
  proof (rule wp_socket [OF acc])
    fix e w assume "fds w = fds (ns_world s)"
    then have "resting fds D c0 (s\<lparr>ns_errno := e, ns_world := w\<rparr>)" using s by (simp add: conditions)
    then show "wp (case None of None \<Rightarrow> bind (error_from_errno sys None) (\<lambda>_. ret False)
        | Some x \<Rightarrow> bind (set_context (\<lambda>c. c\<lparr>c_fd := x\<rparr>)) (\<lambda>_. if AF_LOCAL = AF_INET then redisSetReuseAddr sys net else ret True))
        (keeps_or_fails fds D c0) (s\<lparr>ns_errno := e, ns_world := w\<rparr>)"
      by (auto intro!: wp_error_from_errno simp: conditions)
  next
    fix x w assume x: "0 \<le> x" "x \<notin> fds (ns_world s)" "fds w = insert x (fds (ns_world s))"
    show "wp (case Some x of None \<Rightarrow> bind (error_from_errno sys None) (\<lambda>_. ret False)
        | Some x \<Rightarrow> bind (set_context (\<lambda>c. c\<lparr>c_fd := x\<rparr>)) (\<lambda>_. if AF_LOCAL = AF_INET then redisSetReuseAddr sys net else ret True))
        (keeps_or_fails fds D c0) (s\<lparr>ns_world := w\<rparr>)"
      using socket_owned [OF s D x] by simp
  qed
  have call: "wp (syscall (n_connect net (c_fd (ns_c s1)) (sun_path m path))) (\<lambda>r. wp (bind (get ns_errno) (\<lambda>e.
        bind (if r \<noteq> None \<or> (e = EINPROGRESS \<and> \<not> bl) then ret True else redisContextWaitReady sys net timeout)
        (\<lambda>ok. if \<not> ok then ret False else bind (?set bl) (\<lambda>ok3. if \<not> ok3 then ret False else ?up)))) (links_or_fails fds D c0)) s1"
    if o: "owning fds D c0 s1" for bl s1
    unfolding wp_bind wp_get
    by (rule wp_quiet [OF accounts_quiet(6) [OF acc]]) (use o in \<open>simp only: conditions_world ready\<close>)
  have "wp (redisSetBlocking sys net False) (\<lambda>ok2. wp (if \<not> ok2 then ret False
      else bind (get (\<lambda>s. c_fd (ns_c s))) (\<lambda>fd. bind (syscall (n_connect net fd (sun_path m path))) (\<lambda>r. bind (get ns_errno) (\<lambda>e.
        bind (if r \<noteq> None \<or> (e = EINPROGRESS \<and> \<not> bl) then ret True else redisContextWaitReady sys net timeout)
        (\<lambda>ok. if \<not> ok then ret False else bind (?set bl) (\<lambda>ok3. if \<not> ok3 then ret False else ?up)))))) (links_or_fails fds D c0)) s1"
    if o: "owning fds D c0 s1" for bl s1
    by (rule wp_keeps [OF redisSetBlocking_keeps [OF acc o]]) (simp_all only: simp_thms if_True if_False wp_bind wp_get wp_ret links_or_fails_simps call)
  then show ?thesis
    unfolding redisContextConnectUnix_def wp_bind wp_get
    by (intro wp_keeps [OF create]) simp_all
qed

end
