(* ===== verification/NetProperties.thy ===== *)
theory NetProperties
  imports NetSpec
begin

unbundle bit_operations_syntax

text \<open>
  Properties of connecting: a connecting function returns a context that is either connected or carries an
  error, and freeing it gives back every descriptor; with address reuse, running out of retries does
  neither. The timeout given to \<^verbatim>\<open>poll\<close> is within its range.
\<close>

section \<open>The connecting functions\<close>

text \<open>A call of one of the functions that do not set \<^verbatim>\<open>REDIS_REUSEADDR\<close>.\<close>

datatype connecting = Connect string int | ConnectWithTimeout string int timeval | ConnectNonBlock string int
  | ConnectBindNonBlock string int "string option" | ConnectUnix string | ConnectUnixWithTimeout string timeval
  | ConnectUnixNonBlock string

fun open_context ::
    "connecting \<Rightarrow> cmem \<Rightarrow> 'w system \<Rightarrow> 'w net \<Rightarrow> errno \<Rightarrow> 'w \<Rightarrow> (redisContext option \<times> errno \<times> 'w) outcome" where
  "open_context (Connect ip port) m sys net = redisConnect m sys net ip port"
| "open_context (ConnectWithTimeout ip port tv) m sys net = redisConnectWithTimeout m sys net ip port tv"
| "open_context (ConnectNonBlock ip port) m sys net = redisConnectNonBlock m sys net ip port"
| "open_context (ConnectBindNonBlock ip port src) m sys net = redisConnectBindNonBlock m sys net ip port src"
| "open_context (ConnectUnix path) m sys net = redisConnectUnix m sys net path"
| "open_context (ConnectUnixWithTimeout path tv) m sys net = redisConnectUnixWithTimeout m sys net path tv"
| "open_context (ConnectUnixNonBlock path) m sys net = redisConnectUnixNonBlock m sys net path"

fun opens_blocking :: "connecting \<Rightarrow> bool" where
  "opens_blocking (ConnectNonBlock ip port) = False"
| "opens_blocking (ConnectBindNonBlock ip port src) = False"
| "opens_blocking (ConnectUnixNonBlock path) = False"
| "opens_blocking k = True"

definition prepared :: "connecting \<Rightarrow> redisContext \<Rightarrow> redisContext" where
  "prepared k = (if opens_blocking k then set_flag REDIS_BLOCK else clear_flag REDIS_BLOCK)"

text \<open>A context as \<open>redisContextInit\<close> makes it.\<close>

lemma context_init:
  assumes "redisContextInit m = Some c"
  shows "c_err c = 0" "c_fd c = 0" "c_flags c = 0" "obuf_is c []" "\<exists>R. c_reader c = Some R \<and> idle R []"
  using assms sdsempty_spec [of m] idle_create [of m]
  by (auto simp: redisContextInit_def redisReaderCreate_def Let_def obuf_is_def split: option.splits if_splits)

lemma prepared_resting:
  assumes "redisContextInit m = Some c"
  shows "resting fds (fds w) (prepared k c) \<lparr>ns_c = prepared k c, ns_errno = e, ns_world = w\<rparr>"
    and "\<not> has_flag (prepared k c) REDIS_REUSEADDR"
  using context_init(1-3) [OF assms]
  by (auto simp: prepared_def set_flag_def clear_flag_def conditions has_flag_def flag_defs)

lemma connect_with_run:
  assumes "redisContextInit m = Some c"
    and "wp connect (links_or_fails fds D (prepare c)) \<lparr>ns_c = prepare c, ns_errno = e, ns_world = w\<rparr>"
  shows "\<exists>s. connect_with m prepare connect e w = Ok (Some (ns_c s), ns_errno s, ns_world s) \<and>
     (linked_up fds D (prepare c) s \<or> gave_up fds D (prepare c) s)"
proof -
  obtain ok s where "connect \<lparr>ns_c = prepare c, ns_errno = e, ns_world = w\<rparr> = (Ok ok, s)" "links_or_fails fds D (prepare c) ok s"
    using wp_run [OF assms(2)] by blast
  then show ?thesis using assms(1) by (cases ok) (auto simp: connect_with_def)
qed

lemma open_context_run:
  assumes acc: "accounts sys net fds" and D: "0 \<in> fds w" and c: "redisContextInit m = Some c"
  shows "\<exists>s. open_context k m sys net e w = Ok (Some (ns_c s), ns_errno s, ns_world s) \<and>
     (linked_up fds (fds w) (prepared k c) s \<or> gave_up fds (fds w) (prepared k c) s)"
proof -
  let ?s = "\<lparr>ns_c = prepared k c, ns_errno = e, ns_world = w\<rparr>"
  have tcp: "wp (redisContextConnectTcp_priv sys net ip port t src) (links_or_fails fds (fds w) (prepared k c)) ?s" for ip port t src
    by (rule redisContextConnectTcp_ends [OF acc D prepared_resting [OF c]])
  have unix: "wp (redisContextConnectUnix m sys net path t) (links_or_fails fds (fds w) (prepared k c)) ?s" for path t
    by (rule redisContextConnectUnix_ends [OF acc D prepared_resting(1) [OF c]])
  show ?thesis
    using connect_with_run [where prepare = "prepared k", OF c tcp] connect_with_run [where prepare = "prepared k", OF c unix] c
    by (cases k)
      (simp_all add: prepared_def redisConnect_def redisConnectWithTimeout_def redisConnectNonBlock_def redisConnectBindNonBlock_def
        redisConnectUnix_def redisConnectUnixWithTimeout_def redisConnectUnixNonBlock_def redisContextConnectTcp_def
        redisContextConnectBindTcp_def)
qed

lemma redisReaderFree_unused: "idle R u \<Longrightarrow> redisReaderFree defaultFunctions R h = Ok h"
  by (simp add: redisReaderFree_def idle_def)


section \<open>Waiting\<close>

text \<open>C24.
  The timeout handed to \<^verbatim>\<open>poll\<close>. A proper timeout is refused only when its seconds exceed what fits in
  milliseconds; otherwise the milliseconds are at least the time asked for and less than one more, unless
  that is above \<^verbatim>\<open>INT_MAX\<close>, which is then what is waited.
\<close>

theorem wait_msec_bounds:
  assumes "0 \<le> tv_sec tv" and "0 \<le> tv_usec tv" and "tv_usec tv < 1000000"
  shows "(wait_msec (Some tv) = None \<longleftrightarrow> MAX_MSEC < tv_sec tv) \<and>
    (\<forall>n. wait_msec (Some tv) = Some n \<longrightarrow> 0 \<le> n \<and> n \<le> INT_MAX \<and>
       (n * 1000 < tv_sec tv * 1000000 + tv_usec tv + 1000) \<and>
       (tv_sec tv * 1000000 + tv_usec tv \<le> n * 1000 \<or> n = INT_MAX))"
proof -
  let ?q = "(tv_usec tv + 999) div 1000"
  have q: "(tv_usec tv + 999) sdiv 1000 = ?q" using assms(2) by (simp add: signed_divide_int_def)
  have le: "tv_usec tv \<le> ?q * 1000" "?q * 1000 < tv_usec tv + 1000" "0 \<le> ?q" "?q \<le> 1000" using assms(2,3) by linarith+
  have st: "signed_take_bit 63 (tv_sec tv * 1000 + ?q) = tv_sec tv * 1000 + ?q" if "tv_sec tv \<le> MAX_MSEC"
    using that assms(1) le by (intro signed_take_bit_int_eq_self) (simp_all add: MAX_MSEC_def LONG_MAX_def)
  show ?thesis using assms st q le by (auto simp: wait_msec_def Let_def INT_MAX_def)
qed

section \<open>Address reuse\<close>

text \<open>
  A system on which everything succeeds but \<^verbatim>\<open>connect\<close>, which finds no local address available.
\<close>

definition succeeds :: "('w \<Rightarrow> ('e + 'a) \<times> 'w) \<Rightarrow> bool" where
  "succeeds call \<longleftrightarrow> (\<forall>w. \<exists>x w1. call w = (Inr x, w1))"

definition unavailable :: "'w net \<Rightarrow> bool" where
  "unavailable net \<longleftrightarrow>
     (\<forall>f. succeeds (n_socket net f)) \<and> (\<forall>fd. succeeds (n_getfl net fd)) \<and> (\<forall>fd x. succeeds (n_setfl net fd x)) \<and>
     (\<forall>fd x. succeeds (n_setsockopt net fd x)) \<and> (\<forall>fd a. succeeds (n_bind net fd a)) \<and>
     (\<forall>a p f w. \<exists>l w1. l \<noteq> [] \<and> n_getaddrinfo net a p f w = (Inr l, w1)) \<and>
     (\<forall>fd a w. \<exists>w1. n_connect net fd a w = (Inl EADDRNOTAVAIL, w1))"

text \<open>The context holds the last of \<open>n\<close> new descriptors, all of them open, and no error.\<close>

definition leaking :: "('w \<Rightarrow> int set) \<Rightarrow> int set \<Rightarrow> nat \<Rightarrow> redisContext \<Rightarrow> 'w netstate \<Rightarrow> bool" where
  "leaking fds D n c0 s \<longleftrightarrow>
     (\<exists>L. finite L \<and> card L = n \<and> L \<inter> D = {} \<and> fds (ns_world s) = D \<union> L \<and>
        (0 < n \<longrightarrow> c_fd (ns_c s) \<in> L \<and> 0 < c_fd (ns_c s))) \<and>
     c_err (ns_c s) = 0 \<and> based c0 (c_flags c0) (ns_c s)"

lemma leaking_world:
  "fds w = fds (ns_world s) \<Longrightarrow> leaking fds D n c0 (s\<lparr>ns_errno := e, ns_world := w\<rparr>) = leaking fds D n c0 s"
  "fds w = fds (ns_world s) \<Longrightarrow> leaking fds D n c0 (s\<lparr>ns_world := w\<rparr>) = leaking fds D n c0 s"
  by (simp_all add: leaking_def)

lemma wp_succeeds:
  assumes "succeeds call" and "quiet fds call"
    and "\<And>x w. fds w = fds (ns_world s) \<Longrightarrow> Q (Some x) (s\<lparr>ns_world := w\<rparr>)"
  shows "wp (syscall call) Q s"
proof -
  obtain x w where c: "call (ns_world s) = (Inr x, w)" using assms(1) unfolding succeeds_def by blast
  then have "fds w = fds (ns_world s)" using assms(2) by (metis quiet_def snd_conv)
  then show ?thesis using c assms(3) by (simp add: wp_def syscall_def)
qed

lemma wp_resolve_call: "call (ns_world s) = (x, w) \<Longrightarrow> wp (resolve_call call) Q s = Q x (s\<lparr>ns_world := w\<rparr>)"
  by (simp add: wp_def resolve_call_def)

lemma socket_leaks:
  assumes "leaking fds D n c0 s" and "0 \<in> D" and "0 \<le> x" and "x \<notin> fds (ns_world s)" and "fds w = insert x (fds (ns_world s))"
  shows "leaking fds D (Suc n) c0 (s\<lparr>ns_world := w, ns_c := (ns_c s)\<lparr>c_fd := x\<rparr>\<rparr>)"
proof -
  obtain L where L: "finite L" "card L = n" "L \<inter> D = {}" "fds (ns_world s) = D \<union> L" using assms(1) by (auto simp: leaking_def)
  then have "finite (insert x L)" "card (insert x L) = Suc n" "insert x L \<inter> D = {}" "fds w = D \<union> insert x L" "0 < x"
    using assms(2-5) by (auto simp: order.order_iff_strict)
  then show ?thesis using assms(1) by (auto simp: leaking_def based_def)
qed

lemma wp_socket_succeeds:
  assumes "accounts sys net fds" and "succeeds (n_socket net f)"
    and "\<And>x w. 0 \<le> x \<Longrightarrow> x \<notin> fds (ns_world s) \<Longrightarrow> fds w = insert x (fds (ns_world s)) \<Longrightarrow> Q (Some x) (s\<lparr>ns_world := w\<rparr>)"
  shows "wp (syscall (n_socket net f)) Q s"
proof -
  obtain x w where c: "n_socket net f (ns_world s) = (Inr x, w)" using assms(2) unfolding succeeds_def by blast
  have "case n_socket net f (ns_world s) of (Inl e, w1) \<Rightarrow> fds w1 = fds (ns_world s)
      | (Inr s', w1) \<Rightarrow> 0 \<le> s' \<and> s' \<notin> fds (ns_world s) \<and> fds w1 = insert s' (fds (ns_world s))"
    using assms(1) by (simp add: accounts_def)
  then show ?thesis using c assms(3) by (simp add: wp_def syscall_def)
qed

lemma set_blocking_succeeds:
  assumes acc: "accounts sys net fds" and un: "unavailable net" and s: "leaking fds D n c0 s"
  shows "wp (redisSetBlocking sys net b) (\<lambda>ok s1. ok \<and> leaking fds D n c0 s1) s"
proof -
  have g: "succeeds (n_getfl net fd)" "succeeds (n_setfl net fd x)" for fd x using un by (simp_all add: unavailable_def)
  show ?thesis
    unfolding redisSetBlocking_def wp_bind wp_get
    by (rule wp_succeeds [OF g(1) accounts_quiet(1) [OF acc]], simp only: option.case wp_bind, rule wp_succeeds [OF g(2) accounts_quiet(2) [OF acc]])
      (use s in \<open>simp add: leaking_def\<close>)
qed

lemma bind_source_succeeds:
  assumes acc: "accounts sys net fds" and un: "unavailable net" and s: "leaking fds D n c0 s"
  shows "wp (bind_source sys net fd family True a) (\<lambda>ok s1. ok \<and> leaking fds D n c0 s1) s"
proof -
  have g: "succeeds (n_setsockopt net fd x)" "succeeds (n_bind net fd y)" for x y using un by (simp_all add: unavailable_def)
  obtain b bs w where l: "n_getaddrinfo net a None family (ns_world s) = (Inr (b # bs), w)"
    using un unfolding unavailable_def by (metis neq_Nil_conv)
  have w: "fds w = fds (ns_world s)" using accounts_quiet(7) [OF acc] l by (metis quiet_def snd_conv)
  have bf: "wp (bind_first net fd (b # bs)) (\<lambda>ok s1. ok \<and> leaking fds D n c0 s1) s1" if "leaking fds D n c0 s1" for s1
    unfolding bind_first.simps wp_bind
    by (rule wp_succeeds [OF g(2) accounts_quiet(5) [OF acc]]) (use that in \<open>simp add: leaking_def\<close>)
  have bound: "wp (bind_first net fd (b # bs)) (\<lambda>ok. wp (bind (modify (\<lambda>st. st\<lparr>ns_world := n_freeaddrinfo net (b # bs) (ns_world st)\<rparr>))
      (\<lambda>_. if ok then ret True else bind (get ns_errno) (\<lambda>e.
         bind (error_other (prefixed (''Can'' @ [CHR 0x27] @ ''t bind socket: '') (sys_strerror sys e))) (\<lambda>_. ret False))))
      (\<lambda>ok s1. ok \<and> leaking fds D n c0 s1)) s1" if "leaking fds D n c0 s1" for s1
    by (rule wp_mono [OF bf [OF that]]) (simp add: leaking_world accounts_quiet(8) [OF acc])
  have "wp (syscall (n_setsockopt net fd (SO_REUSEADDR 1))) (\<lambda>ok. wp (if ok = None then ret False
      else bind (bind_first net fd (b # bs)) (\<lambda>ok. bind (modify (\<lambda>st. st\<lparr>ns_world := n_freeaddrinfo net (b # bs) (ns_world st)\<rparr>))
      (\<lambda>_. if ok then ret True else bind (get ns_errno) (\<lambda>e.
         bind (error_other (prefixed (''Can'' @ [CHR 0x27] @ ''t bind socket: '') (sys_strerror sys e))) (\<lambda>_. ret False)))))
      (\<lambda>ok s1. ok \<and> leaking fds D n c0 s1)) (s\<lparr>ns_world := w\<rparr>)"
    by (rule wp_succeeds [OF g(1) accounts_quiet(3) [OF acc]])
      (use s w in \<open>simp only: option.distinct if_False wp_bind [of "bind_first net fd (b # bs)"] bound leaking_world netstate.simps\<close>)
  then show ?thesis
    unfolding bind_source_def wp_bind [of "resolve_call c" for c] wp_resolve_call [where call = "n_getaddrinfo net a None family", OF l]
    by (simp only: sum.case if_True wp_bind [of "syscall c" for c])
qed

lemma try_address_retries:
  assumes acc: "accounts sys net fds" and un: "unavailable net" and D: "0 \<in> D" and s: "leaking fds D n c0 s"
  shows "wp (try_address sys net timeout source_addr family bl True p) (\<lambda>a s1. a = AddrRetry \<and> leaking fds D (Suc n) c0 s1) s"
proof -
  let ?Q = "\<lambda>a s1. a = AddrRetry \<and> leaking fds D (Suc n) c0 s1"
  have conn: "wp (connect_tcp sys net timeout bl True x p) ?Q s1" if "leaking fds D (Suc n) c0 s1" for x s1
  proof -
    obtain w where c: "n_connect net x (ai_addr p) (ns_world s1) = (Inl EADDRNOTAVAIL, w)"
      using un unfolding unavailable_def by blast
    then have "fds w = fds (ns_world s1)" by (rule quietD [OF accounts_quiet(6) [OF acc]])
    then show ?thesis using c that by (simp add: connect_tcp_def wp_def bind_def syscall_def get_def ret_def leaking_def)
  qed
  have bound: "wp (case source_addr of None \<Rightarrow> ret True | Some a \<Rightarrow> bind_source sys net x family True a)
      (\<lambda>ok s1. ok \<and> leaking fds D (Suc n) c0 s1) s1" if "leaking fds D (Suc n) c0 s1" for x s1
    using that bind_source_succeeds [OF acc un that] by (cases source_addr) simp_all
  have bind_ok: "wp (case source_addr of None \<Rightarrow> ret True | Some a \<Rightarrow> bind_source sys net x family True a)
      (\<lambda>b. wp (if \<not> b then ret GotoError else connect_tcp sys net timeout bl True x p) ?Q) s1"
    if "leaking fds D (Suc n) c0 s1" for x s1
    by (rule wp_mono [OF bound [OF that]]) (simp add: conn)
  have after: "wp (redisSetBlocking sys net False) (\<lambda>ok. wp (if \<not> ok then ret GotoError
      else bind (case source_addr of None \<Rightarrow> ret True | Some a \<Rightarrow> bind_source sys net x family True a) (\<lambda>b.
        if \<not> b then ret GotoError else connect_tcp sys net timeout bl True x p)) ?Q) s1"
    if "leaking fds D (Suc n) c0 s1" for x s1
  proof (rule wp_mono [OF set_blocking_succeeds [OF acc un that]])
    fix ok s2 assume a: "ok \<and> leaking fds D (Suc n) c0 s2"
    show "wp (if \<not> ok then ret GotoError
      else bind (case source_addr of None \<Rightarrow> ret True | Some a \<Rightarrow> bind_source sys net x family True a) (\<lambda>b.
        if \<not> b then ret GotoError else connect_tcp sys net timeout bl True x p)) ?Q s2"
      using bind_ok [of s2 x] a by (simp only: simp_thms if_False wp_bind)
  qed
  have sock: "succeeds (n_socket net (ai_family p))" using un by (simp add: unavailable_def)
  show ?thesis
    unfolding try_address_def wp_bind [of "syscall c" for c]
  proof (rule wp_socket_succeeds [OF acc sock])
    fix x w assume x: "0 \<le> x" "x \<notin> fds (ns_world s)" "fds w = insert x (fds (ns_world s))"
    from after [OF socket_leaks [OF s D x], of x]
    show "wp (case Some x of None \<Rightarrow> ret NextAddress
       | Some x \<Rightarrow> bind (set_context (\<lambda>c. c\<lparr>c_fd := x\<rparr>)) (\<lambda>_.
           bind (redisSetBlocking sys net False) (\<lambda>ok. if \<not> ok then ret GotoError
             else bind (case source_addr of None \<Rightarrow> ret True | Some a \<Rightarrow> bind_source sys net x family True a) (\<lambda>b.
               if \<not> b then ret GotoError else connect_tcp sys net timeout bl True x p)))) ?Q (s\<lparr>ns_world := w\<rparr>)"
      by simp
  qed
qed

lemma connect_loop_exhausts:
  assumes acc: "accounts sys net fds" and un: "unavailable net" and D: "0 \<in> D"
  shows "n < REDIS_CONNECT_RETRIES \<Longrightarrow> leaking fds D n c0 s \<Longrightarrow>
     wp (connect_loop sys net timeout source_addr family bl True (p # ps) n)
       (\<lambda>ok s1. \<not> ok \<and> leaking fds D REDIS_CONNECT_RETRIES c0 s1) s"
proof (induction "REDIS_CONNECT_RETRIES - n" arbitrary: n s)
  case (Suc k)
  have "wp (case a of NextAddress \<Rightarrow> connect_loop sys net timeout source_addr family bl True ps n
       | AddrRetry \<Rightarrow> if n + 1 \<ge> REDIS_CONNECT_RETRIES then ret False
           else connect_loop sys net timeout source_addr family bl True (p # ps) (n + 1)
       | GotoError \<Rightarrow> ret False | GotoEnd \<Rightarrow> ret True)
      (\<lambda>ok s1. \<not> ok \<and> leaking fds D REDIS_CONNECT_RETRIES c0 s1) s1"
    if a: "a = AddrRetry \<and> leaking fds D (Suc n) c0 s1" for a s1
  proof (cases "n + 1 \<ge> REDIS_CONNECT_RETRIES")
    case True
    then have "Suc n = REDIS_CONNECT_RETRIES" using Suc.prems(1) by simp
    then show ?thesis using a True by simp
  next
    case False
    then show ?thesis using a Suc.hyps(1) [of "Suc n" s1] Suc.hyps(2) by simp
  qed
  then show ?case
    by (subst connect_loop.simps(2), unfold wp_bind) (rule wp_mono [OF try_address_retries [OF acc un D Suc.prems(2)]])
qed simp

lemma connect_tcp_exhausts:
  assumes acc: "accounts sys net fds" and un: "unavailable net" and D: "0 \<in> D" and s: "leaking fds D 0 c0 s"
    and re: "has_flag (ns_c s) REDIS_REUSEADDR = True"
  shows "wp (redisContextConnectTcp_priv sys net addr port timeout source_addr)
     (\<lambda>ok s1. \<not> ok \<and> leaking fds D REDIS_CONNECT_RETRIES c0 s1) s"
proof -
  let ?t = "take 5 (show_int port)"
  obtain p ps w where l: "n_getaddrinfo net addr (Some ?t) AF_INET (ns_world s) = (Inr (p # ps), w)"
    using un unfolding unavailable_def by (metis neq_Nil_conv)
  have "fds w = fds (ns_world s)" by (rule quietD [OF accounts_quiet(7) [OF acc] l])
  then have "leaking fds D 0 c0 (s\<lparr>ns_world := w\<rparr>)" using s by (simp add: leaking_world)
  from connect_loop_exhausts [OF acc un D _ this]
  have "wp (connect_loop sys net timeout source_addr AF_INET (has_flag (ns_c s) REDIS_BLOCK) True (p # ps) 0)
      (\<lambda>ok. wp (bind (modify (\<lambda>st. st\<lparr>ns_world := n_freeaddrinfo net (p # ps) (ns_world st)\<rparr>)) (\<lambda>_. ret ok))
        (\<lambda>ok s1. \<not> ok \<and> leaking fds D REDIS_CONNECT_RETRIES c0 s1)) (s\<lparr>ns_world := w\<rparr>)"
    by (rule wp_mono) (simp_all add: REDIS_CONNECT_RETRIES_def leaking_world accounts_quiet(8) [OF acc])
  then show ?thesis
    unfolding redisContextConnectTcp_priv_def Let_def wp_bind [of "get f" for f] wp_get prod.case re
      wp_bind [of "resolve_call c" for c] wp_resolve_call [where call = "n_getaddrinfo net addr (Some ?t) AF_INET", OF l]
    by (simp only: sum.case bind_ret prod.case wp_bind [of "connect_loop sys net timeout source_addr f b r as n" for f b r as n])
qed

text \<open>C16.
  Connecting with address reuse when no local address is available. After ten attempts the function
  returns a context that is not connected and yet carries no error, and freeing it leaves the nine
  descriptors of the earlier attempts open.
\<close>

theorem redisConnectBindNonBlockWithReuse_leaks:
  assumes "accounts sys net fds" and "unavailable net" and "0 \<in> fds w" and "redisContextInit m \<noteq> None"
  shows "\<exists>c e1 w1 w2. redisConnectBindNonBlockWithReuse m sys net ip port source_addr e w = Ok (Some c, e1, w1) \<and>
     c_err c = 0 \<and> \<not> has_flag c REDIS_CONNECTED \<and> c_fd c \<notin> fds w \<and>
     redisFree sys (Some c) h w1 = Ok (h, w2) \<and> fds w \<subseteq> fds w2 \<and> card (fds w2 - fds w) = 9"
proof -
  obtain c where c: "redisContextInit m = Some c" using assms(4) by blast
  let ?c = "(set_flag REDIS_REUSEADDR \<circ> clear_flag REDIS_BLOCK) c"
  let ?s = "\<lparr>ns_c = ?c, ns_errno = e, ns_world = w\<rparr>"
  have fl: "c_flags ?c = REDIS_REUSEADDR" using context_init(3) [OF c] by (simp add: set_flag_def clear_flag_def)
  then have re: "has_flag (ns_c ?s) REDIS_REUSEADDR = True" by (simp add: has_flag_def flag_defs)
  have s: "leaking fds (fds w) 0 ?c ?s"
    using context_init(1) [OF c] by (simp add: leaking_def based_def set_flag_def clear_flag_def exI [of _ "{}"])
  obtain s1 where run: "redisContextConnectTcp_priv sys net ip port None source_addr ?s = (Ok False, s1)"
      "leaking fds (fds w) REDIS_CONNECT_RETRIES ?c s1"
    using wp_run [OF connect_tcp_exhausts [OF assms(1-3) s re, of ip port None source_addr]] by auto
  obtain L where L: "finite L" "card L = 10" "L \<inter> fds w = {}" "fds (ns_world s1) = fds w \<union> L" "c_fd (ns_c s1) \<in> L" "0 < c_fd (ns_c s1)"
    using run(2) by (auto simp: leaking_def REDIS_CONNECT_RETRIES_def)
  obtain R where R: "c_reader (ns_c s1) = Some R" "idle R []"
    using context_init(5) [OF c] run(2) by (auto simp: leaking_def based_def set_flag_def clear_flag_def)
  have call: "redisConnectBindNonBlockWithReuse m sys net ip port source_addr e w = Ok (Some (ns_c s1), ns_errno s1, ns_world s1)"
    using c run(1) by (simp add: redisConnectBindNonBlockWithReuse_def connect_with_def redisContextConnectBindTcp_def)
  let ?w2 = "sys_close sys (c_fd (ns_c s1)) (ns_world s1)"
  have free: "redisFree sys (Some (ns_c s1)) h (ns_world s1) = Ok (h, ?w2)"
    using L(6) R(1) redisReaderFree_unused [OF R(2)] by (simp add: redisFree_def Let_def)
  have w2: "fds ?w2 = fds w \<union> (L - {c_fd (ns_c s1)})" using L accounts_quiet(10) [OF assms(1)] by auto
  then have d: "fds ?w2 - fds w = L - {c_fd (ns_c s1)}" using L(3) by auto
  have "\<not> has_flag (ns_c s1) REDIS_CONNECTED" "c_err (ns_c s1) = 0"
    using run(2) fl by (simp_all add: leaking_def based_def has_flag_def flag_defs)
  moreover have "c_fd (ns_c s1) \<notin> fds w" using L(3,5) by blast
  moreover have "card (fds ?w2 - fds w) = 9" unfolding d using L by simp
  moreover have "fds w \<subseteq> fds ?w2" using w2 by simp
  ultimately show ?thesis using call free by blast
qed

section \<open>A concrete system\<close>

text \<open>
  The world is the list of open descriptors; a new one is above all of them. Every call succeeds but
  \<^verbatim>\<open>connect\<close>, whose result is given.
\<close>

definition demo_net :: "(errno + unit) \<Rightarrow> int list net" where
  "demo_net r =
     \<lparr>n_socket = \<lambda>f w. let s = foldr max w 0 + 1 in (Inr s, s # w),
      n_getfl = \<lambda>fd w. (Inr 0, w), n_setfl = \<lambda>fd x w. (Inr (), w), n_setsockopt = \<lambda>fd x w. (Inr (), w),
      n_poll = \<lambda>fd k w. (Inr 1, w), n_bind = \<lambda>fd a w. (Inr (), w), n_connect = \<lambda>fd a w. (r, w),
      n_getaddrinfo = \<lambda>a p f w. (Inr [\<lparr>ai_family = f, ai_addr = a\<rparr>], w), n_freeaddrinfo = \<lambda>l w. w,
      n_gai_strerror = \<lambda>e. []\<rparr>"

definition demo_closing :: "int list system" where
  "demo_closing =
     \<lparr>sys_read = \<lambda>fd n w. (ReadBytes [], w), sys_write = \<lambda>fd t w. (Wrote 0, w),
      sys_close = \<lambda>fd w. filter (\<lambda>x. x \<noteq> fd) w, sys_sockerror = \<lambda>fd w. (SockStatus None, w), sys_strerror = \<lambda>e. []\<rparr>"

lemma foldr_max_ge: "x \<in> set w \<Longrightarrow> x \<le> foldr max w (0 :: int)" "0 \<le> foldr max w (0 :: int)"
  by (induction w) auto

lemma demo_accounts: "accounts demo_closing (demo_net r) set"
  using foldr_max_ge by (fastforce simp: accounts_def quiet_def demo_closing_def demo_net_def Let_def)

lemma demo_unavailable: "unavailable (demo_net (Inl EADDRNOTAVAIL))"
  by (simp add: unavailable_def succeeds_def demo_net_def Let_def)

lemma demo_init: "redisContextInit demo_mem \<noteq> None"
  by (simp add: redisContextInit_def redisReaderCreate_def redisReaderCreateWithFunctions_def
      sdsempty_def sdsnewlen_def demo_mem_def Let_def)


theorem redisConnectBindNonBlockWithReuse_leaks_witness:
  "\<exists>c e1 w1 w2. redisConnectBindNonBlockWithReuse demo_mem demo_closing (demo_net (Inl EADDRNOTAVAIL)) ''localhost'' 6379
       (Some ''127.0.0.1'') EAGAIN [0] = Ok (Some c, e1, w1) \<and>
     c_err c = 0 \<and> \<not> has_flag c REDIS_CONNECTED \<and>
     redisFree demo_closing (Some c) empty_heap w1 = Ok (empty_heap, w2) \<and> card (set w2 - {0}) = 9"
proof -
  have D: "0 \<in> set [0 :: int]" by simp
  have e: "set [0] = {0 :: int}" by simp
  show ?thesis
    using redisConnectBindNonBlockWithReuse_leaks [OF demo_accounts demo_unavailable D demo_init, of "''localhost''" 6379 "Some ''127.0.0.1''" EAGAIN empty_heap]
    unfolding e by blast
qed

theorem wait_msec_bounds_witness:
  "\<exists>n. wait_msec (Some \<lparr>tv_sec = 1, tv_usec = 500001\<rparr>) = Some n \<and> n \<le> INT_MAX \<and>
     n * 1000 < 1500001 + 1000 \<and> (1500001 \<le> n * 1000 \<or> n = INT_MAX)"
  using wait_msec_bounds [of "\<lparr>tv_sec = 1, tv_usec = 500001\<rparr>"] by (auto simp: MAX_MSEC_def LONG_MAX_def)

end
