(* ===== verification/Fuse.thy ===== *)
theory Fuse
  imports Wrapper
begin

text \<open>
  The file-system adapter \<^verbatim>\<open>fuse/redisfs.cc\<close>: the two handlers that use the file system. Its other
  handlers only print their arguments. The callback that takes the entries of a directory is a
  parameter, with the state it fills.
\<close>

definition S_IFDIR :: cint where "S_IFDIR = 0x4000"
definition S_IFREG :: cint where "S_IFREG = 0x8000"
definition ENOMEM :: cint where "ENOMEM = 12"

text \<open>The members of \<^verbatim>\<open>struct stat\<close> that are set.\<close>

record statbuf =
  st_nlink :: clong
  st_mode :: cint
  st_size :: clong

text \<open>\<open>ust\<close> and \<open>uninit\<close> are the locals of the called functions before they are set.\<close>

definition Getattr ::
    "'s server \<Rightarrow> vfsPathParserState_t \<Rightarrow> dirItemInfo \<Rightarrow> string \<Rightarrow> string \<Rightarrow> statbuf \<Rightarrow> ('s, cint \<times> statbuf) op" where
  "Getattr srv ust uninit ccwd path buf =
     bind (stat srv ust uninit ccwd path) (\<lambda>info.
       let buf = buf\<lparr>st_nlink := di_id info\<rparr>;
           buf = (if di_type info = DIR_ITEM_FOLDER then buf\<lparr>st_mode := S_IFDIR\<rparr> else buf\<lparr>st_mode := S_IFREG\<rparr>)
       in ret (0, buf\<lparr>st_size := 0\<rparr>))"

fun fill_names :: "('b \<Rightarrow> string \<Rightarrow> cint \<times> 'b) \<Rightarrow> string list \<Rightarrow> 'b \<Rightarrow> cint \<times> 'b" where
  "fill_names filler [] buf = (0, buf)"
| "fill_names filler (name # names) buf =
     (let (r, buf1) = filler buf (c_str name)
      in if r \<noteq> 0 then (- ENOMEM, buf1) else fill_names filler names buf1)"

definition Readdir ::
    "'s server \<Rightarrow> dirItemInfo \<Rightarrow> string \<Rightarrow> ('b \<Rightarrow> string \<Rightarrow> cint \<times> 'b) \<Rightarrow> string \<Rightarrow> 'b \<Rightarrow> ('s, cint \<times> 'b) op" where
  "Readdir srv uninit ccwd filler path buf =
     bind (ls_path srv uninit ccwd path) (\<lambda>names. ret (fill_names filler names buf))"

end
