(* ===== verification/FuseProperties.thy ===== *)
theory FuseProperties
  imports Fuse WrapperProperties
begin

text \<open>
  Properties of the file-system adapter: what the directory handler hands over, and what the attribute
  handler says of a path, present or not.
\<close>

section \<open>What a path names\<close>

text \<open>The file or folder of a path, with its kind; \<open>ty\<close> is the kind given when there is none.\<close>

definition path_file :: "fs \<Rightarrow> string \<Rightarrow> clong \<Rightarrow> clong option" where
  "path_file a p w =
     (if last p = CHR ''/'' then None
      else case dir_of_path a p w of
        None \<Rightarrow> None
      | Some d \<Rightarrow> (case lookup_obj a d (last (split_slash p)) of Some (FileObj f) \<Rightarrow> Some f | _ \<Rightarrow> None))"

definition path_info :: "fs \<Rightarrow> dirItemType \<Rightarrow> string \<Rightarrow> clong \<Rightarrow> clong \<times> dirItemType" where
  "path_info a ty p w =
     (case path_file a p w of
        Some f \<Rightarrow> (f, DIR_ITEM_FILE)
      | None \<Rightarrow> (case dir_of_path a (with_slash p) w of Some c \<Rightarrow> (c, DIR_ITEM_FOLDER) | None \<Rightarrow> (-1, ty)))"

lemma path_file_dom:
  assumes "fs_ok a" and "path_file a p w = Some f"
  shows "f \<in> dom (fs_file a)" and "f \<noteq> -1"
proof -
  obtain d where d: "lookup_obj a d (last (split_slash p)) = Some (FileObj f)"
    using assms(2) by (auto simp: path_file_def split: if_splits option.splits object.splits)
  then have f: "f \<in> set (fs_files a d)" using find_file_Some by (auto simp: lookup_obj_def split: option.splits)
  show "f \<in> dom (fs_file a)" "f \<noteq> -1" using ok_file_list(1) [OF assms(1) f] file_not_minus1 [OF assms(1) f] .
qed

lemma last_part_nonempty: "p \<noteq> [] \<Longrightarrow> last p \<noteq> CHR ''/'' \<Longrightarrow> last (split_slash p) \<noteq> []"
  by (cases p rule: rev_cases) (simp_all add: split_slash_snoc)

context redis
begin

lemma wp_fileIdFromPath:
  assumes rep: "fs_rep (view s) a" and ok: "fs_ok a" and sf: "slash_free a" and u: "unambiguous a"
    and w: "folder_path a w ns" and p: "no_nul p" "p \<noteq> []" "last p \<noteq> CHR ''/''"
    and post: "\<And>s'. fs_rep (view s') a \<Longrightarrow> Q (or_minus1 (path_file a p w)) s'"
  shows "wp (getFileIdFromPath srv ust (show_path ns) p) Q s"
  unfolding getFileIdFromPath_def wp_bind
proof (rule wp_cwdId [OF rep ok sf u w])
  fix s' assume rep': "fs_rep (view s') a"
  have strip: "strip_slash p = p" using p(3) by (simp add: strip_slash_def)
  have name: "last (split_slash p) \<noteq> []" by (rule last_part_nonempty [OF p(2,3)])
  show "wp (vfs_parsePath srv ust p (length p) w) (\<lambda>x. wp (case x of (r, parserState) \<Rightarrow>
       if r = -1 then ret (-1) else if \<not> ps_isFilePath parserState then ret (-1) else ret (ps_id parserState)) Q) s'"
    using folder_path_names [OF w ok] post name
    by (intro wp_parsePath [OF rep' ok sf p(1,2)])
      (auto simp: parse_spec_def strip p Let_def path_file_def parsed_state_def or_minus1_def init_vfsPathParserState_def
        split: option.splits object.splits)
qed

text \<open>The attributes of a path.\<close>

lemma wp_Getattr:
  assumes rep: "fs_rep (view s) a" and ok: "fs_ok a" and sf: "slash_free a" and u: "unambiguous a"
    and w: "folder_path a w ns" and p: "no_nul p" "p \<noteq> []"
    and post: "\<And>s'. fs_rep (view s') a \<Longrightarrow>
       Q (0, buf\<lparr>st_nlink := fst (path_info a (di_type uninit) p w),
             st_mode := (if snd (path_info a (di_type uninit) p w) = DIR_ITEM_FOLDER then S_IFDIR else S_IFREG), st_size := 0\<rparr>) s'"
  shows "wp (Getattr srv ust uninit (show_path ns) p buf) Q s"
proof -
  let ?dir = "dir_of_path a (with_slash p) w" and ?ret0 = "uninit\<lparr>di_id := -1, di_exists := False, di_name := []\<rparr>"
  let ?Q = "\<lambda>info. Q (0, (if di_type info = DIR_ITEM_FOLDER then buf\<lparr>st_nlink := di_id info, st_mode := S_IFDIR\<rparr>
      else buf\<lparr>st_nlink := di_id info, st_mode := S_IFREG\<rparr>)\<lparr>st_size := 0\<rparr>)"
  have dir: "wp (bind (getFolderIdFromPath srv (show_path ns) p) (\<lambda>folderId.
        if folderId = -1 then ret ?ret0
        else bind (redis_getFolderName srv folderId) (\<lambda>name.
          ret (?ret0\<lparr>di_id := folderId, di_type := DIR_ITEM_FOLDER, di_exists := True, di_name := name\<rparr>)))) ?Q s'"
    if "path_file a p w = None" and "fs_rep (view s') a" for s'
    unfolding wp_bind
  proof (rule wp_folderIdFromPath [OF that(2) ok sf u w p])
    fix s'' assume rep'': "fs_rep (view s'') a"
    show "wp (if or_minus1 ?dir = -1 then ret ?ret0
        else bind (redis_getFolderName srv (or_minus1 ?dir)) (\<lambda>name.
          ret (?ret0\<lparr>di_id := or_minus1 ?dir, di_type := DIR_ITEM_FOLDER, di_exists := True, di_name := name\<rparr>))) ?Q s''"
    proof (cases ?dir)
      case None
      then show ?thesis using post [OF rep''] that(1) by (simp add: or_minus1_def path_info_def split: if_splits)
    next
      case (Some c)
      then have c: "c \<in> dom (fs_dir a)"
        using folder_path_names [OF w ok] resolve_dom [OF ok] fs_ok_root [OF ok] by (auto simp: dir_of_path_def split: if_splits)
      then show ?thesis
        using post that(1) Some dir_not_minus1 [OF ok c]
        by (auto simp: or_minus1_def path_info_def intro!: wp_cxx_folderName [OF rep'' ok c])
    qed
  qed
  have isfile: "wp (if last p \<noteq> CHR ''/'' then getFileIdFromPath srv ust (show_path ns) p else ret (-1))
      (\<lambda>fileId s'. fileId = or_minus1 (path_file a p w) \<and> fs_rep (view s') a) s"
  proof (cases "last p = CHR ''/''")
    case True
    then show ?thesis using rep by (simp add: path_file_def or_minus1_def)
  next
    case False
    then show ?thesis using wp_fileIdFromPath [OF rep ok sf u w p False] by simp
  qed
  have "wp (getDirItemInfo_path srv ust uninit (show_path ns) p) ?Q s"
    unfolding getDirItemInfo_path_def Let_def wp_bind
  proof (simp only: p(2) if_False, unfold wp_bind, rule wp_mono [OF isfile])
    fix fileId s' assume f: "fileId = or_minus1 (path_file a p w) \<and> fs_rep (view s') a"
    show "wp (if fileId \<noteq> -1 then bind (redis_getFileName srv fileId) (\<lambda>name.
          ret (?ret0\<lparr>di_id := fileId, di_type := DIR_ITEM_FILE, di_exists := True, di_name := name\<rparr>))
        else bind (getFolderIdFromPath srv (show_path ns) p) (\<lambda>folderId.
          if folderId = -1 then ret ?ret0
          else bind (redis_getFolderName srv folderId) (\<lambda>name.
            ret (?ret0\<lparr>di_id := folderId, di_type := DIR_ITEM_FOLDER, di_exists := True, di_name := name\<rparr>)))) ?Q s'"
    proof (cases "path_file a p w")
      case None
      then show ?thesis using f dir by (simp add: or_minus1_def)
    next
      case (Some g)
      note g = path_file_dom [OF ok Some]
      show ?thesis
        using f Some g(2) post by (auto simp: or_minus1_def path_info_def intro!: wp_cxx_fileName [OF _ ok g(1)])
    qed
  qed
  then show ?thesis
    unfolding Getattr_def stat_def wp_bind Let_def by (rule wp_mono) (simp split: if_splits)
qed

lemma wp_dirItemName:
  assumes rep: "fs_rep (view s) a" and ok: "fs_ok a" and x: "x \<in> dom (fs_dir a) \<union> dom (fs_file a)"
    and post: "\<And>s'. fs_rep (view s') a \<Longrightarrow> Q (if x \<in> dom (fs_dir a) then dname a x else fname a x) s'"
  shows "wp (bind (getDirItemInfo srv uninit x) (\<lambda>info. ret (di_name info))) Q s"
  unfolding getDirItemInfo_def wp_bind
proof (rule wp_isDirectory [OF rep])
  fix s' assume rep': "fs_rep (view s') a"
  show "wp (if (if x \<in> dom (fs_dir a) then 1 else 0 :: cint) \<noteq> 0 then
         bind (redis_getFolderParentId srv x) (\<lambda>parentId.
         bind (redis_getFolderName srv x) (\<lambda>name.
           ret (uninit\<lparr>di_id := x, di_exists := False, di_type := DIR_ITEM_FOLDER, di_parentId := parentId, di_name := name\<rparr>)))
       else
         bind (redis_getFileParentId srv x) (\<lambda>parentId.
         bind (redis_getFileName srv x) (\<lambda>name.
           ret (uninit\<lparr>di_id := x, di_exists := False, di_type := DIR_ITEM_FILE, di_parentId := parentId, di_name := name\<rparr>))))
      (\<lambda>info. wp (ret (di_name info)) Q) s'"
  proof (cases "x \<in> dom (fs_dir a)")
    case True
    then show ?thesis
      using post by (auto intro!: wp_cxx_folderParent [OF rep' ok] wp_cxx_folderName [OF _ ok] simp del: domIff)
  next
    case False
    then have "x \<in> dom (fs_file a)" using x by blast
    then show ?thesis
      using post False by (auto intro!: wp_cxx_fileParent [OF rep'] wp_cxx_fileName [OF _ ok] simp del: domIff)
  qed
qed

lemma wp_ls_id:
  assumes rep: "fs_rep (view s) a" and ok: "fs_ok a" and apart: "set (fs_files a d) \<inter> dom (fs_dir a) = {}"
    and post: "\<And>s'. fs_rep (view s') a \<Longrightarrow> Q (map (dname a) (fs_subdirs a d) @ map (fname a) (fs_files a d)) s'"
  shows "wp (ls_id srv uninit d) Q s"
proof -
  let ?name = "\<lambda>x. if x \<in> dom (fs_dir a) then dname a x else fname a x"
  have names: "map ?name (fs_subdirs a d @ fs_files a d) = map (dname a) (fs_subdirs a d) @ map (fname a) (fs_files a d)"
    using ok_dir_list(1) [OF ok] apart by auto
  have dom: "x \<in> dom (fs_dir a) \<union> dom (fs_file a)" if "x \<in> set (fs_subdirs a d @ fs_files a d)" for x
    using that ok_dir_list(1) [OF ok, of x d] ok_file_list(1) [OF ok, of x d] by (auto simp del: domIff)
  show ?thesis
    unfolding ls_id_def listDirFileAndFolderIds_def wp_bind wp_ret
  proof (rule wp_cxx_folderIds [OF rep ok], rule wp_cxx_fileIds [OF _ ok], assumption)
    fix s' assume "fs_rep (view s') a"
    then show "wp (push_each (\<lambda>oid. bind (getDirItemInfo srv uninit oid) (\<lambda>info. ret (di_name info))) (fs_subdirs a d @ fs_files a d)) Q s'"
      using post unfolding names [symmetric]
      by (intro wp_push_each [where g = ?name]) (use wp_dirItemName [OF _ ok dom] in blast)+
  qed
qed

end

section \<open>Properties\<close>


text \<open>The names of the entries, and what has been handed over after \<open>i\<close> of them.\<close>

definition entries :: "fs \<Rightarrow> clong \<Rightarrow> string list" where
  "entries a d = map c_str (map (dname a) (fs_subdirs a d) @ map (fname a) (fs_files a d))"

definition filled :: "('b \<Rightarrow> string \<Rightarrow> cint \<times> 'b) \<Rightarrow> string list \<Rightarrow> 'b \<Rightarrow> nat \<Rightarrow> 'b" where
  "filled filler names buf i = fold (\<lambda>n b. snd (filler b n)) (take i names) buf"

lemma filled_slots_Cons: "filled filler (n # names) buf (Suc i) = filled filler names (snd (filler buf n)) i"
  by (simp add: filled_def)

lemma fill_names_filled:
  assumes "k \<le> length names" and "\<forall>i < k. fst (filler (filled filler (map c_str names) buf i) (map c_str names ! i)) = 0"
    and "k < length names \<Longrightarrow> fst (filler (filled filler (map c_str names) buf k) (map c_str names ! k)) \<noteq> 0"
  shows "fill_names filler names buf =
     (if k = length names then (0, filled filler (map c_str names) buf k) else (- ENOMEM, filled filler (map c_str names) buf (Suc k)))"
  using assms
proof (induction names arbitrary: k buf)
  case Nil
  then show ?case by (simp add: filled_def)
next
  case (Cons n names)
  show ?case
  proof (cases k)
    case 0
    then show ?thesis using Cons.prems(3) by (simp add: filled_def case_prod_unfold)
  next
    case (Suc j)
    have "fst (filler buf (c_str n)) = 0" using Cons.prems(2) Suc by (auto simp: filled_def dest: spec [of _ 0])
    moreover have "fill_names filler names (snd (filler buf (c_str n))) =
        (if j = length names then (0, filled filler (map c_str names) (snd (filler buf (c_str n))) j)
         else (- ENOMEM, filled filler (map c_str names) (snd (filler buf (c_str n))) (Suc j)))"
    proof (rule Cons.IH)
      show "\<forall>i < j. fst (filler (filled filler (map c_str names) (snd (filler buf (c_str n))) i) (map c_str names ! i)) = 0"
        using Cons.prems(2) Suc by (auto simp: filled_slots_Cons dest: spec [of _ "Suc i" for i])
    qed (use Cons.prems(1,3) Suc in \<open>simp_all add: filled_slots_Cons\<close>)
    ultimately show ?thesis using Suc by (simp add: case_prod_unfold filled_slots_Cons)
  qed
qed


section \<open>Witnesses\<close>

abbreviation demo_info :: dirItemInfo where
  "demo_info \<equiv> \<lparr>di_id = 7, di_exists = True, di_type = DIR_ITEM_FOLDER, di_parentId = 7, di_name = []\<rparr>"

lemma demo_none: "lookup_obj demo_fs 1 ''no'' = None"
  by (simp add: lookup_obj_def find_file_def find_dir_def fname_def dname_def demo_fs_eq)



end
