(* ===== verification/Spec2Isabelle.thy ===== *)
theory Spec2Isabelle
  imports VfsProperties ReaderProperties WrapperProperties SdsProperties DictProperties
    SdsTextProperties SdsSplitProperties PubSubProperties ContextProperties Connection NetProperties FuseProperties
begin

text \<open>
  A verification of redisVirtualFileSystem: a file system whose folders and files are kept in a Redis
  server, on top of the hiredis client library, which the repository carries as source.

  \<^bold>\<open>The program.\<close> \<^verbatim>\<open>virtualFileSystem/vfs.c\<close> keeps a tree in the server's keys: the hash
  \<^verbatim>\<open>FOLDER_<id>_info\<close> or \<^verbatim>\<open>FILE_<id>_info\<close> of an object, the lists \<^verbatim>\<open><id>_folders\<close> and \<^verbatim>\<open><id>_files\<close> of a
  folder, and a counter of ids. \<^verbatim>\<open>vfsPathParser.c\<close> resolves paths over it, \<^verbatim>\<open>vfs_safe.cc\<close> reads the keys
  with C++ types, \<^verbatim>\<open>virtualFileSystemWrapper.cc\<close> adds a working directory, and \<^verbatim>\<open>fuse/redisfs.cc\<close> serves
  FUSE. Every operation sends commands through \<^verbatim>\<open>hiredis\<close>: strings with a header (\<^verbatim>\<open>sds.c\<close>), the
  command formatter, the contexts and the reply objects (\<^verbatim>\<open>hiredis.c\<close>), the reply parser (\<^verbatim>\<open>read.c\<close>), sockets
  (\<^verbatim>\<open>net.c\<close>), the asynchronous client (\<^verbatim>\<open>async.c\<close>) and its hash table (\<^verbatim>\<open>dict.c\<close>).

  \<^bold>\<open>Conventions.\<close> A C function is a function of the same name (leading underscores dropped, \<^verbatim>\<open>_priv\<close>
  added to the internal one of a pair). A function that may crash returns an \<open>outcome\<close>, whose \<open>Fault\<close>s are the
  null dereferences, reads and writes out of bounds, failed assertions, missing variable arguments and
  exceptions of the source; state is passed explicitly (\<open>op\<close>, and \<open>pop\<close> for operations that may not
  return, with \<open>None\<close> for a run without end). \<^verbatim>\<open>long\<close> and \<^verbatim>\<open>int\<close> are 64 and 32 bit words, strings are
  lists of bytes, with a NUL where the code relies on it. Memory is a parameter (\<open>cmem\<close>): which
  allocations succeed, and the bytes of new memory.

  \<^bold>\<open>Theories, in the order of the layers.\<close>

  \<^item> \<open>Prelude\<close>: outcomes, operations and their weakest preconditions, C strings, numbers in decimal.
  \<^item> \<open>Sds\<close>, \<open>SdsText\<close> (\<^verbatim>\<open>sds.c\<close>, \<^verbatim>\<open>sds.h\<close>), with \<open>SdsProperties\<close>, \<open>SdsTextProperties\<close>, \<open>SdsSplitProperties\<close>:
    strings with a header are refined to byte strings; number printing, formatting, splitting and quoting.
  \<^item> \<open>Format\<close> (the formatter in \<^verbatim>\<open>hiredis.c\<close>): the bytes written are the request of the argument list that
    \<open>fmt_argv\<close> gives to a format; results of the other request builders agree with it.
  \<^item> \<open>Reader\<close> (\<^verbatim>\<open>read.c\<close> and the reply objects of \<^verbatim>\<open>hiredis.c\<close>), \<open>ReaderSpec\<close>, \<open>ReaderRoundTrip\<close>,
    \<open>ReaderIncremental\<close>, \<open>ReaderProperties\<close>: the parser builds exactly the encoded replies in the heap, in
    whatever pieces the bytes come, and each as soon as its bytes are there.
  \<^item> \<open>Dict\<close> (\<^verbatim>\<open>dict.c\<close>), \<open>DictSpec\<close>, \<open>DictProperties\<close>: the chained hash table is refined to a finite map.
  \<^item> \<open>Context\<close> (\<^verbatim>\<open>hiredis.c\<close>), \<open>ContextSpec\<close>, \<open>ContextProperties\<close>: the blocking client returns replies on
    every behaviour of \<^verbatim>\<open>read\<close> and \<^verbatim>\<open>write\<close> that delivers them; a closed connection stays failed.
    \<open>Connection\<close> puts a server behind the socket: commands over it do what \<open>redis_reply\<close> does.
  \<^item> \<open>Async\<close> (\<^verbatim>\<open>async.c\<close>), \<open>AsyncSpec\<close> (callback lists are queues: the locale \<open>fifo\<close>, interpreted on the
    linked lists of the code), \<open>AsyncRun\<close>, \<open>AsyncCommands\<close>, \<open>AsyncReplies\<close>, \<open>AsyncSession\<close>,
    \<open>AsyncProperties\<close>, \<open>PubSub\<close>, \<open>PubSubProperties\<close>: every callback runs once, on its own reply, in the
    order of the commands; subscriptions dispatch messages; freeing runs what is left.
  \<^item> \<open>Net\<close> (\<^verbatim>\<open>net.c\<close> and the connecting functions of \<^verbatim>\<open>hiredis.c\<close> and \<^verbatim>\<open>async.c\<close>), \<open>NetSpec\<close>,
    \<open>NetProperties\<close>: connecting is decided, descriptors are accounted for, timeouts are in range.
  \<^item> \<open>Server\<close>: the Redis server as a parameter; \<open>redis_server\<close> states what the command reference
    promises of the commands that are sent, and \<open>doc_server\<close> satisfies it.
  \<^item> \<open>Vfs\<close> (\<^verbatim>\<open>vfs.c\<close>), \<open>VfsStore\<close>, \<open>VfsSpec\<close>, \<open>VfsRefine\<close>, \<open>VfsQuery\<close>, \<open>VfsWalk\<close>, \<open>PathParser\<close>
    (\<^verbatim>\<open>vfsPathParser.c\<close>), \<open>VfsProperties\<close>: the abstract file system \<open>fs\<close>, the relation \<open>fs_rep\<close> of the key
    space to it, and the refinement of every operation, of histories of operations and of paths.
  \<^item> \<open>Safe\<close> (\<^verbatim>\<open>vfs_safe.cc\<close>), \<open>Wrapper\<close> (\<^verbatim>\<open>virtualFileSystemWrapper.cc\<close>), \<open>WrapperSpec\<close>,
    \<open>WrapperProperties\<close>, \<open>Fuse\<close> (\<^verbatim>\<open>fuse/redisfs.cc\<close>), \<open>FuseProperties\<close>: working directory, listings and
    the two handlers of the adapter that use the file system, over the same abstraction.

  \<^bold>\<open>Parameters and what is relied on.\<close> The server (\<open>redis_server\<close>), the system calls (\<open>plays\<close>,
  \<open>reads_stream\<close>, \<open>serves\<close>, \<open>accounts\<close>), the user's callbacks (\<open>sees\<close>) and memory (\<open>mem_fails\<close>, \<open>ample\<close>,
  \<open>allocates\<close>). Each of these hypotheses is met by a concrete function in a witness. The file-system
  layers call the server through \<open>redis_reply\<close>, which takes the argument list the format denotes and hands
  it to the server; that formatting, sending and reading the reply over a connection gives just this is
  the property \<open>connection_serves\<close>.

  \<^bold>\<open>Bounds and fuel.\<close> Freeing a reply recurses with the number of allocated cells as fuel, which is
  above the depth of any reply; asking for replies until there is none uses one more than the bytes fed
  as fuel, and every reply takes at least one byte. Loops that may not end (walks to the root, waiting for a
  reply, running callbacks) are partial functions; that they return is proved.

  \<^bold>\<open>Not modelled.\<close> Lengths of 2 GiB and more, at which the \<^verbatim>\<open>int\<close> counters of the string library would
  wrap; leaks of memory (frees are modelled where something can observe them: reply objects and the
  destructors of the hash table); printing for diagnostics; \<^verbatim>\<open>vfs_connect\<close> and \<^verbatim>\<open>getInitialContext\<close>, which
  only connect; the empty functions of \<^verbatim>\<open>vfs.c\<close>; the handlers of \<^verbatim>\<open>redisfs.cc\<close> that only print; the
  example file system, the forwarding code in \<^verbatim>\<open>fuse/\<close>, the adapters to event libraries that the
  repository does not contain, tests and sample programs.
\<close>

end
